(* ===== verification/Go_Prelude.thy ===== *)
theory Go_Prelude
  imports Main "HOL-Library.Word" "HOL-Library.Multiset" "HOL-Library.Char_ord"
    "HOL-Library.List_Lexorder" "HOL-Library.Product_Lexorder" "HOL-Library.AList"
begin

text \<open>
  What every component of the service shares: the Go types the sources use (64-bit
  integers, strings and byte slices), errors and panics as values, the sorting contract
  of package \<^verbatim>\<open>sort\<close>, and the generic facts about lists and association lists that the
  component proofs rest on.

  Conventions. \<^verbatim>\<open>int64\<close> and \<^verbatim>\<open>uint64\<close> are both \<open>64 word\<close>; a signed reading is always
  written \<open>sint\<close> (comparison of two \<^verbatim>\<open>int64\<close> values is comparison of their \<open>sint\<close>), the
  unsigned order is the order of the word type. Go strings and byte slices are byte
  sequences, that is \<open>char list\<close>; \<^verbatim>\<open>bytes.Compare\<close> is the lexicographic order of
  \<open>List_Lexorder\<close> over \<open>Char_ord\<close>. A nil slice is the empty list: the sources only take
  the length of slices, except for the end of a range, which is an \<open>option\<close>. Slice
  lengths and indices stay far below \<open>2 ^ 63\<close> and are \<open>nat\<close> (or \<open>int\<close> where -1 occurs).
\<close>

section \<open>Types\<close>

type_synonym int64 = "64 word"
type_synonym uint64 = "64 word"
type_synonym bytes = "char list"

text \<open>Error values: the error types the packages declare and those of \<^verbatim>\<open>errors\<close>, \<^verbatim>\<open>fmt\<close>
  and \<^verbatim>\<open>strconv\<close>.\<close>

datatype error =
    ErrorString string                    \<comment> \<open>errors.New, fmt.Errorf\<close>
  | NumError string string string         \<comment> \<open>strconv.NumError: Func, Num, Err\<close>
  | DatabaseNotImplementedError string    \<comment> \<open>pkg/database/errors.go\<close>
  | CreateDatabaseError                   \<comment> \<open>pkg/database/errors.go\<close>

text \<open>Run-time panics of Go and explicit calls of \<^verbatim>\<open>panic\<close>.\<close>

datatype go_panic =
    IndexOutOfRange | NilDereference | InterfaceConversion | DivideByZero | MakeSliceLen | PanicError string

text \<open>The outcome of a call: a value, a non-nil error, or a panic.\<close>

datatype 'a result = Ok 'a | Err error | Panic go_panic

primrec result_bind :: "'a result \<Rightarrow> ('a \<Rightarrow> 'b result) \<Rightarrow> 'b result" where
  "result_bind (Ok a) f = f a"
| "result_bind (Err e) f = Err e"
| "result_bind (Panic p) f = Panic p"

text \<open>Reading an element of a slice, with the bounds check Go makes.\<close>

definition slice_get :: "'a list \<Rightarrow> int \<Rightarrow> 'a result" where
  "slice_get xs i = (if 0 \<le> i \<and> i < int (length xs) then Ok (xs ! nat i) else Panic IndexOutOfRange)"

text \<open>Go's integer division truncates towards zero.\<close>

definition trunc_div :: "int \<Rightarrow> int \<Rightarrow> int" where
  "trunc_div a b = (let q = \<bar>a\<bar> div \<bar>b\<bar> in if (a < 0) = (b < 0) then q else - q)"

text \<open>Facts that say an operation keeps a component's invariant, and facts that give the
  value of an operation on its ordinary path.\<close>

named_theorems keeps_inv
named_theorems op_value

section \<open>Facts about results, slices and division\<close>

lemma result_bind_eq_Ok [simp]:
  "result_bind r f = Ok b \<longleftrightarrow> (\<exists>a. r = Ok a \<and> f a = Ok b)"
  by (cases r) auto

lemma result_bind_eq_Err:
  "result_bind r f = Err e \<longleftrightarrow> r = Err e \<or> (\<exists>a. r = Ok a \<and> f a = Err e)"
  by (cases r) auto

lemma result_bind_eq_Panic:
  "result_bind r f = Panic p \<longleftrightarrow> r = Panic p \<or> (\<exists>a. r = Ok a \<and> f a = Panic p)"
  by (cases r) auto

lemma slice_get_nat [simp]: "n < length xs \<Longrightarrow> slice_get xs (int n) = Ok (xs ! n)"
  by (simp add: slice_get_def)

lemma slice_get_Ok_iff:
  "slice_get xs i = Ok x \<longleftrightarrow> 0 \<le> i \<and> i < int (length xs) \<and> x = xs ! nat i"
  by (auto simp: slice_get_def)

lemma slice_get_no_Err [simp]: "slice_get xs i \<noteq> Err e"
  by (simp add: slice_get_def)

lemma trunc_div_nonneg: "0 \<le> a \<Longrightarrow> 0 < b \<Longrightarrow> trunc_div a b = a div b"
  by (simp add: trunc_div_def)

lemma trunc_div_bounds:
  assumes "0 < b" and "lo * b \<le> a" and "a \<le> hi * b"
  shows "lo \<le> trunc_div a b \<and> trunc_div a b \<le> hi"
proof (cases "0 \<le> a")
  case True
  then show ?thesis
    using assms zdiv_mono1 [of "lo * b" a b] zdiv_mono1 [of a "hi * b" b]
    by (simp add: trunc_div_nonneg)
next
  case False
  then have neg: "trunc_div a b = - ((- a) div b)"
    using assms(1) by (simp add: trunc_div_def)
  have "(- hi) * b div b \<le> - a div b" and "- a div b \<le> (- lo) * b div b"
    using assms zdiv_mono1 [of "(- hi) * b" "- a" b] zdiv_mono1 [of "- a" "(- lo) * b" b] by auto
  then show ?thesis
    using assms(1) neg nonzero_mult_div_cancel_right [of b "- hi"]
      nonzero_mult_div_cancel_right [of b "- lo"] by linarith
qed

section \<open>Signed 64-bit values\<close>

lemma sint_eq_iff [simp]: "sint (a :: 64 word) = sint b \<longleftrightarrow> a = b"
  by (metis signed_word_eqI)

lemma sint64_bounds: "- (2 ^ 63) \<le> sint (w :: 64 word)" "sint (w :: 64 word) < 2 ^ 63"
  using sint_ge [of w] sint_lt [of w] by simp_all

lemma sint64_of_int:
  assumes "- (2 ^ 63) \<le> i" and "i < 2 ^ 63"
  shows "sint (word_of_int i :: 64 word) = i"
  using assms by (simp add: sint_sbintrunc' signed_take_bit_int_eq_self)

lemma sint64_small: "unat (w :: 64 word) < 2 ^ 63 \<Longrightarrow> sint w = uint w"
proof -
  assume "unat w < 2 ^ 63"
  then have "uint w < 2 ^ 63"
    unfolding unat_eq_nat_uint by (metis nat_less_numeral_power_cancel_iff)
  then have "sint (word_of_int (uint w) :: 64 word) = uint w"
    using uint_ge_0 [of w] by (intro sint64_of_int) linarith+
  then show ?thesis by (simp only: word_of_int_uint)
qed

section \<open>The contract of package sort\<close>

text \<open>
  \<^verbatim>\<open>sort.Slice\<close> and \<^verbatim>\<open>sort.Sort\<close> rearrange a slice so that no element is less than an
  earlier one; they are not stable, so the order of equal elements is not determined. The
  components take the sorting routine as a parameter and rely on these two laws only.
\<close>

locale go_sort =
  fixes srt :: "('a \<Rightarrow> 'a \<Rightarrow> bool) \<Rightarrow> 'a list \<Rightarrow> 'a list"
  assumes srt_mset: "mset (srt lt xs) = mset xs"
    and srt_sorted: "asymp lt \<Longrightarrow> transp lt \<Longrightarrow> transp (\<lambda>a b. \<not> lt b a) \<Longrightarrow>
      sorted_wrt (\<lambda>a b. \<not> lt b a) (srt lt xs)"
begin

lemma srt_set: "set (srt lt xs) = set xs"
  using srt_mset by (metis set_mset_mset)

lemma srt_length: "length (srt lt xs) = length xs"
  using srt_mset by (metis size_mset)

lemma srt_distinct: "distinct (map f (srt lt xs)) = distinct (map f xs)"
  by (rule mset_eq_imp_distinct_iff) (simp add: srt_mset)

lemma srt_sorted_key:
  fixes f :: "'a \<Rightarrow> 'b :: linorder"
  shows "sorted (map f (srt (\<lambda>a b. f a < f b) xs))"
proof -
  have "sorted_wrt (\<lambda>a b. \<not> f b < f a) (srt (\<lambda>a b. f a < f b) xs)"
    by (rule srt_sorted) (auto simp: asymp_on_def transp_on_def)
  then show ?thesis by (simp add: sorted_wrt_map not_less)
qed

end

text \<open>Insertion sort, the routine Go runs on short slices, is one such routine.\<close>

fun insert_by :: "('a \<Rightarrow> 'a \<Rightarrow> bool) \<Rightarrow> 'a \<Rightarrow> 'a list \<Rightarrow> 'a list" where
  "insert_by lt x [] = [x]"
| "insert_by lt x (y # ys) = (if lt y x then y # insert_by lt x ys else x # y # ys)"

definition sort_Slice :: "('a \<Rightarrow> 'a \<Rightarrow> bool) \<Rightarrow> 'a list \<Rightarrow> 'a list" where
  "sort_Slice lt xs = foldr (insert_by lt) xs []"

lemma mset_insert_by: "mset (insert_by lt x xs) = add_mset x (mset xs)"
  by (induction xs) auto

lemma sorted_insert_by:
  assumes "asymp lt" and "transp (\<lambda>a b. \<not> lt b a)" and "sorted_wrt (\<lambda>a b. \<not> lt b a) xs"
  shows "sorted_wrt (\<lambda>a b. \<not> lt b a) (insert_by lt x xs)"
  using assms(3)
proof (induction xs)
  case (Cons y ys)
  have set: "set (insert_by lt x ys) = insert x (set ys)"
    by (metis mset_insert_by set_mset_add_mset_insert set_mset_mset)
  have tail: "sorted_wrt (\<lambda>a b. \<not> lt b a) (insert_by lt x ys)"
    and y: "\<forall>z \<in> set ys. \<not> lt z y"
    using Cons by simp_all
  show ?case
  proof (cases "lt y x")
    case True
    then have "\<not> lt x y" using asympD [OF assms(1)] by blast
    with True tail y set show ?thesis by simp
  next
    case False
    then have "\<forall>z \<in> set ys. \<not> lt z x" using y transpD [OF assms(2)] by blast
    with False Cons.prems show ?thesis by simp
  qed
qed simp

interpretation go_sort_Slice: go_sort sort_Slice
proof
  show "mset (sort_Slice lt xs) = mset xs" for lt :: "'a \<Rightarrow> 'a \<Rightarrow> bool" and xs
    by (induction xs) (auto simp: sort_Slice_def mset_insert_by)
  show "sorted_wrt (\<lambda>a b. \<not> lt b a) (sort_Slice lt xs)"
    if "asymp lt" and "transp lt" and "transp (\<lambda>a b. \<not> lt b a)"
    for lt :: "'a \<Rightarrow> 'a \<Rightarrow> bool" and xs
    using that by (induction xs) (auto simp: sort_Slice_def sorted_insert_by)
qed

end
