(* ===== verification/Go_Strings.thy ===== *)
theory Go_Strings
  imports Go_Prelude
begin

text \<open>
  The parts of Go's packages \<^verbatim>\<open>strings\<close>, \<^verbatim>\<open>strconv\<close>, \<^verbatim>\<open>fmt\<close> and \<^verbatim>\<open>encoding/binary\<close> that
  the sources use: \<^verbatim>\<open>Join\<close> and \<^verbatim>\<open>Split\<close>, decimal formatting and parsing of 64-bit integers,
  and the big- and little-endian coding of \<^verbatim>\<open>uint64\<close>. The round trips proved here carry the
  storage of a revision's replica lists, the HTTP query parameters and the client's reading
  of the server's replies.
\<close>

section \<open>strings.Join and strings.Split\<close>

fun Join :: "string list \<Rightarrow> string \<Rightarrow> string" where
  "Join [] sep = []"
| "Join [x] sep = x"
| "Join (x # y # xs) sep = x @ sep @ Join (y # xs) sep"

text \<open>The text before and after the first occurrence of the separator.\<close>

fun cut_first :: "string \<Rightarrow> string \<Rightarrow> (string \<times> string) option" where
  "cut_first sep s =
     (if take (length sep) s = sep then Some ([], drop (length sep) s)
      else (case s of [] \<Rightarrow> None
            | c # cs \<Rightarrow> map_option (\<lambda>(a, b). (c # a, b)) (cut_first sep cs)))"

declare cut_first.simps [simp del]

lemma cut_first_Some: "cut_first sep s = Some (a, b) \<Longrightarrow> s = a @ sep @ b"
proof (induction sep s arbitrary: a rule: cut_first.induct)
  case (1 sep s)
  show ?case
  proof (cases "take (length sep) s = sep")
    case True
    with "1.prems" show ?thesis
      by (simp add: cut_first.simps [of sep s]) (metis append_take_drop_id)
  next
    case False
    with "1.prems" "1.IH" show ?thesis
      by (fastforce simp: cut_first.simps [of sep s] split: list.splits)
  qed
qed

text \<open>For an empty separator \<^verbatim>\<open>strings.Split\<close> explodes the string; the sources never pass one.\<close>

function Split :: "string \<Rightarrow> string \<Rightarrow> string list" where
  "Split s sep =
     (if sep = [] then map (\<lambda>c. [c]) s
      else case cut_first sep s of None \<Rightarrow> [s] | Some (a, b) \<Rightarrow> a # Split b sep)"
  by pat_completeness auto
termination
  by (relation "measure (\<lambda>(s, sep). length s)") (auto dest!: cut_first_Some)

declare Split.simps [simp del]

lemma Split_nonempty: "sep \<noteq> [] \<Longrightarrow> Split s sep \<noteq> []"
  by (subst Split.simps) (simp split: option.splits)

lemma cut_first_char_None: "c \<notin> set s \<Longrightarrow> cut_first [c] s = None"
  by (induction s) (auto simp: cut_first.simps [of "[c]"])

lemma cut_first_char: "c \<notin> set a \<Longrightarrow> cut_first [c] (a @ c # b) = Some (a, b)"
  by (induction a) (auto simp: cut_first.simps [of "[c]"])

lemma Split_char_None: "c \<notin> set s \<Longrightarrow> Split s [c] = [s]"
  by (simp add: Split.simps [of s] cut_first_char_None)

lemma Split_char_Cons: "c \<notin> set a \<Longrightarrow> Split (a @ c # b) [c] = a # Split b [c]"
  by (simp add: Split.simps [of "a @ c # b"] cut_first_char)

lemma Split_Join:
  assumes "xs \<noteq> []" and "\<forall>x \<in> set xs. c \<notin> set x"
  shows "Split (Join xs [c]) [c] = xs"
  using assms
proof (induction xs "[c]" rule: Join.induct)
  case (3 x y xs)
  then show ?case by (simp add: Split_char_Cons)
qed (simp_all add: Split_char_None)

lemma Split_empty [simp]: "sep \<noteq> [] \<Longrightarrow> Split [] sep = [[]]"
  by (simp add: Split.simps [of "[]"] cut_first.simps [of sep "[]"])

lemma Join_Split: "Join (Split s [c]) [c] = s"
proof (induction s "[c]" rule: Split.induct)
  case (1 s)
  show ?case
  proof (cases "cut_first [c] s")
    case None
    then show ?thesis by (simp add: Split.simps [of s])
  next
    case (Some ab)
    obtain a b where ab: "ab = (a, b)" by force
    obtain y ys where ys: "Split b [c] = y # ys"
      using Split_nonempty [of "[c]" b] by (cases "Split b [c]") auto
    have "Join (Split b [c]) [c] = b" using "1" Some ab by simp
    with Some ab ys cut_first_Some [of "[c]" s a b] show ?thesis
      by (simp add: Split.simps [of "a @ c # b"])
  qed
qed

section \<open>Decimal formatting and parsing\<close>

definition digit_char :: "nat \<Rightarrow> char" where
  "digit_char d = char_of (48 + d)"

fun FormatNat :: "nat \<Rightarrow> string" where
  "FormatNat n = (if n < 10 then [digit_char n] else FormatNat (n div 10) @ [digit_char (n mod 10)])"

declare FormatNat.simps [simp del]

text \<open>\<^verbatim>\<open>strconv.FormatInt(i, 10)\<close>, and \<^verbatim>\<open>%d\<close> of \<^verbatim>\<open>fmt\<close>.\<close>

definition FormatInt :: "int \<Rightarrow> string" where
  "FormatInt i = (if i < 0 then CHR ''-'' # FormatNat (nat (- i)) else FormatNat (nat i))"

definition FormatUint :: "uint64 \<Rightarrow> string" where
  "FormatUint w = FormatNat (unat w)"

datatype parse_error = ErrSyntax | ErrRange

primrec parse_error_msg :: "parse_error \<Rightarrow> string" where
  "parse_error_msg ErrSyntax = ''invalid syntax''"
| "parse_error_msg ErrRange = ''value out of range''"

text \<open>The digit loop of \<^verbatim>\<open>strconv.ParseUint\<close> in base 10: it stops at the first character that
  is no digit, or as soon as the value leaves 64 bits.\<close>

fun ParseUint_loop :: "nat \<Rightarrow> string \<Rightarrow> parse_error + nat" where
  "ParseUint_loop n [] = Inr n"
| "ParseUint_loop n (c # cs) =
     (let d = (of_char c :: nat) in
      if d < 48 \<or> 57 < d then Inl ErrSyntax
      else if 2 ^ 64 \<le> 10 * n + (d - 48) then Inl ErrRange
      else ParseUint_loop (10 * n + (d - 48)) cs)"

definition ParseUint :: "string \<Rightarrow> parse_error + nat" where
  "ParseUint s = (if s = [] then Inl ErrSyntax else ParseUint_loop 0 s)"

text \<open>\<^verbatim>\<open>strconv.ParseInt(s, 10, 64)\<close> (\<open>fn\<close> is the function named in the error) and
  \<^verbatim>\<open>strconv.Atoi\<close>, whose result is a 64-bit \<^verbatim>\<open>int\<close>.\<close>

definition ParseInt_as :: "string \<Rightarrow> string \<Rightarrow> int64 result" where
  "ParseInt_as fn s0 =
     (let neg = (case s0 of [] \<Rightarrow> False | c # _ \<Rightarrow> c = CHR ''-'');
          s = (case s0 of [] \<Rightarrow> [] | c # cs \<Rightarrow> if c = CHR ''+'' \<or> c = CHR ''-'' then cs else s0)
      in case ParseUint s of
           Inl e \<Rightarrow> Err (NumError fn s0 (parse_error_msg e))
         | Inr un \<Rightarrow>
             if \<not> neg \<and> 2 ^ 63 \<le> un \<or> neg \<and> 2 ^ 63 < un
             then Err (NumError fn s0 (parse_error_msg ErrRange))
             else Ok (word_of_int (if neg then - int un else int un)))"

definition ParseInt :: "string \<Rightarrow> int64 result" where
  "ParseInt = ParseInt_as ''ParseInt''"

definition Atoi :: "string \<Rightarrow> int64 result" where
  "Atoi = ParseInt_as ''Atoi''"

lemma of_char_digit: "d < 10 \<Longrightarrow> (of_char (digit_char d) :: nat) = 48 + d"
  by (simp add: digit_char_def)

lemma FormatNat_0 [simp]: "FormatNat 0 = ''0''"
  by code_simp

lemma digit_chars:
  "digit_char 0 = CHR ''0''" "digit_char 1 = CHR ''1''" "digit_char 2 = CHR ''2''" "digit_char 3 = CHR ''3''"
  "digit_char 4 = CHR ''4''" "digit_char 5 = CHR ''5''" "digit_char 6 = CHR ''6''" "digit_char 7 = CHR ''7''"
  "digit_char 8 = CHR ''8''" "digit_char 9 = CHR ''9''" "digit_char (Suc 0) = CHR ''1''"
  by code_simp+

text \<open>The simplifier evaluates the decimal format of a numeral with these.\<close>

lemmas decimal = FormatInt_def FormatUint_def FormatNat.simps digit_chars

lemma FormatNat_nonempty: "FormatNat n \<noteq> []"
  by (subst FormatNat.simps) simp

lemma FormatNat_digits: "c \<in> set (FormatNat n) \<Longrightarrow> 48 \<le> (of_char c :: nat) \<and> (of_char c :: nat) \<le> 57"
proof (induction n rule: FormatNat.induct)
  case (1 n)
  show ?case
  proof (cases "n < 10")
    case True
    with "1.prems" show ?thesis by (simp add: FormatNat.simps [of n] of_char_digit)
  next
    case False
    with "1.prems" have "c \<in> set (FormatNat (n div 10)) \<or> c = digit_char (n mod 10)"
      by (auto simp: FormatNat.simps [of n])
    then show ?thesis using "1.IH" False of_char_digit [of "n mod 10"] by auto
  qed
qed

lemma ParseUint_loop_append:
  assumes "ParseUint_loop m s = Inr n"
  shows "ParseUint_loop m (s @ t) = ParseUint_loop n t"
  using assms by (induction m s rule: ParseUint_loop.induct) (auto simp: Let_def split: if_splits)

lemma ParseUint_loop_FormatNat: "n < 2 ^ 64 \<Longrightarrow> ParseUint_loop 0 (FormatNat n) = Inr n"
proof (induction n rule: FormatNat.induct)
  case (1 n)
  show ?case
  proof (cases "n < 10")
    case True
    then show ?thesis by (simp add: FormatNat.simps [of n] of_char_digit)
  next
    case False
    have "n div 10 < 2 ^ 64" using "1.prems" by simp
    with "1.IH" False have IH: "ParseUint_loop 0 (FormatNat (n div 10)) = Inr (n div 10)" by simp
    have "\<not> 9 < n mod 10" by (simp add: not_less less_Suc_eq_le [symmetric])
    then show ?thesis
      using False "1.prems" ParseUint_loop_append [OF IH, of "[digit_char (n mod 10)]"]
      by (simp add: FormatNat.simps [of n] of_char_digit Let_def)
  qed
qed

lemma FormatNat_hd:
  obtains c cs where "FormatNat n = c # cs" and "c \<noteq> CHR ''-''" and "c \<noteq> CHR ''+''"
proof (cases "FormatNat n")
  case Nil
  then show thesis using FormatNat_nonempty by simp
next
  case (Cons c cs)
  then have "48 \<le> (of_char c :: nat)" using FormatNat_digits [of c n] by simp
  then have "c \<noteq> CHR ''-''" and "c \<noteq> CHR ''+''" by auto
  with Cons that show thesis by blast
qed

lemma FormatNat_inj: "FormatNat m = FormatNat n \<Longrightarrow> m < 2 ^ 64 \<Longrightarrow> n < 2 ^ 64 \<Longrightarrow> m = n"
  using ParseUint_loop_FormatNat by (metis sum.inject(2))

lemma ParseInt_as_FormatInt: "ParseInt_as fn (FormatInt (sint w)) = Ok w"
proof (cases "sint w < 0")
  case True
  have "- sint w \<le> 2 ^ 63" using sint64_bounds(1) [of w] by simp
  then have le: "nat (- sint w) \<le> 2 ^ 63" by (simp add: nat_le_iff)
  then have "ParseUint (FormatNat (nat (- sint w))) = Inr (nat (- sint w))"
    by (simp add: ParseUint_def FormatNat_nonempty ParseUint_loop_FormatNat)
  with True le show ?thesis
    by (simp add: ParseInt_as_def FormatInt_def)
next
  case False
  have "nat (sint w) < 2 ^ 63" using sint64_bounds(2) [of w] False by (simp add: nat_less_iff)
  then have lt: "nat (sint w) < 2 ^ 63" and
    p: "ParseUint (FormatNat (nat (sint w))) = Inr (nat (sint w))"
    by (simp_all add: ParseUint_def FormatNat_nonempty ParseUint_loop_FormatNat)
  obtain c cs where "FormatNat (nat (sint w)) = c # cs" "c \<noteq> CHR ''-''" "c \<noteq> CHR ''+''"
    by (rule FormatNat_hd)
  with False lt p show ?thesis by (simp add: ParseInt_as_def FormatInt_def)
qed

section \<open>encoding/binary\<close>

text \<open>The \<open>k\<close> low-order bytes of a value, least significant first, and their value.\<close>

fun le_bytes :: "nat \<Rightarrow> nat \<Rightarrow> bytes" where
  "le_bytes 0 n = []"
| "le_bytes (Suc k) n = char_of n # le_bytes k (n div 256)"

fun le_value :: "bytes \<Rightarrow> nat" where
  "le_value [] = 0"
| "le_value (c # cs) = of_char c + 256 * le_value cs"

definition LittleEndian_bytes :: "uint64 \<Rightarrow> bytes" where
  "LittleEndian_bytes w = le_bytes 8 (unat w)"

definition BigEndian_bytes :: "uint64 \<Rightarrow> bytes" where
  "BigEndian_bytes w = rev (le_bytes 8 (unat w))"

text \<open>\<^verbatim>\<open>PutUint64\<close> overwrites the first eight bytes of a slice and panics on a shorter one;
  \<^verbatim>\<open>Uint64\<close> reads the first eight.\<close>

definition LittleEndian_PutUint64 :: "bytes \<Rightarrow> uint64 \<Rightarrow> bytes result" where
  "LittleEndian_PutUint64 b w =
     (if length b < 8 then Panic IndexOutOfRange else Ok (LittleEndian_bytes w @ drop 8 b))"

definition BigEndian_PutUint64 :: "bytes \<Rightarrow> uint64 \<Rightarrow> bytes result" where
  "BigEndian_PutUint64 b w =
     (if length b < 8 then Panic IndexOutOfRange else Ok (BigEndian_bytes w @ drop 8 b))"

definition BigEndian_Uint64 :: "bytes \<Rightarrow> uint64 result" where
  "BigEndian_Uint64 b =
     (if length b < 8 then Panic IndexOutOfRange else Ok (of_nat (le_value (rev (take 8 b)))))"

lemma length_le_bytes [simp]: "length (le_bytes k n) = k"
  by (induction k n rule: le_bytes.induct) auto

lemma length_BigEndian_bytes [simp]: "length (BigEndian_bytes w) = 8"
  by (simp add: BigEndian_bytes_def)

lemma length_LittleEndian_bytes [simp]: "length (LittleEndian_bytes w) = 8"
  by (simp add: LittleEndian_bytes_def)

lemma le_value_le_bytes: "le_value (le_bytes k n) = n mod 256 ^ k"
  by (induction k n rule: le_bytes.induct) (auto simp: mod_mult2_eq)

lemma unat64_lt: "unat (w :: 64 word) < 256 ^ 8"
  using unsigned_less [of w] by simp

lemma BigEndian_roundtrip [simp]: "BigEndian_Uint64 (BigEndian_bytes w @ b) = Ok w"
  using unat64_lt [of w] by (simp add: BigEndian_Uint64_def BigEndian_bytes_def le_value_le_bytes)

lemma BigEndian_roundtrip_exact [simp]: "BigEndian_Uint64 (BigEndian_bytes w) = Ok w"
  using BigEndian_roundtrip [of w "[]"] by simp

lemma LittleEndian_bytes_inject [simp]: "LittleEndian_bytes v = LittleEndian_bytes w \<longleftrightarrow> v = w"
proof
  assume "LittleEndian_bytes v = LittleEndian_bytes w"
  then have "le_value (le_bytes 8 (unat v)) = le_value (le_bytes 8 (unat w))"
    by (simp add: LittleEndian_bytes_def)
  then show "v = w" using unat64_lt [of v] unat64_lt [of w] 
    by (simp add: le_value_le_bytes word_unat_eq_iff)
qed simp

text \<open>Big-endian coding carries the numeric order over to the byte order.\<close>

lemma snoc_less_snoc:
  fixes a b :: "'a :: linorder list"
  assumes "length a = length b"
  shows "a @ [x] < b @ [y] \<longleftrightarrow> a < b \<or> a = b \<and> x < y"
  using assms by (induction a b rule: list_induct2) auto

lemma less_div_mod_iff:
  fixes m n b :: nat
  assumes "0 < b"
  shows "m < n \<longleftrightarrow> m div b < n div b \<or> m div b = n div b \<and> m mod b < n mod b"
proof (cases "m div b = n div b")
  case True
  then have "m = n div b * b + m mod b" and "n = n div b * b + n mod b"
    using div_mult_mod_eq [of m b] div_mult_mod_eq [of n b] by simp_all
  then have "m < n \<longleftrightarrow> m mod b < n mod b" by linarith
  with True show ?thesis by simp
next
  case False
  then show ?thesis
    using div_le_mono [of m n b] div_le_mono [of n m b] by (cases "m < n") auto
qed

lemma rev_le_bytes_less:
  assumes "m < 256 ^ k" and "n < 256 ^ k"
  shows "rev (le_bytes k m) < rev (le_bytes k n) \<longleftrightarrow> m < n"
  using assms
proof (induction k arbitrary: m n)
  case 0
  then show ?case by simp
next
  case (Suc k)
  have dm: "m div 256 < 256 ^ k" and dn: "n div 256 < 256 ^ k"
    using Suc.prems by (simp_all add: less_mult_imp_div_less mult.commute)
  have eq: "rev (le_bytes k (m div 256)) = rev (le_bytes k (n div 256)) \<longleftrightarrow> m div 256 = n div 256"
    using le_value_le_bytes [of k "m div 256"] le_value_le_bytes [of k "n div 256"] dm dn
    by (metis mod_less rev_rev_ident)
  have "m < n \<longleftrightarrow> m div 256 < n div 256 \<or> m div 256 = n div 256 \<and> m mod 256 < n mod 256"
    by (rule less_div_mod_iff) simp
  with Suc.IH [OF dm dn] eq show ?case
    by (simp add: snoc_less_snoc less_char_def)
qed

lemma BigEndian_bytes_less: "BigEndian_bytes v < BigEndian_bytes w \<longleftrightarrow> v < w"
  using rev_le_bytes_less [OF unat64_lt [of v] unat64_lt [of w]]
  by (simp add: BigEndian_bytes_def word_less_nat_alt)

end
