(* ===== verification/Revision.thy ===== *)
theory Revision
  imports Go_Strings
begin

text \<open>
  Revisions (\<^verbatim>\<open>pkg/index/revision.go\<close>) and the global revision counter
  (\<^verbatim>\<open>pkg/revision/revision.go\<close>): the order of revisions, their 17-byte coding, and the
  counter both as the sequential function the other components call and as a system of
  concurrent callers whose add and load are separate steps.
\<close>

section \<open>pkg/index/revision.go\<close>

record Revision =
  main :: int64
  sub :: int64
  nodes :: "string list"

definition NewRevision :: "int64 \<Rightarrow> int64 \<Rightarrow> string list \<Rightarrow> Revision" where
  "NewRevision m s ns = \<lparr>main = m, sub = s, nodes = ns\<rparr>"

definition Revision_String :: "Revision \<Rightarrow> string" where
  "Revision_String a = FormatInt (sint (main a))"

definition GetMain :: "Revision \<Rightarrow> int64" where
  "GetMain a = main a"

definition GetSub :: "Revision \<Rightarrow> int64" where
  "GetSub a = sub a"

definition GetNodes :: "Revision \<Rightarrow> string list" where
  "GetNodes a = nodes a"

text \<open>Other packages see a revision through these methods; the model reads the fields.\<close>

declare GetMain_def [simp] GetSub_def [simp] GetNodes_def [simp]

definition SetNodes :: "Revision \<Rightarrow> string list \<Rightarrow> Revision" where
  "SetNodes a ns = a\<lparr>nodes := ns\<rparr>"

definition GreaterThan :: "Revision \<Rightarrow> Revision \<Rightarrow> bool" where
  "GreaterThan a b =
     (if sint (main b) < sint (main a) then True
      else if sint (main a) < sint (main b) then False
      else sint (sub b) < sint (sub a))"

definition Revisions_Less :: "Revision list \<Rightarrow> nat \<Rightarrow> nat \<Rightarrow> bool" where
  "Revisions_Less a i j = GreaterThan (a ! j) (a ! i)"

text \<open>\<^verbatim>\<open>revToBytes\<close> fills the caller's slice; every write is bounds-checked.\<close>

definition revToBytes :: "Revision \<Rightarrow> bytes \<Rightarrow> bytes result" where
  "revToBytes r b =
     result_bind (BigEndian_PutUint64 b (main r)) (\<lambda>b1.
       if length b1 \<le> 8 then Panic IndexOutOfRange
       else let b2 = b1[8 := CHR ''_''] in
         result_bind (BigEndian_PutUint64 (drop 9 b2) (sub r)) (\<lambda>t. Ok (take 9 b2 @ t)))"

definition bytesToRev :: "bytes \<Rightarrow> Revision result" where
  "bytesToRev b =
     (if length b < 8 then Panic IndexOutOfRange
      else result_bind (BigEndian_Uint64 (take 8 b)) (\<lambda>m.
        if length b < 9 then Panic IndexOutOfRange
        else result_bind (BigEndian_Uint64 (drop 9 b)) (\<lambda>s.
          Ok \<lparr>main = m, sub = s, nodes = []\<rparr>)))"

text \<open>The order of revisions is the lexicographic order of this key.\<close>

definition rev_key :: "Revision \<Rightarrow> int \<times> int" where
  "rev_key r = (sint (main r), sint (sub r))"

section \<open>pkg/revision/revision.go\<close>

text \<open>One call when no other call runs: the counter is incremented and read. The result is
  the returned value and the new counter.\<close>

definition GetGlobalIncreasingRevision :: "uint64 \<Rightarrow> uint64 \<times> uint64" where
  "GetGlobalIncreasingRevision c = (c + 1, c + 1)"

text \<open>Concurrent callers: \<^verbatim>\<open>atomic.AddUint64\<close> and the plain load of the variable after it are
  two steps, and steps of different callers interleave.\<close>

datatype caller_pc = AtAdd | AtLoad | Returned uint64

record rev_sys =
  global_increasing_revision :: uint64
  pcs :: "nat \<Rightarrow> caller_pc"

definition init_rev_sys :: rev_sys where
  "init_rev_sys = \<lparr>global_increasing_revision = 0, pcs = (\<lambda>_. AtAdd)\<rparr>"

inductive rev_step :: "nat \<Rightarrow> rev_sys \<Rightarrow> rev_sys \<Rightarrow> bool" for N where
  add: "i < N \<Longrightarrow> pcs s i = AtAdd \<Longrightarrow>
    rev_step N s (s\<lparr>global_increasing_revision := global_increasing_revision s + 1,
                   pcs := (pcs s)(i := AtLoad)\<rparr>)"
| load: "i < N \<Longrightarrow> pcs s i = AtLoad \<Longrightarrow>
    rev_step N s (s\<lparr>pcs := (pcs s)(i := Returned (global_increasing_revision s))\<rparr>)"

inductive rev_reachable :: "nat \<Rightarrow> rev_sys \<Rightarrow> bool" for N where
  start: "rev_reachable N init_rev_sys"
| step: "rev_reachable N s \<Longrightarrow> rev_step N s t \<Longrightarrow> rev_reachable N t"

section \<open>The order of revisions\<close>

lemma GreaterThan_iff: "GreaterThan a b \<longleftrightarrow> rev_key b < rev_key a"
  by (auto simp: GreaterThan_def rev_key_def less_prod_def)

lemma rev_key_eq_iff: "rev_key a = rev_key b \<longleftrightarrow> main a = main b \<and> sub a = sub b"
  by (simp add: rev_key_def)

lemma rev_key_upd [simp]: "rev_key (r\<lparr>nodes := ns\<rparr>) = rev_key r"
  by (simp add: rev_key_def)

section \<open>The byte coding\<close>

lemma revToBytes_Ok:
  assumes "17 \<le> length b"
  shows "revToBytes r b = Ok (BigEndian_bytes (main r) @ CHR ''_'' # BigEndian_bytes (sub r) @ drop 17 b)"
proof -
  obtain x t where xt: "drop 8 b = x # t" using assms by (cases "drop 8 b") auto
  then have "drop 17 b = drop 8 t" using drop_drop [of 9 8 b] by simp
  moreover have "length b - 8 = Suc (length t)" by (metis length_drop xt length_Cons)
  ultimately show ?thesis using xt assms
    by (simp add: revToBytes_def BigEndian_PutUint64_def list_update_append)
qed

text \<open>A revision written with \<^verbatim>\<open>revToBytes\<close> into a slice of at least 17 bytes is read back by
  \<^verbatim>\<open>bytesToRev\<close>, up to its replica list, which is not stored.\<close>

lemma bytesToRev_revToBytes:
  assumes "17 \<le> length b"
  shows "result_bind (revToBytes r b) bytesToRev = Ok (SetNodes r [])"
  using assms by (simp add: revToBytes_Ok bytesToRev_def SetNodes_def)

text \<open>For revisions whose parts are not negative the byte order of the codes is the order of
  the revisions.\<close>

lemma word_less_iff_sint:
  assumes "0 \<le> sint (v :: 64 word)" and "0 \<le> sint (w :: 64 word)"
  shows "v < w \<longleftrightarrow> sint v < sint w"
proof -
  have "uint x = sint x" if "0 \<le> sint x" for x :: "64 word"
    using that sint64_bounds(2) [of x] by (simp add: uint_sint take_bit_int_eq_self)
  with assms show ?thesis by (simp add: word_less_def)
qed

lemma equal_length_append_less:
  fixes a b :: "'a :: linorder list"
  assumes "length a = length b"
  shows "a @ c < b @ d \<longleftrightarrow> a < b \<or> a = b \<and> c < d"
  using assms by (induction a b rule: list_induct2) auto

lemma BigEndian_bytes_eq_iff [simp]: "BigEndian_bytes v = BigEndian_bytes w \<longleftrightarrow> v = w"
  using BigEndian_roundtrip_exact by (metis result.inject(1))

definition nonneg_rev :: "Revision \<Rightarrow> bool" where
  "nonneg_rev r \<longleftrightarrow> 0 \<le> sint (main r) \<and> 0 \<le> sint (sub r)"

lemma rev_code_less:
  assumes "nonneg_rev r" and "nonneg_rev q"
  shows "BigEndian_bytes (main r) @ CHR ''_'' # BigEndian_bytes (sub r)
           < BigEndian_bytes (main q) @ CHR ''_'' # BigEndian_bytes (sub q) \<longleftrightarrow> GreaterThan q r"
  using assms word_less_iff_sint [of "main r" "main q"] word_less_iff_sint [of "sub r" "sub q"]
  by (auto simp: equal_length_append_less BigEndian_bytes_less nonneg_rev_def GreaterThan_def)

section \<open>Concurrent callers of the counter\<close>

lemma rev_step_pcs_mono:
  "rev_step N s t \<Longrightarrow> pcs t i = AtAdd \<Longrightarrow> pcs s i = AtAdd"
  by (auto elim!: rev_step.cases split: if_splits)

definition started :: "nat \<Rightarrow> rev_sys \<Rightarrow> nat set" where
  "started N s = {i. i < N \<and> pcs s i \<noteq> AtAdd}"

definition rev_inv :: "nat \<Rightarrow> rev_sys \<Rightarrow> bool" where
  "rev_inv N s \<longleftrightarrow>
     unat (global_increasing_revision s) = card (started N s) \<and>
     (\<forall>i v. pcs s i = Returned v \<longrightarrow> 0 < v \<and> v \<le> global_increasing_revision s) \<and>
     (\<forall>i. pcs s i \<noteq> AtAdd \<longrightarrow> 0 < global_increasing_revision s)"

lemma finite_started [simp]: "finite (started N s)"
  by (simp add: started_def)

lemma card_started_le: "card (started N s) \<le> N"
  using card_mono [of "{..<N}" "started N s"] by (auto simp: started_def)

lemma started_add:
  assumes "i < N" and "pcs s i = AtAdd"
  shows "card (started N (s\<lparr>global_increasing_revision := g, pcs := (pcs s)(i := AtLoad)\<rparr>))
           = Suc (card (started N s))" and "card (started N s) < N"
proof -
  have "started N (s\<lparr>global_increasing_revision := g, pcs := (pcs s)(i := AtLoad)\<rparr>)
          = insert i (started N s)" and "i \<notin> started N s"
    using assms by (auto simp: started_def)
  then show "card (started N (s\<lparr>global_increasing_revision := g, pcs := (pcs s)(i := AtLoad)\<rparr>))
           = Suc (card (started N s))" by simp
  have "started N s \<subset> {..<N}" using assms by (auto simp: started_def)
  then show "card (started N s) < N" using psubset_card_mono [of "{..<N}" "started N s"] by simp
qed

lemma started_load:
  "pcs s i = AtLoad \<Longrightarrow> started N (s\<lparr>pcs := (pcs s)(i := Returned v)\<rparr>) = started N s"
  by (auto simp: started_def)

lemma unat_Suc_no_wrap:
  fixes w :: "64 word"
  assumes "unat w < n" and "n < 2 ^ 64"
  shows "unat (w + 1) = Suc (unat w)" and "w < w + 1"
proof -
  show "unat (w + 1) = Suc (unat w)" using assms by (simp add: unat_word_ariths)
  then show "w < w + 1" by (simp add: word_less_nat_alt)
qed

lemma rev_step_inv [keeps_inv]:
  assumes "rev_step N s t" and "rev_inv N s" and "N < 2 ^ 64"
  shows "rev_inv N t \<and> global_increasing_revision s \<le> global_increasing_revision t"
  using assms(1)
proof (cases rule: rev_step.cases)
  case (add i)
  have "unat (global_increasing_revision s) < N"
    using started_add(2) [OF add(2,3)] assms(2) by (simp add: rev_inv_def)
  note nowrap = unat_Suc_no_wrap [OF this assms(3)]
  have "0 < global_increasing_revision s + 1"
    using nowrap(1) by (simp add: word_less_nat_alt)
  then show ?thesis
    using assms(2) add nowrap started_add(1) [OF add(2,3)]
    by (auto simp: rev_inv_def intro: order.trans [OF _ less_imp_le [OF nowrap(2)]])
next
  case (load i)
  then show ?thesis using assms(2) by (auto simp: rev_inv_def started_load)
qed

lemma rev_reachable_inv: "rev_reachable N s \<Longrightarrow> N < 2 ^ 64 \<Longrightarrow> rev_inv N s"
proof (induction rule: rev_reachable.induct)
  case start
  show ?case by (simp add: rev_inv_def init_rev_sys_def started_def)
next
  case (step s t)
  then show ?case using rev_step_inv by blast
qed

text \<open>What caller \<open>j\<close> can still return, once \<open>v\<close> has been returned and before \<open>j\<close> has
  started: something above \<open>v\<close>.\<close>

definition above :: "nat \<Rightarrow> uint64 \<Rightarrow> rev_sys \<Rightarrow> bool" where
  "above j v s \<longleftrightarrow> v \<le> global_increasing_revision s \<and>
     (case pcs s j of AtAdd \<Rightarrow> True | AtLoad \<Rightarrow> v < global_increasing_revision s
      | Returned w \<Rightarrow> v < w)"

lemma rev_step_above:
  assumes "rev_step N s t" and "rev_inv N s" and "N < 2 ^ 64" and "above j v s"
  shows "above j v t"
  using assms(1)
proof (cases rule: rev_step.cases)
  case (add i)
  have "unat (global_increasing_revision s) < N"
    using started_add(2) [OF add(2,3)] assms(2) by (simp add: rev_inv_def)
  note lt = unat_Suc_no_wrap(2) [OF this assms(3)]
  have "v < global_increasing_revision s + 1"
    using assms(4) lt by (auto simp: above_def)
  then show ?thesis using assms(4) add by (auto simp: above_def split: caller_pc.splits)
next
  case (load i)
  then show ?thesis using assms(4) by (auto simp: above_def split: caller_pc.splits)
qed

section \<open>Properties\<close>

text \<open>C29: A revision written by \<^verbatim>\<open>revToBytes\<close> into a slice of at least 17 bytes is read back by
  \<^verbatim>\<open>bytesToRev\<close> with the same main and sub parts, for every pair of 64-bit values; on a shorter
  slice \<^verbatim>\<open>revToBytes\<close> panics. The replica list is not stored.\<close>

theorem rev_bytes_roundtrip:
  "(17 \<le> length b \<longrightarrow> result_bind (revToBytes r b) bytesToRev = Ok (SetNodes r [])) \<and>
   (length b < 17 \<longrightarrow> revToBytes r b = Panic IndexOutOfRange)"
proof -
  have "revToBytes r b = Panic IndexOutOfRange" if "length b < 17"
    using that by (auto simp: revToBytes_def BigEndian_PutUint64_def Let_def)
  then show ?thesis by (simp add: bytesToRev_revToBytes)
qed

theorem rev_bytes_roundtrip_witness:
  "result_bind (revToBytes (NewRevision 7 (- 1) [''n'']) (replicate 17 CHR ''x'')) bytesToRev
     = Ok (NewRevision 7 (- 1) [])"
  using rev_bytes_roundtrip [of "replicate 17 CHR ''x''" "NewRevision 7 (- 1) [''n'']"]
  by (simp add: SetNodes_def NewRevision_def)

text \<open>The byte order of the 17-byte codes of two revisions with non-negative parts is the
  order \<^verbatim>\<open>GreaterThan\<close> gives the revisions, so a byte-ordered store keeps them in revision
  order.\<close>

theorem rev_bytes_order:
  assumes "nonneg_rev r" and "nonneg_rev q"
    and "revToBytes r (replicate 17 c) = Ok br" and "revToBytes q (replicate 17 c) = Ok bq"
  shows "br < bq \<longleftrightarrow> GreaterThan q r"
  using assms rev_code_less [OF assms(1,2)] by (auto simp: revToBytes_Ok)

theorem rev_bytes_order_witness:
  "\<exists>br bq. revToBytes (NewRevision 255 9 []) (replicate 17 CHR ''x'') = Ok br \<and>
           revToBytes (NewRevision 256 3 []) (replicate 17 CHR ''x'') = Ok bq \<and> br < bq"
proof -
  obtain br bq where
    b: "revToBytes (NewRevision 255 9 []) (replicate 17 CHR ''x'') = Ok br"
       "revToBytes (NewRevision 256 3 []) (replicate 17 CHR ''x'') = Ok bq"
    by (simp add: revToBytes_Ok)
  have "nonneg_rev (NewRevision 255 9 [])" and "nonneg_rev (NewRevision 256 3 [])"
    by (simp_all add: nonneg_rev_def NewRevision_def)
  from rev_bytes_order [OF this b] have "br < bq" by (simp add: GreaterThan_def NewRevision_def)
  with b show ?thesis by blast
qed

text \<open>C28: Fewer than \<open>2 ^ 64\<close> concurrent callers of \<^verbatim>\<open>GetGlobalIncreasingRevision\<close>: whatever the
  interleaving, a caller that starts after another has returned gets a larger revision, and
  no caller gets revision 0.\<close>

theorem rev_counter_realtime_order:
  assumes "N < 2 ^ 64" and "rev_reachable N s" and "pcs s i = Returned v" and "pcs s j = AtAdd"
    and "(rev_step N)\<^sup>*\<^sup>* s t" and "pcs t j = Returned w"
  shows "0 < v \<and> v < w"
proof -
  have inv: "rev_inv N s" using assms(1,2) by (rule rev_reachable_inv [rotated])
  then have v: "0 < v" "above j v s" using assms(3,4) by (auto simp: rev_inv_def above_def)
  from assms(5) have "rev_inv N t \<and> above j v t"
  proof (induction rule: rtranclp_induct)
    case base
    show ?case using inv v(2) by simp
  next
    case (step y z)
    then show ?case using rev_step_inv rev_step_above assms(1) by blast
  qed
  with assms(6) v(1) show ?thesis by (simp add: above_def)
qed

theorem rev_counter_realtime_order_witness:
  "\<exists>s t. rev_reachable 2 s \<and> pcs s 0 = Returned 1 \<and> pcs s 1 = AtAdd \<and>
         (rev_step 2)\<^sup>*\<^sup>* s t \<and> pcs t 1 = Returned 2 \<and> (0 :: uint64) < 1 \<and> (1 :: uint64) < 2"
proof -
  let ?s1 = "\<lparr>global_increasing_revision = 1, pcs = (\<lambda>_. AtAdd)(0 := AtLoad)\<rparr>"
  let ?s2 = "\<lparr>global_increasing_revision = 1, pcs = (\<lambda>_. AtAdd)(0 := Returned 1)\<rparr>"
  let ?s3 = "\<lparr>global_increasing_revision = 2, pcs = (\<lambda>_. AtAdd)(0 := Returned 1, 1 := AtLoad)\<rparr>"
  let ?s4 = "\<lparr>global_increasing_revision = 2, pcs = (\<lambda>_. AtAdd)(0 := Returned 1, 1 := Returned 2)\<rparr>"
  have a: "rev_step 2 init_rev_sys ?s1"
    using rev_step.add [of 0 2 init_rev_sys] by (simp add: init_rev_sys_def)
  have b: "rev_step 2 ?s1 ?s2" using rev_step.load [of 0 2 ?s1] by simp
  have c: "rev_step 2 ?s2 ?s3" using rev_step.add [of 1 2 ?s2] by simp
  have d: "rev_step 2 ?s3 ?s4" using rev_step.load [of 1 2 ?s3] by (simp add: fun_upd_twist)
  have r: "rev_reachable 2 ?s2" by (rule rev_reachable.step [OF rev_reachable.step [OF rev_reachable.start a] b])
  have m: "(rev_step 2)\<^sup>*\<^sup>* ?s2 ?s4" using c d by (rule converse_rtranclp_into_rtranclp [OF _ r_into_rtranclp])
  show ?thesis
    using r m rev_counter_realtime_order [of 2 ?s2 0 1 1 ?s4 2] by (intro exI [of _ ?s2] exI [of _ ?s4]) simp
qed

text \<open>The increment and the read of the counter are not one atomic step: two callers can both
  return revision 2, although each call incremented the counter once.\<close>

theorem rev_counter_duplicate:
  "\<exists>s. rev_reachable 2 s \<and> pcs s 0 = Returned 2 \<and> pcs s 1 = Returned 2"
proof -
  let ?s1 = "\<lparr>global_increasing_revision = 1, pcs = (\<lambda>_. AtAdd)(0 := AtLoad)\<rparr>"
  let ?s2 = "\<lparr>global_increasing_revision = 2, pcs = (\<lambda>_. AtAdd)(0 := AtLoad, 1 := AtLoad)\<rparr>"
  let ?s3 = "\<lparr>global_increasing_revision = 2, pcs = (\<lambda>_. AtAdd)(0 := Returned 2, 1 := AtLoad)\<rparr>"
  let ?s4 = "\<lparr>global_increasing_revision = 2, pcs = (\<lambda>_. AtAdd)(0 := Returned 2, 1 := Returned 2)\<rparr>"
  have a: "rev_step 2 init_rev_sys ?s1"
    using rev_step.add [of 0 2 init_rev_sys] by (simp add: init_rev_sys_def)
  have b: "rev_step 2 ?s1 ?s2" using rev_step.add [of 1 2 ?s1] by simp
  have c: "rev_step 2 ?s2 ?s3" using rev_step.load [of 0 2 ?s2] by (simp add: fun_upd_twist)
  have d: "rev_step 2 ?s3 ?s4" using rev_step.load [of 1 2 ?s3] by simp
  have "rev_reachable 2 ?s4"
    using rev_reachable.start a b c d by (meson rev_reachable.step)
  then show ?thesis by (intro exI [of _ ?s4]) simp
qed

end
