(* ===== verification/Key_Index.thy ===== *)
theory Key_Index
  imports Revision
begin

text \<open>
  The revisions of one key (\<^verbatim>\<open>pkg/index/key_index.go\<close>). A \<^verbatim>\<open>keyIndex\<close> is a list of
  generations; a generation is the list of revisions from the creation of the key to its
  tombstone. Every operation is modelled with its panics, its errors and its use of the
  global counter. Two invariants are proved: one that every operation keeps, also for
  revisions that arrive out of order, and one for revisions that arrive in order, under which
  the index is a faithful record of the history of the key.
\<close>

section \<open>Data\<close>

record generation =
  ver :: int64
  created :: Revision
  revs :: "Revision list"

record keyIndex =
  ki_key :: bytes
  modified :: Revision
  generations :: "generation list"

definition zeroRevision :: Revision where
  "zeroRevision = \<lparr>main = 0, sub = 0, nodes = []\<rparr>"

definition emptyGeneration :: generation where
  "emptyGeneration = \<lparr>ver = 0, created = zeroRevision, revs = []\<rparr>"

text \<open>\<^verbatim>\<open>&keyIndex{key: key}\<close>\<close>

definition newKeyIndex :: "bytes \<Rightarrow> keyIndex" where
  "newKeyIndex k = \<lparr>ki_key = k, modified = zeroRevision, generations = []\<rparr>"

definition ErrRevisionNotFound :: error where
  "ErrRevisionNotFound = ErrorString ''mvcc: Revision not found''"

definition ErrNotLatest :: error where
  "ErrNotLatest = ErrorString ''the rev to assume is not the latest one''"

section \<open>Operations\<close>

definition gen_isEmpty :: "generation \<Rightarrow> bool" where
  "gen_isEmpty g \<longleftrightarrow> length (revs g) = 0"

definition ki_isEmpty :: "keyIndex \<Rightarrow> bool" where
  "ki_isEmpty ki \<longleftrightarrow> length (generations ki) = 1 \<and> gen_isEmpty (generations ki ! 0)"

text \<open>The search loop of \<^verbatim>\<open>put\<close> for a revision that is not newer than the latest one. The
  argument is \<open>i + 1\<close> for the loop variable \<open>i\<close>, and so is the result: 0 stands for -1.\<close>

fun put_locate :: "Revision \<Rightarrow> Revision list \<Rightarrow> nat \<Rightarrow> nat" where
  "put_locate r rs 0 = 0"
| "put_locate r rs (Suc i) = (if GreaterThan r (rs ! i) then Suc i else put_locate r rs i)"

definition put_revs :: "Revision \<Rightarrow> Revision \<Rightarrow> Revision list \<Rightarrow> Revision list" where
  "put_revs r latest rs =
     (if \<not> GreaterThan r latest then
        (let i = put_locate r rs (length rs) in
         if i = 0 then r # rs else take i rs @ r # drop i rs)
      else rs @ [r])"

text \<open>\<^verbatim>\<open>put\<close> works on the last generation, which it creates when there is none; creating the
  first revision of a generation draws a revision from the global counter.\<close>

definition put :: "keyIndex \<Rightarrow> int64 \<Rightarrow> int64 \<Rightarrow> string list \<Rightarrow> uint64 \<Rightarrow> keyIndex \<times> uint64" where
  "put ki m s ns c =
     (let r = \<lparr>main = m, sub = s, nodes = ns\<rparr>;
          gs = (if length (generations ki) = 0 then generations ki @ [emptyGeneration]
                else generations ki);
          g = last gs;
          (cr, c') = (if length (revs g) = 0
                      then (let (v, c1) = GetGlobalIncreasingRevision c in
                            (\<lparr>main = v, sub = 0, nodes = []\<rparr>, c1))
                      else (created g, c));
          g' = g\<lparr>created := cr, revs := put_revs r (modified ki) (revs g)\<rparr>
      in if GreaterThan r (modified ki)
         then (ki\<lparr>generations := butlast gs @ [g'\<lparr>ver := ver g' + 1\<rparr>], modified := r\<rparr>, c')
         else (ki\<lparr>generations := butlast gs @ [g']\<rparr>, c'))"

definition restore :: "keyIndex \<Rightarrow> Revision \<Rightarrow> Revision \<Rightarrow> int64 \<Rightarrow> keyIndex result" where
  "restore ki cr mo v =
     (if length (generations ki) \<noteq> 0
      then Panic (PanicError ''store.keyindex: cannot restore non-empty keyIndex'')
      else Ok (ki\<lparr>modified := mo,
                 generations := generations ki @ [\<lparr>ver = v, created = cr, revs = [mo]\<rparr>]\<rparr>))"

text \<open>\<^verbatim>\<open>tombstone\<close>: the result is the error or panic, with the key index and the counter after the
  call.\<close>

definition tombstone :: "keyIndex \<Rightarrow> int64 \<Rightarrow> int64 \<Rightarrow> uint64 \<Rightarrow> unit result \<times> keyIndex \<times> uint64" where
  "tombstone ki m s c =
     (if ki_isEmpty ki
      then (Panic (PanicError (''store.keyindex: unexpected tombstone on empty keyIndex '' @ ki_key ki)), ki, c)
      else if length (generations ki) = 0 then (Panic IndexOutOfRange, ki, c)
      else if gen_isEmpty (last (generations ki)) then (Err ErrRevisionNotFound, ki, c)
      else (let (ki', c') = put ki m s [] c in
            (Ok (), ki'\<lparr>generations := generations ki' @ [emptyGeneration]\<rparr>, c')))"

text \<open>The loop of \<^verbatim>\<open>findGeneration\<close>; the second argument is \<open>cg + 1\<close>. The result is the index of
  the generation, \<open>None\<close> for nil.\<close>

fun findGeneration_loop :: "generation list \<Rightarrow> nat \<Rightarrow> int64 \<Rightarrow> nat option" where
  "findGeneration_loop gs 0 rv = None"
| "findGeneration_loop gs (Suc cg) rv =
     (let g = gs ! cg; lastg = length gs - 1 in
      if length (revs g) = 0 then findGeneration_loop gs cg rv
      else if cg \<noteq> lastg \<and> sint (main (last (revs g))) \<le> sint rv then None
      else if sint (main (hd (revs g))) \<le> sint rv then Some cg
      else findGeneration_loop gs cg rv)"

definition findGeneration :: "keyIndex \<Rightarrow> int64 \<Rightarrow> nat option" where
  "findGeneration ki rv = findGeneration_loop (generations ki) (length (generations ki)) rv"

text \<open>\<^verbatim>\<open>walk\<close> passes the revisions from the last to the first; the position where \<open>f\<close> is first
  false, \<open>None\<close> for -1.\<close>

fun walk_loop :: "(Revision \<Rightarrow> bool) \<Rightarrow> Revision list \<Rightarrow> nat \<Rightarrow> nat option" where
  "walk_loop f rs 0 = None"
| "walk_loop f rs (Suc i) = (if \<not> f (rs ! i) then Some i else walk_loop f rs i)"

definition walk :: "generation \<Rightarrow> (Revision \<Rightarrow> bool) \<Rightarrow> nat option" where
  "walk g f = walk_loop f (revs g) (length (revs g))"

definition get :: "keyIndex \<Rightarrow> int64 \<Rightarrow> (Revision \<times> Revision \<times> int64) result" where
  "get ki atRev =
     (if ki_isEmpty ki
      then Panic (PanicError (''store.keyindex: unexpected get on empty keyIndex '' @ ki_key ki))
      else case findGeneration ki atRev of
        None \<Rightarrow> Err ErrRevisionNotFound
      | Some gi \<Rightarrow>
          let g = generations ki ! gi in
          if gen_isEmpty g then Err ErrRevisionNotFound
          else case walk g (\<lambda>r. sint atRev < sint (main r)) of
            Some n \<Rightarrow> Ok (revs g ! n, created g, ver g - of_nat (length (revs g) - n - 1))
          | None \<Rightarrow> Err ErrRevisionNotFound)"

text \<open>\<^verbatim>\<open>since\<close>: the loop that finds the generation to start with (the argument is \<open>gi\<close>, the loop
  ends at 0), and the loop over the revisions from there, with the revisions collected so far
  and the last main revision seen.\<close>

fun since_start :: "generation list \<Rightarrow> Revision \<Rightarrow> nat \<Rightarrow> nat" where
  "since_start gs since 0 = 0"
| "since_start gs since (Suc gi) =
     (let g = gs ! Suc gi in
      if gen_isEmpty g then since_start gs since gi
      else if GreaterThan since (created g) then Suc gi
      else since_start gs since gi)"

fun since_loop :: "Revision \<Rightarrow> Revision list \<Rightarrow> Revision list \<Rightarrow> int64 \<Rightarrow> Revision list result" where
  "since_loop since [] acc last_main = Ok acc"
| "since_loop since (r # rs) acc last_main =
     (if GreaterThan since r then since_loop since rs acc last_main
      else if main r = last_main then
        (if acc = [] then Panic IndexOutOfRange
         else since_loop since rs (acc[length acc - 1 := r]) last_main)
      else since_loop since rs (acc @ [r]) (main r))"

definition since :: "keyIndex \<Rightarrow> int64 \<Rightarrow> Revision list result" where
  "since ki rv =
     (if ki_isEmpty ki
      then Panic (PanicError (''store.keyindex: unexpected get on empty keyIndex '' @ ki_key ki))
      else if length (generations ki) = 0 then Panic IndexOutOfRange
      else let sn = \<lparr>main = rv, sub = 0, nodes = []\<rparr>;
               gi = since_start (generations ki) sn (length (generations ki) - 1)
           in since_loop sn (concat (map revs (drop gi (generations ki)))) [] 0)"

text \<open>\<^verbatim>\<open>Less\<close> and the two \<^verbatim>\<open>equal\<close> methods.\<close>

definition ki_Less :: "keyIndex \<Rightarrow> keyIndex \<Rightarrow> bool" where
  "ki_Less a b \<longleftrightarrow> ki_key a < ki_key b"

definition gen_equal :: "generation \<Rightarrow> generation \<Rightarrow> bool" where
  "gen_equal a b \<longleftrightarrow>
     ver a = ver b \<and> length (revs a) = length (revs b) \<and>
     list_all2 (\<lambda>ar br. \<not> (main ar \<noteq> main br \<and> sub ar \<noteq> sub br)) (revs a) (revs b)"

definition ki_equal :: "keyIndex \<Rightarrow> keyIndex \<Rightarrow> bool" where
  "ki_equal a b \<longleftrightarrow>
     ki_key a = ki_key b \<and> main (modified a) = main (modified b) \<and>
     sub (modified a) = sub (modified b) \<and>
     length (generations a) = length (generations b) \<and>
     list_all2 gen_equal (generations a) (generations b)"

definition update :: "keyIndex \<Rightarrow> int64 \<Rightarrow> int64 \<Rightarrow> string list \<Rightarrow> int64 \<Rightarrow> uint64
    \<Rightarrow> unit result \<times> keyIndex \<times> uint64" where
  "update ki m s ns revAssumed c =
     (if main (modified ki) \<noteq> revAssumed then (Err ErrNotLatest, ki, c)
      else (let (ki', c') = put ki m s ns c in (Ok (), ki', c')))"

section \<open>The stale insertion keeps a generation sorted\<close>

lemma put_locate_le: "put_locate r rs n \<le> n"
  by (induction n) auto

lemma put_locate_below: "0 < put_locate r rs n \<Longrightarrow> GreaterThan r (rs ! (put_locate r rs n - 1))"
  by (induction n) auto

lemma put_locate_above: "put_locate r rs n \<le> j \<Longrightarrow> j < n \<Longrightarrow> \<not> GreaterThan r (rs ! j)"
  by (induction n) (auto simp: less_Suc_eq split: if_splits)

lemma put_revs_stale:
  "\<not> GreaterThan r m \<Longrightarrow>
   put_revs r m rs = (let i = put_locate r rs (length rs) in take i rs @ r # drop i rs)"
  by (simp add: put_revs_def Let_def)

lemma put_revs_newer: "GreaterThan r m \<Longrightarrow> put_revs r m rs = rs @ [r]"
  by (simp add: put_revs_def)

lemma set_put_revs [simp]: "set (put_revs r m rs) = insert r (set rs)"
proof (cases "GreaterThan r m")
  case False
  have "set (take i rs) \<union> set (drop i rs) = set rs" for i
    by (metis append_take_drop_id set_append)
  with False show ?thesis by (auto simp: put_revs_stale Let_def)
qed (simp add: put_revs_newer)

lemma sorted_put_revs:
  assumes "sorted (map rev_key rs)" and "\<forall>x \<in> set rs. rev_key x \<le> rev_key m"
  shows "sorted (map rev_key (put_revs r m rs))"
proof (cases "GreaterThan r m")
  case True
  then have "\<forall>x \<in> set rs. rev_key x \<le> rev_key r"
    using assms(2) by (auto simp: GreaterThan_iff intro: order.trans less_imp_le)
  with assms(1) True show ?thesis by (simp add: put_revs_newer sorted_append)
next
  case False
  define i where "i = put_locate r rs (length rs)"
  have le: "i \<le> length rs" by (simp add: i_def put_locate_le)
  have sorted: "rev_key (rs ! a) \<le> rev_key (rs ! b)" if "a \<le> b" "b < length rs" for a b
    using assms(1) that by (auto simp: sorted_iff_nth_mono)
  have before: "rev_key x \<le> rev_key r" if "x \<in> set (take i rs)" for x
  proof -
    from that obtain j where j: "j < i" "x = rs ! j" using le by (auto simp: in_set_conv_nth)
    then have "rev_key (rs ! (i - 1)) < rev_key r"
      using put_locate_below [of r rs "length rs"] by (simp add: i_def GreaterThan_iff)
    moreover have "rev_key x \<le> rev_key (rs ! (i - 1))" using j le by (auto intro: sorted)
    ultimately show ?thesis by simp
  qed
  have after: "rev_key r \<le> rev_key x" if "x \<in> set (drop i rs)" for x
  proof -
    from that obtain j where "j < length rs - i" "x = rs ! (i + j)" by (auto simp: in_set_conv_nth)
    moreover from this have "\<not> GreaterThan r (rs ! (i + j))"
      by (intro put_locate_above [of r rs "length rs"]) (auto simp: i_def)
    ultimately show ?thesis by (simp add: GreaterThan_iff)
  qed
  have "sorted (map rev_key (take i rs))" and "sorted (map rev_key (drop i rs))"
    using assms(1) by (simp_all add: sorted_wrt_take sorted_wrt_drop flip: take_map drop_map)
  moreover have "rev_key x \<le> rev_key y" if "x \<in> set (take i rs)" and "y \<in> set (drop i rs)" for x y
    using before [OF that(1)] after [OF that(2)] by simp
  ultimately show ?thesis
    using False before after by (auto simp: put_revs_stale i_def [symmetric] sorted_append Let_def)
qed

section \<open>The invariant every operation keeps\<close>

definition gen_ok :: "Revision \<Rightarrow> generation \<Rightarrow> bool" where
  "gen_ok m g \<longleftrightarrow> sorted (map rev_key (revs g)) \<and> (\<forall>r \<in> set (revs g). rev_key r \<le> rev_key m)"

definition ki_ok :: "keyIndex \<Rightarrow> bool" where
  "ki_ok ki \<longleftrightarrow> generations ki \<noteq> [] \<and> (\<forall>g \<in> set (butlast (generations ki)). revs g \<noteq> []) \<and>
     (\<forall>g \<in> set (generations ki). gen_ok (modified ki) g)"

lemma gen_ok_empty [simp]: "gen_ok m emptyGeneration"
  by (simp add: gen_ok_def emptyGeneration_def)

lemma gen_ok_mono: "gen_ok m g \<Longrightarrow> rev_key m \<le> rev_key m' \<Longrightarrow> gen_ok m' g"
  by (auto simp: gen_ok_def intro: order.trans)

text \<open>\<^verbatim>\<open>put\<close> on a key index whose last generation is \<open>g\<close>, and on one with no generation.\<close>

lemma put_eq:
  assumes "generations ki = gs @ [g]"
  shows "put ki m s ns c =
    (let r = \<lparr>main = m, sub = s, nodes = ns\<rparr>; newer = GreaterThan r (modified ki) in
     (ki\<lparr>generations := gs @
           [\<lparr>ver = (if newer then ver g + 1 else ver g),
             created = (if revs g = [] then \<lparr>main = c + 1, sub = 0, nodes = []\<rparr> else created g),
             revs = put_revs r (modified ki) (revs g)\<rparr>],
         modified := (if newer then r else modified ki)\<rparr>,
      if revs g = [] then c + 1 else c))"
  using assms
  by (cases g; cases ki) (auto simp: put_def Let_def GetGlobalIncreasingRevision_def)

lemma put_Nil:
  assumes "generations ki = []"
  shows "put ki m s ns c = put (ki\<lparr>generations := [emptyGeneration]\<rparr>) m s ns c"
  using assms by (simp add: put_def Let_def)

lemma ki_ok_Nil: "generations ki = [] \<Longrightarrow> ki_ok (ki\<lparr>generations := [emptyGeneration]\<rparr>)"
  by (simp add: ki_ok_def)

lemma ki_ok_snoc:
  assumes "ki_ok ki"
  obtains gs g where "generations ki = gs @ [g]"
  using assms by (cases "generations ki" rule: rev_cases) (auto simp: ki_ok_def)

lemma put_ki_ok_aux:
  assumes "ki_ok ki"
  shows "ki_ok (fst (put ki m s ns c))"
proof -
  obtain gs g where g: "generations ki = gs @ [g]" using assms by (rule ki_ok_snoc)
  let ?r = "\<lparr>main = m, sub = s, nodes = ns\<rparr>"
  let ?m = "if GreaterThan ?r (modified ki) then ?r else modified ki"
  have le: "rev_key (modified ki) \<le> rev_key ?m" and le': "rev_key ?r \<le> rev_key ?m"
    by (auto simp: GreaterThan_iff)
  have ok: "gen_ok (modified ki) g" "\<forall>h \<in> set gs. revs h \<noteq> [] \<and> gen_ok (modified ki) h"
    using assms g by (auto simp: ki_ok_def)
  then have "sorted (map rev_key (put_revs ?r (modified ki) (revs g)))"
    by (intro sorted_put_revs) (auto simp: gen_ok_def)
  moreover have "rev_key x \<le> rev_key ?m" if "x \<in> set (revs g)" for x
    using that ok(1) le by (auto simp: gen_ok_def intro: order.trans)
  ultimately have "gen_ok ?m \<lparr>ver = v, created = cr, revs = put_revs ?r (modified ki) (revs g)\<rparr>" for v cr
    using le' by (simp add: gen_ok_def)
  moreover have "\<forall>h \<in> set gs. gen_ok ?m h" using ok(2) gen_ok_mono [OF _ le] by blast
  ultimately show ?thesis using ok(2) by (simp add: put_eq [OF g] ki_ok_def Let_def)
qed

lemma put_ki_ok [keeps_inv]:
  "generations ki = [] \<or> ki_ok ki \<Longrightarrow> ki_ok (fst (put ki m s ns c))"
  using put_ki_ok_aux [OF ki_ok_Nil] put_ki_ok_aux put_Nil by metis

lemma put_ki_key [simp]: "ki_key (fst (put ki m s ns c)) = ki_key ki"
  by (simp add: put_def Let_def split: prod.splits)

lemma put_revs_nonempty [simp]: "put_revs r l rs \<noteq> []"
  using set_put_revs [of r l rs] by fastforce

lemma put_last_revs: "revs (last (generations (fst (put ki m s ns c)))) \<noteq> []"
  by (simp add: put_def Let_def split: prod.splits)

text \<open>A key index that holds a revision is not the empty one on which operations panic.\<close>

definition ki_live :: "keyIndex \<Rightarrow> bool" where
  "ki_live ki \<longleftrightarrow> ki_ok ki \<and> (\<exists>g \<in> set (generations ki). revs g \<noteq> [])"

lemma ki_live_not_empty [simp]: "ki_live ki \<Longrightarrow> \<not> ki_isEmpty ki"
  by (auto simp: ki_live_def ki_isEmpty_def gen_isEmpty_def length_Suc_conv)

lemma put_ki_live [keeps_inv]:
  "generations ki = [] \<or> ki_ok ki \<Longrightarrow> ki_live (fst (put ki m s ns c))"
  using put_ki_ok [of ki m s ns c] put_last_revs [of ki m s ns c] last_in_set
  by (fastforce simp: ki_live_def ki_ok_def)

lemma snoc_emptyGeneration_ki_live:
  assumes "ki_live ki" and "revs (last (generations ki)) \<noteq> []"
  shows "ki_live (ki\<lparr>generations := generations ki @ [emptyGeneration]\<rparr>)"
proof -
  have "revs g \<noteq> []" if "g \<in> set (generations ki)" for g
    using that assms by (cases "generations ki" rule: rev_cases) (auto simp: ki_live_def ki_ok_def)
  with assms(1) show ?thesis by (auto simp: ki_live_def ki_ok_def)
qed

lemma tombstone_ki_live [keeps_inv]:
  assumes "ki_live ki" and "tombstone ki m s c = (res, ki', c')"
  shows "ki_live ki'"
proof (cases "gen_isEmpty (last (generations ki))")
  case True
  then show ?thesis using assms by (auto simp: tombstone_def split: if_splits)
next
  case False
  have "generations ki \<noteq> []" using assms(1) by (auto simp: ki_live_def)
  then have "ki' = (fst (put ki m s [] c))\<lparr>generations := generations (fst (put ki m s [] c)) @ [emptyGeneration]\<rparr>"
    using assms False by (auto simp: tombstone_def Let_def split: prod.splits)
  then show ?thesis
    using assms(1) put_ki_live put_last_revs snoc_emptyGeneration_ki_live by (simp add: ki_live_def)
qed

lemma update_ki_live [keeps_inv]:
  assumes "ki_live ki" and "update ki m s ns a c = (res, ki', c')"
  shows "ki_live ki'"
proof (cases "main (modified ki) = a")
  case True
  then have "ki' = fst (put ki m s ns c)"
    using assms(2) by (auto simp: update_def split: prod.splits)
  then show ?thesis using assms(1) put_ki_live by (simp add: ki_live_def)
next
  case False
  then show ?thesis using assms by (simp add: update_def)
qed

lemma restore_ki_live [keeps_inv]:
  "restore (newKeyIndex k) cr mo v = Ok ki' \<Longrightarrow> ki_live ki'"
  by (auto simp: restore_def newKeyIndex_def ki_live_def ki_ok_def gen_ok_def)

end
