(* ===== verification/Key_History.thy ===== *)
theory Key_History
  imports Key_Index
begin

text \<open>
  The contract of a key index for revisions that arrive in order: it is the history of the
  key. The history is the list of its revisions, each marked as a tombstone or not. \<^verbatim>\<open>put\<close> and
  \<^verbatim>\<open>tombstone\<close> append to it, \<^verbatim>\<open>get\<close> reads the newest entry at or before a revision, and
  \<^verbatim>\<open>since\<close> lists the entries from a revision on. The specification below says so on lists;
  the lemmas prove that the code's operations implement it.
\<close>

section \<open>The specification\<close>

type_synonym history = "(Revision \<times> bool) list"

definition upto_main :: "int64 \<Rightarrow> history \<Rightarrow> history" where
  "upto_main rv h = filter (\<lambda>(r, _). sint (main r) \<le> sint rv) h"

text \<open>The revision visible at \<open>rv\<close>: the newest entry at or before it, unless it is a tombstone.\<close>

definition visible :: "history \<Rightarrow> int64 \<Rightarrow> Revision option" where
  "visible h rv =
     (let e = upto_main rv h in if e = [] \<or> snd (last e) then None else Some (fst (last e)))"

text \<open>The version of the visible revision: how many entries lie after the last tombstone.\<close>

definition version :: "history \<Rightarrow> int64 \<Rightarrow> nat" where
  "version h rv = length (takeWhile (\<lambda>(_, t). \<not> t) (List.rev (upto_main rv h)))"

text \<open>Of adjacent revisions with the same main part only the last is reported.\<close>

fun last_of_main :: "Revision list \<Rightarrow> Revision list" where
  "last_of_main [] = []"
| "last_of_main [r] = [r]"
| "last_of_main (r # q # rs) =
     (if main r = main q then last_of_main (q # rs) else r # last_of_main (q # rs))"

definition since_spec :: "history \<Rightarrow> int64 \<Rightarrow> Revision list" where
  "since_spec h rv = last_of_main (filter (\<lambda>r. (sint rv, 0) \<le> rev_key r) (map fst h))"

section \<open>The history of a key index\<close>

definition gen_events :: "bool \<Rightarrow> generation \<Rightarrow> history" where
  "gen_events closed g = map (\<lambda>r. (r, False)) (butlast (revs g)) @
     (if revs g = [] then [] else [(last (revs g), closed)])"

definition history :: "keyIndex \<Rightarrow> history" where
  "history ki = concat (map (gen_events True) (butlast (generations ki))) @
     (if generations ki = [] then [] else gen_events False (last (generations ki)))"

definition all_revs :: "keyIndex \<Rightarrow> Revision list" where
  "all_revs ki = concat (map revs (generations ki))"

text \<open>Every generation was created after the revisions of the generations before it.\<close>

fun created_ok :: "Revision list \<Rightarrow> generation list \<Rightarrow> bool" where
  "created_ok older [] = True"
| "created_ok older (g # gs) =
     ((revs g \<noteq> [] \<longrightarrow> (\<forall>r \<in> set older. rev_key r < rev_key (created g))) \<and>
      created_ok (older @ revs g) gs)"

definition ki_inv :: "keyIndex \<Rightarrow> uint64 \<Rightarrow> bool" where
  "ki_inv ki c \<longleftrightarrow>
     generations ki \<noteq> [] \<and> (\<forall>g \<in> set (butlast (generations ki)). revs g \<noteq> []) \<and>
     sorted_wrt (<) (map rev_key (all_revs ki)) \<and>
     all_revs ki \<noteq> [] \<and> modified ki = last (all_revs ki) \<and>
     (\<forall>g \<in> set (generations ki). ver g = of_nat (length (revs g))) \<and>
     (\<forall>r \<in> set (all_revs ki). 0 < sint (main r) \<and> sint (main r) \<le> uint c) \<and>
     created_ok [] (generations ki)"

lemma gen_events_open: "gen_events False g = map (\<lambda>r. (r, False)) (revs g)"
  by (cases "revs g" rule: rev_cases) (simp_all add: gen_events_def)

lemma map_fst_gen_events [simp]: "map fst (gen_events b g) = revs g"
  by (cases "revs g" rule: rev_cases) (simp_all add: gen_events_def comp_def)

lemma history_snoc: "generations ki = gs @ [g] \<Longrightarrow>
    history ki = concat (map (gen_events True) gs) @ map (\<lambda>r. (r, False)) (revs g)"
  by (simp add: history_def gen_events_open)

lemma map_fst_history [simp]: "map fst (history ki) = all_revs ki"
  by (cases "generations ki" rule: rev_cases)
     (simp_all add: history_def all_revs_def map_concat comp_def)

lemma created_ok_snoc: "created_ok older (gs @ [g]) \<longleftrightarrow> created_ok older gs \<and>
    (revs g \<noteq> [] \<longrightarrow> (\<forall>r \<in> set (older @ concat (map revs gs)). rev_key r < rev_key (created g)))"
  by (induction older gs rule: created_ok.induct) auto

lemma ki_inv_snoc:
  assumes "ki_inv ki c"
  obtains gs g where "generations ki = gs @ [g]"
  using assms by (cases "generations ki" rule: rev_cases) (auto simp: ki_inv_def)

lemma ki_inv_modified_max:
  assumes "ki_inv ki c" and "r \<in> set (all_revs ki)"
  shows "rev_key r \<le> rev_key (modified ki)"
proof -
  obtain rs l where rs: "all_revs ki = rs @ [l]" "modified ki = l"
    using assms(1) by (cases "all_revs ki" rule: rev_cases) (auto simp: ki_inv_def)
  with assms show ?thesis by (auto simp: ki_inv_def sorted_wrt_append less_imp_le)
qed

lemma ki_inv_ki_live: "ki_inv ki c \<Longrightarrow> ki_live ki"
proof -
  assume inv: "ki_inv ki c"
  have "gen_ok (modified ki) g" if g: "g \<in> set (generations ki)" for g
  proof -
    have "set (revs g) \<subseteq> set (all_revs ki)" using g by (auto simp: all_revs_def)
    moreover obtain as bs where "generations ki = as @ g # bs" using split_list [OF g] by blast
    then have "sorted_wrt (<) (map rev_key (revs g))"
      using inv by (simp add: ki_inv_def all_revs_def sorted_wrt_append)
    then have "sorted (map rev_key (revs g))" by (rule strict_sorted_imp_sorted)
    ultimately show ?thesis using ki_inv_modified_max [OF inv] by (auto simp: gen_ok_def)
  qed
  moreover have "\<exists>g \<in> set (generations ki). revs g \<noteq> []" using inv by (auto simp: ki_inv_def all_revs_def)
  ultimately show ?thesis using inv by (simp add: ki_live_def ki_ok_def ki_inv_def)
qed

lemma sint_counter_Suc:
  fixes c :: uint64
  assumes "uint c + 1 < 2 ^ 63"
  shows "sint (c + 1) = uint c + 1" and "uint (c + 1) = uint c + 1"
proof -
  have "nat (uint c) < nat (2 ^ 63)" using assms by (subst nat_less_eq_zless) auto
  then have lt: "unat c < 2 ^ 63" by simp
  then have s: "unat (c + 1) = Suc (unat c)" using unat_Suc_no_wrap(1) [of c "2 ^ 63"] by simp
  then have "int (unat (c + 1)) = int (unat c) + 1" by simp
  then show u: "uint (c + 1) = uint c + 1" by simp
  have "nat (uint (c + 1)) < nat (2 ^ 63)" using assms u by (subst nat_less_eq_zless) auto
  then have "unat (c + 1) < 2 ^ 63" by simp
  then show "sint (c + 1) = uint c + 1" using u by (simp add: sint64_small)
qed

section \<open>put and tombstone append to the history\<close>

lemma put_newer_eq:
  assumes "generations ki = gs @ [g]" and "r = \<lparr>main = m, sub = s, nodes = ns\<rparr>"
    and "GreaterThan r (modified ki)" and "put ki m s ns c = (ki', c')"
  shows "generations ki' = gs @ [\<lparr>ver = ver g + 1,
             created = (if revs g = [] then \<lparr>main = c + 1, sub = 0, nodes = []\<rparr> else created g),
             revs = revs g @ [r]\<rparr>]"
    and "modified ki' = r" and "ki_key ki' = ki_key ki"
    and "c' = (if revs g = [] then c + 1 else c)"
  using assms by (auto simp: put_eq put_revs_newer Let_def)

lemma put_inv [keeps_inv]:
  assumes "ki_inv ki c" and "r = \<lparr>main = m, sub = s, nodes = ns\<rparr>" and "GreaterThan r (modified ki)"
    and "sint m \<le> uint c" and "uint c + 1 < 2 ^ 63" and "put ki m s ns c = (ki', c')"
  shows "ki_inv ki' c'" and "history ki' = history ki @ [(r, False)]"
proof -
  obtain gs g where g: "generations ki = gs @ [g]" using assms(1) by (rule ki_inv_snoc)
  note e = put_newer_eq [OF g assms(2,3,6)]
  have revs: "all_revs ki' = all_revs ki @ [r]" using g e by (simp add: all_revs_def)
  have last: "\<forall>x \<in> set (all_revs ki). rev_key x < rev_key r"
    using ki_inv_modified_max [OF assms(1)] assms(3) by (auto simp: GreaterThan_iff intro: le_less_trans)
  have pos: "0 < sint m"
  proof -
    have "0 < sint (main (modified ki))" using assms(1) by (auto simp: ki_inv_def)
    then show ?thesis using assms(2,3) by (auto simp: GreaterThan_def split: if_splits)
  qed
  have c': "uint c \<le> uint c'" using e(4) assms(5) by (simp add: sint_counter_Suc)
  have "created_ok [] (generations ki')"
  proof -
    have "rev_key x < rev_key (\<lparr>main = c + 1, sub = 0, nodes = []\<rparr> :: Revision)"
      if "x \<in> set (all_revs ki)" for x
      using that assms(1,5) by (auto simp: ki_inv_def rev_key_def sint_counter_Suc(1))
    then show ?thesis
      using assms(1) g e(1) by (auto simp: ki_inv_def created_ok_snoc all_revs_def)
  qed
  then show "ki_inv ki' c'"
    using assms(1,2,4) g e(1,2) revs last pos c'
    by (fastforce simp: ki_inv_def sorted_wrt_append)
  show "history ki' = history ki @ [(r, False)]"
    using history_snoc [OF g] history_snoc [OF e(1)] by simp
qed

lemma put_first_inv [keeps_inv]:
  assumes "r = \<lparr>main = m, sub = s, nodes = ns\<rparr>" and "0 < sint m" and "sint m \<le> uint c"
    and "uint c + 1 < 2 ^ 63" and "put (newKeyIndex k) m s ns c = (ki', c')"
  shows "ki_inv ki' c'" and "history ki' = [(r, False)]" and "ki_key ki' = k"
proof -
  have gt: "GreaterThan r zeroRevision" using assms(1,2) by (simp add: GreaterThan_def zeroRevision_def)
  let ?ki = "(newKeyIndex k)\<lparr>generations := [emptyGeneration]\<rparr>"
  have p: "put ?ki m s ns c = (ki', c')" using assms(5) by (simp add: put_Nil newKeyIndex_def)
  have g: "generations ?ki = [] @ [emptyGeneration]" and gt': "GreaterThan r (modified ?ki)"
    using gt by (simp_all add: newKeyIndex_def)
  note e = put_newer_eq [OF g assms(1) gt' p]
  show "history ki' = [(r, False)]" "ki_key ki' = k"
    using history_snoc [OF e(1)] e(3) by (simp_all add: emptyGeneration_def newKeyIndex_def)
  show "ki_inv ki' c'"
    using assms(1-4) e by (simp add: ki_inv_def all_revs_def emptyGeneration_def sint_counter_Suc)
qed

lemma tombstone_inv [keeps_inv]:
  assumes "ki_inv ki c" and "r = \<lparr>main = m, sub = s, nodes = []\<rparr>" and "GreaterThan r (modified ki)"
    and "sint m \<le> uint c" and "uint c + 1 < 2 ^ 63" and "tombstone ki m s c = (res, ki', c')"
  shows "ki_inv ki' c'" and
    "if snd (last (history ki)) then res = Err ErrRevisionNotFound \<and> ki' = ki \<and> c' = c
     else res = Ok () \<and> history ki' = history ki @ [(r, True)]"
proof -
  obtain gs g where g: "generations ki = gs @ [g]" using assms(1) by (rule ki_inv_snoc)
  have ne: "\<not> ki_isEmpty ki" using ki_inv_ki_live [OF assms(1)] by simp
  have last: "snd (last (history ki)) \<longleftrightarrow> revs g = []"
  proof (cases "revs g = []")
    case True
    then obtain gs' h where "gs = gs' @ [h]"
      using assms(1) g by (cases gs rule: rev_cases) (auto simp: ki_inv_def all_revs_def)
    moreover then have "revs h \<noteq> []" using assms(1) g by (auto simp: ki_inv_def butlast_append)
    ultimately show ?thesis using True by (simp add: history_snoc [OF g] gen_events_def)
  qed (simp add: history_snoc [OF g] last_map)
  show "ki_inv ki' c'"
    "if snd (last (history ki)) then res = Err ErrRevisionNotFound \<and> ki' = ki \<and> c' = c
     else res = Ok () \<and> history ki' = history ki @ [(r, True)]"
  proof (atomize (full), cases "revs g = []")
    case True
    then show "ki_inv ki' c' \<and> (if snd (last (history ki)) then res = Err ErrRevisionNotFound \<and> ki' = ki \<and> c' = c
     else res = Ok () \<and> history ki' = history ki @ [(r, True)])"
      using last assms(1,6) g ne by (auto simp: tombstone_def gen_isEmpty_def)
  next
    case False
    obtain ki1 c1 where p: "put ki m s [] c = (ki1, c1)" by force
    note i = put_inv [OF assms(1-5) p] and e = put_newer_eq [OF g assms(2,3) p]
    have t: "res = Ok ()" "ki' = ki1\<lparr>generations := generations ki1 @ [emptyGeneration]\<rparr>" "c' = c1"
      using False g ne assms(6) p by (auto simp: tombstone_def gen_isEmpty_def Let_def)
    have "revs h \<noteq> []" if "h \<in> set (generations ki1)" for h
      using that e(1) assms(1) g by (auto simp: ki_inv_def)
    then have "ki_inv ki' c'"
      using i(1) t by (auto simp: ki_inv_def all_revs_def created_ok_snoc emptyGeneration_def)
    moreover have "history ki' = history ki @ [(r, True)]"
    proof -
      have "generations ki' = generations ki1 @ [emptyGeneration]" using t(2) by simp
      from history_snoc [OF this] show ?thesis
        using e(1) by (simp add: history_snoc [OF g] gen_events_def emptyGeneration_def)
    qed
    ultimately show "ki_inv ki' c' \<and> (if snd (last (history ki)) then res = Err ErrRevisionNotFound \<and> ki' = ki \<and> c' = c
     else res = Ok () \<and> history ki' = history ki @ [(r, True)])"
      using t(1) last False by simp
  qed
qed

section \<open>get reads the history\<close>

lemma walk_loop_Some:
  "walk_loop f rs n = Some i \<Longrightarrow> i < n \<and> \<not> f (rs ! i) \<and> (\<forall>j. i < j \<and> j < n \<longrightarrow> f (rs ! j))"
  by (induction n) (auto simp: less_Suc_eq split: if_splits)

lemma walk_loop_None: "walk_loop f rs n = None \<Longrightarrow> j < n \<Longrightarrow> f (rs ! j)"
  by (induction n) (auto simp: less_Suc_eq split: if_splits)

lemma walk_last_filter:
  assumes "walk g f = Some n"
  shows "n < length (revs g)" and "filter (\<lambda>r. \<not> f r) (revs g) \<noteq> []"
    and "last (filter (\<lambda>r. \<not> f r) (revs g)) = revs g ! n"
    and "\<forall>j. n < j \<and> j < length (revs g) \<longrightarrow> f (revs g ! j)"
proof -
  from walk_loop_Some [OF assms [unfolded walk_def]]
  show n: "n < length (revs g)" and above: "\<forall>j. n < j \<and> j < length (revs g) \<longrightarrow> f (revs g ! j)"
    by auto
  have nf: "\<not> f (revs g ! n)" using walk_loop_Some [OF assms [unfolded walk_def]] by simp
  have "\<forall>r \<in> set (drop (Suc n) (revs g)). f r"
    using above by (auto simp: in_set_conv_nth)
  then have "filter (\<lambda>r. \<not> f r) (drop (Suc n) (revs g)) = []" by (simp add: filter_empty_conv)
  then have "filter (\<lambda>r. \<not> f r) (revs g) = filter (\<lambda>r. \<not> f r) (take (Suc n) (revs g))"
    by (metis append_take_drop_id filter_append append_Nil2)
  then have "filter (\<lambda>r. \<not> f r) (revs g) = filter (\<lambda>r. \<not> f r) (take n (revs g)) @ [revs g ! n]"
    using n nf by (simp add: take_Suc_conv_app_nth)
  then show "filter (\<lambda>r. \<not> f r) (revs g) \<noteq> []" "last (filter (\<lambda>r. \<not> f r) (revs g)) = revs g ! n"
    by simp_all
qed

lemma walk_None_filter: "walk g f = None \<Longrightarrow> filter (\<lambda>r. \<not> f r) (revs g) = []"
  by (auto simp: walk_def filter_empty_conv in_set_conv_nth dest: walk_loop_None)

text \<open>What the search for the generation finds: all later generations lie above \<open>rv\<close>, and it
  stops either at the generation that holds \<open>rv\<close>, or in a gap, or below the first one.\<close>

lemma sorted_hd_le: "sorted (map f rs) \<Longrightarrow> r \<in> set rs \<Longrightarrow> f (hd rs) \<le> f r"
  by (cases rs) auto

definition gens_above :: "generation list \<Rightarrow> int64 \<Rightarrow> bool" where
  "gens_above gs rv \<longleftrightarrow> (\<forall>g \<in> set gs. \<forall>r \<in> set (revs g). sint rv < sint (main r))"

lemma findGeneration_loop_Some:
  assumes "findGeneration_loop gs n rv = Some i" and "n \<le> length gs" and "gens_above (drop n gs) rv"
    and "\<forall>g \<in> set gs. sorted (map (sint \<circ> main) (revs g))"
  shows "i < length gs \<and> revs (gs ! i) \<noteq> [] \<and> gens_above (drop (Suc i) gs) rv \<and>
    sint (main (hd (revs (gs ! i)))) \<le> sint rv \<and>
    (Suc i = length gs \<or> sint rv < sint (main (last (revs (gs ! i)))))"
  using assms(1-3)
proof (induction n)
  case (Suc n)
  let ?g = "gs ! n"
  have n: "n < length gs" using Suc.prems(2) by simp
  show ?case
  proof (cases "revs ?g \<noteq> [] \<and> sint (main (hd (revs ?g))) \<le> sint rv")
    case True
    then have "i = n" and "Suc n = length gs \<or> sint rv < sint (main (last (revs ?g)))"
      using Suc.prems(1) n by (auto simp: Let_def split: if_splits)
    then show ?thesis using True n Suc.prems(3) by simp
  next
    case False
    have "sint rv < sint (main r)" if "r \<in> set (revs ?g)" for r
    proof -
      have ne: "revs ?g \<noteq> []" using that by auto
      then have "sint (main (hd (revs ?g))) \<le> sint (main r)"
        using assms(4) n that sorted_hd_le [of "sint \<circ> main" "revs ?g" r] by simp
      with False ne show ?thesis by simp
    qed
    then have "gens_above (drop n gs) rv"
      using Suc.prems(3) n by (simp add: gens_above_def Cons_nth_drop_Suc [symmetric])
    moreover have "findGeneration_loop gs n rv = Some i"
      using Suc.prems(1) False by (auto simp: Let_def split: if_splits)
    ultimately show ?thesis using Suc.IH n by simp
  qed
qed simp

lemma findGeneration_loop_None:
  assumes "findGeneration_loop gs n rv = None" and "n \<le> length gs" and "gens_above (drop n gs) rv"
    and "\<forall>g \<in> set gs. sorted (map (sint \<circ> main) (revs g))"
  shows "gens_above gs rv \<or>
    (\<exists>i. Suc i < length gs \<and> revs (gs ! i) \<noteq> [] \<and> gens_above (drop (Suc i) gs) rv \<and>
         sint (main (last (revs (gs ! i)))) \<le> sint rv)"
  using assms(1-3)
proof (induction n)
  case 0
  then show ?case by simp
next
  case (Suc n)
  let ?g = "gs ! n"
  have n: "n < length gs" using Suc.prems(2) by simp
  show ?case
  proof (cases "revs ?g \<noteq> [] \<and> n \<noteq> length gs - 1 \<and> sint (main (last (revs ?g))) \<le> sint rv")
    case True
    then have "Suc n < length gs" using n by linarith
    with True Suc.prems(3) show ?thesis by blast
  next
    case False
    have notle: "revs ?g = [] \<or> sint rv < sint (main (hd (revs ?g)))"
      and rec: "findGeneration_loop gs n rv = None"
      using Suc.prems(1) False by (auto simp: Let_def split: if_splits)
    have "sint rv < sint (main r)" if "r \<in> set (revs ?g)" for r
    proof -
      have "sint (main (hd (revs ?g))) \<le> sint (main r)"
        using assms(4) n that sorted_hd_le [of "sint \<circ> main" "revs ?g" r] by simp
      with notle that show ?thesis by auto
    qed
    then have "gens_above (drop n gs) rv"
      using Suc.prems(3) n by (simp add: gens_above_def Cons_nth_drop_Suc [symmetric])
    with rec show ?thesis using Suc.IH n by simp
  qed
qed

lemma upto_main_append [simp]: "upto_main rv (h @ h') = upto_main rv h @ upto_main rv h'"
  by (simp add: upto_main_def)

lemma upto_main_empty_iff:
  "upto_main rv h = [] \<longleftrightarrow> (\<forall>r \<in> set (map fst h). sint rv < sint (main r))"
  by (force simp: upto_main_def filter_empty_conv)

lemma upto_main_id:
  "\<forall>r \<in> set (map fst h). sint (main r) \<le> sint rv \<Longrightarrow> upto_main rv h = h"
  by (force simp: upto_main_def intro!: filter_True)

lemma upto_main_split:
  assumes "generations ki = as @ g # bs" and "gens_above bs rv"
  shows "upto_main rv (history ki) =
    upto_main rv (concat (map (gen_events True) as)) @ upto_main rv (gen_events (bs \<noteq> []) g)"
proof (cases bs rule: rev_cases)
  case Nil
  then show ?thesis using assms(1) by (simp add: history_def)
next
  case (snoc bs' b)
  let ?rest = "concat (map (gen_events True) bs') @ gen_events False b"
  have "map fst ?rest = concat (map revs bs)" using snoc by (simp add: map_concat comp_def)
  then have "upto_main rv ?rest = []"
    using assms(2) unfolding upto_main_empty_iff by (auto simp: gens_above_def)
  then show ?thesis using assms(1) snoc by (simp add: history_def butlast_append)
qed

lemma ki_inv_gens:
  assumes "ki_inv ki c" and "generations ki = as @ g # bs"
  shows "sorted (map (sint \<circ> main) (revs g))"
    and "\<forall>r \<in> set (concat (map revs as)). \<forall>q \<in> set (revs g). sint (main r) \<le> sint (main q)"
    and "\<forall>h \<in> set as. revs h \<noteq> []"
proof -
  have "sorted_wrt (<) (map rev_key (concat (map revs as) @ revs g @ concat (map revs bs)))"
    using assms by (simp add: ki_inv_def all_revs_def)
  then have s: "sorted_wrt (\<lambda>a b. rev_key a < rev_key b) (revs g)"
    and x: "\<forall>r \<in> set (concat (map revs as)). \<forall>q \<in> set (revs g). rev_key r < rev_key q"
    by (auto simp: sorted_wrt_append sorted_wrt_map)
  from s show "sorted (map (sint \<circ> main) (revs g))"
    by (auto simp: sorted_wrt_map rev_key_def less_prod_def elim!: sorted_wrt_mono_rel [rotated])
  from x show "\<forall>r \<in> set (concat (map revs as)). \<forall>q \<in> set (revs g). sint (main r) \<le> sint (main q)"
    by (auto simp: rev_key_def less_prod_def) (meson less_imp_le order_refl)+
  show "\<forall>h \<in> set as. revs h \<noteq> []" using assms by (auto simp: ki_inv_def butlast_append)
qed

text \<open>The entries at or before \<open>rv\<close> of the generation that holds \<open>rv\<close> are no tombstones.\<close>

lemma upto_main_holding:
  assumes "revs g \<noteq> []" and "\<not> closed \<or> sint rv < sint (main (last (revs g)))"
  shows "upto_main rv (gen_events closed g) =
    map (\<lambda>r. (r, False)) (filter (\<lambda>r. sint (main r) \<le> sint rv) (revs g))"
proof (cases "revs g" rule: rev_cases)
  case (snoc rs l)
  with assms(2) show ?thesis
    by (cases closed) (auto simp: upto_main_def gen_events_def filter_map comp_def)
qed (use assms(1) in simp)

lemma last_older_tombstone:
  assumes "\<forall>r \<in> set (concat (map revs as)). sint (main r) \<le> sint rv" and "\<forall>h \<in> set as. revs h \<noteq> []"
  defines "X \<equiv> upto_main rv (concat (map (gen_events True) as))"
  shows "X = [] \<or> snd (last X)"
proof -
  have "map fst (concat (map (gen_events True) as)) = concat (map revs as)"
    by (simp add: map_concat comp_def)
  then have "X = concat (map (gen_events True) as)"
    unfolding X_def using assms(1) by (intro upto_main_id) simp
  then show ?thesis
    using assms(2) by (cases as rule: rev_cases) (auto simp: gen_events_def)
qed

lemma takeWhile_rev_tomb:
  assumes "X = [] \<or> snd (last X)"
  shows "takeWhile (\<lambda>(_, t). \<not> t) (List.rev (X @ map (\<lambda>r. (r, False)) ys)) = List.rev (map (\<lambda>r. (r, False)) ys)"
  using assms by (cases X rule: rev_cases) (auto simp: takeWhile_append rev_map case_prod_unfold)

lemma filter_prefix_length:
  fixes f :: "'a \<Rightarrow> 'b :: linorder"
  assumes "sorted (map f xs)" and "n < length xs" and "f (xs ! n) \<le> b" and "\<forall>j. n < j \<and> j < length xs \<longrightarrow> b < f (xs ! j)"
  shows "length (filter (\<lambda>x. f x \<le> b) xs) = Suc n"
proof -
  have "f (xs ! j) \<le> b" if "j \<le> n" for j
    using that assms(1-3) by (auto simp: sorted_iff_nth_mono intro: order.trans)
  then have "filter (\<lambda>x. f x \<le> b) (take (Suc n) xs) = take (Suc n) xs"
    using assms(2) by (auto intro!: filter_True simp: in_set_conv_nth)
  moreover have "filter (\<lambda>x. f x \<le> b) (drop (Suc n) xs) = []"
    using assms(4) by (auto simp: filter_empty_conv in_set_conv_nth not_le)
  ultimately have "filter (\<lambda>x. f x \<le> b) xs = take (Suc n) xs"
    by (metis append_Nil2 append_take_drop_id filter_append)
  then show ?thesis using assms(2) by simp
qed

lemma get_Some_case:
  assumes "ki_inv ki c" and "findGeneration ki rv = Some i"
  shows "\<exists>r cr v. get ki rv = Ok (r, cr, v) \<and> visible (history ki) rv = Some r \<and>
           v = of_nat (version (history ki) rv)"
proof -
  let ?gs = "generations ki" and ?P = "\<lambda>r. sint (main r) \<le> sint rv"
  have sorted: "\<forall>g \<in> set ?gs. sorted (map (sint \<circ> main) (revs g))"
    using ki_inv_gens(1) [OF assms(1)] split_list by fastforce
  define g as bs where "g = ?gs ! i" and "as = take i ?gs" and "bs = drop (Suc i) ?gs"
  from findGeneration_loop_Some [OF assms(2) [unfolded findGeneration_def] _ _ sorted]
  have i: "i < length ?gs" "revs g \<noteq> []" "gens_above bs rv" "?P (hd (revs g))"
    "bs = [] \<or> sint rv < sint (main (last (revs g)))"
    by (auto simp: gens_above_def g_def bs_def)
  have gs: "?gs = as @ g # bs" using i(1) by (simp add: g_def as_def bs_def id_take_nth_drop)
  note inv = ki_inv_gens [OF assms(1) gs]
  obtain n where n: "walk g (\<lambda>r. sint rv < sint (main r)) = Some n"
    using walk_None_filter [of g "\<lambda>r. sint rv < sint (main r)"] i(2,4)
    by (cases "walk g (\<lambda>r. sint rv < sint (main r))") (auto simp: filter_empty_conv not_less)
  note w = walk_last_filter [OF n, unfolded not_less]
  have "visible (history ki) rv = Some (revs g ! n)"
    using w(2,3) i(2,5)
    by (simp add: visible_def Let_def upto_main_split [OF gs i(3)] upto_main_holding last_map)
  moreover have "?P (revs g ! n)" using w(2,3) last_in_set [OF w(2)] by simp
  then have len: "length (filter ?P (revs g)) = Suc n"
    using filter_prefix_length [of "sint \<circ> main" "revs g" n "sint rv"] inv(1) w(1,4) by (simp add: not_le)
  have older: "\<forall>r \<in> set (concat (map revs as)). ?P r"
  proof
    fix r assume "r \<in> set (concat (map revs as))"
    then have "sint (main r) \<le> sint (main (hd (revs g)))" using inv(2) hd_in_set [OF i(2)] by blast
    then show "?P r" using i(4) by simp
  qed
  have "version (history ki) rv = Suc n"
    using takeWhile_rev_tomb [OF last_older_tombstone [OF older inv(3)]] i(2,5) len
    by (simp add: version_def upto_main_split [OF gs i(3)] upto_main_holding)
  moreover have "ver g = of_nat (length (revs g))" using assms(1) gs by (simp add: ki_inv_def)
  then have "ver g - of_nat (length (revs g) - n - 1) = of_nat (Suc n)"
    using w(1) by (simp add: of_nat_diff)
  ultimately show ?thesis
    using assms ki_inv_ki_live [OF assms(1)] i(2) n
    by (simp add: get_def gen_isEmpty_def g_def [symmetric] Let_def)
qed

lemma get_None_case:
  assumes "ki_inv ki c" and "findGeneration ki rv = None"
  shows "get ki rv = Err ErrRevisionNotFound \<and> visible (history ki) rv = None"
proof -
  let ?gs = "generations ki"
  have sorted: "\<forall>g \<in> set ?gs. sorted (map (sint \<circ> main) (revs g))"
    using ki_inv_gens(1) [OF assms(1)] split_list by fastforce
  from findGeneration_loop_None [OF assms(2) [unfolded findGeneration_def] _ _ sorted]
  consider "gens_above ?gs rv"
    | i where "Suc i < length ?gs" "revs (?gs ! i) \<noteq> []" "gens_above (drop (Suc i) ?gs) rv"
        "sint (main (last (revs (?gs ! i)))) \<le> sint rv"
    by (auto simp: gens_above_def)
  then have "visible (history ki) rv = None"
  proof cases
    case 1
    then have "upto_main rv (history ki) = []"
      by (subst upto_main_empty_iff) (auto simp: gens_above_def all_revs_def)
    then show ?thesis by (simp add: visible_def)
  next
    case 2
    have gs: "?gs = take i ?gs @ ?gs ! i # drop (Suc i) ?gs" using 2(1) by (simp add: id_take_nth_drop)
    have "upto_main rv (gen_events True (?gs ! i)) \<noteq> [] \<and> snd (last (upto_main rv (gen_events True (?gs ! i))))"
      using 2(2,4) by (simp add: gen_events_def upto_main_def)
    then show ?thesis
      using 2(1) by (simp add: visible_def Let_def upto_main_split [OF gs 2(3)])
  qed
  then show ?thesis using assms ki_inv_ki_live [OF assms(1)] by (simp add: get_def)
qed

section \<open>since lists the history\<close>

lemma created_ok_nth:
  assumes "created_ok older gs" and "i < length gs" and "revs (gs ! i) \<noteq> []"
    and "r \<in> set older \<union> set (concat (map revs (take i gs)))"
  shows "rev_key r < rev_key (created (gs ! i))"
  using assms
proof (induction older gs arbitrary: i rule: created_ok.induct)
  case (2 older g gs)
  then show ?case by (cases i) auto
qed simp

lemma since_start_skips:
  assumes "created_ok [] gs" and "n < length gs"
  shows "since_start gs sn n \<le> n \<and>
    (\<forall>r \<in> set (concat (map revs (take (since_start gs sn n) gs))). GreaterThan sn r)"
  using assms(2)
proof (induction n)
  case 0
  then show ?case by simp
next
  case (Suc n)
  show ?case
  proof (cases "gen_isEmpty (gs ! Suc n) \<or> \<not> GreaterThan sn (created (gs ! Suc n))")
    case True
    then have "since_start gs sn (Suc n) = since_start gs sn n" by (auto simp: Let_def)
    then show ?thesis using Suc by simp
  next
    case False
    have "GreaterThan sn r" if "r \<in> set (concat (map revs (take (Suc n) gs)))" for r
      using created_ok_nth [OF assms(1) Suc.prems] that False
      by (fastforce simp: gen_isEmpty_def GreaterThan_iff)
    then show ?thesis using False by (simp add: Let_def)
  qed
qed

lemma since_loop_filter:
  "since_loop sn rs acc lm = since_loop sn (filter (\<lambda>r. \<not> GreaterThan sn r) rs) acc lm"
  by (induction sn rs acc lm rule: since_loop.induct) auto

lemma since_loop_acc:
  assumes "\<forall>r \<in> set rs. \<not> GreaterThan sn r"
  shows "since_loop sn rs (acc @ [q]) (main q) = Ok (acc @ last_of_main (q # rs))"
  using assms
proof (induction rs arbitrary: acc q)
  case (Cons r rs)
  have IH: "since_loop sn rs (acc' @ [r]) (main r) = Ok (acc' @ last_of_main (r # rs))" for acc'
    using Cons by simp
  show ?case
  proof (cases "main r = main q")
    case True
    then show ?thesis using IH [of acc] Cons.prems by simp
  next
    case False
    then show ?thesis using IH [of "acc @ [q]"] Cons.prems by simp
  qed
qed simp

lemma since_loop_start:
  assumes "\<forall>r \<in> set rs. \<not> GreaterThan sn r" and "\<forall>r \<in> set rs. main r \<noteq> 0"
  shows "since_loop sn rs [] 0 = Ok (last_of_main rs)"
  using assms since_loop_acc [of _ sn "[]"] by (cases rs) auto

lemma since_refines:
  assumes "ki_inv ki c"
  shows "since ki rv = Ok (since_spec (history ki) rv)"
proof -
  let ?gs = "generations ki" and ?sn = "\<lparr>main = rv, sub = 0, nodes = []\<rparr> :: Revision"
  let ?f = "filter (\<lambda>r. \<not> GreaterThan ?sn r)"
  define gi where "gi = since_start ?gs ?sn (length ?gs - 1)"
  have ne: "?gs \<noteq> []" and ok: "created_ok [] ?gs" using assms by (simp_all add: ki_inv_def)
  have "\<forall>r \<in> set (concat (map revs (take gi ?gs))). GreaterThan ?sn r"
    using since_start_skips [OF ok, of "length ?gs - 1" ?sn] ne by (simp add: gi_def)
  then have "?f (concat (map revs (take gi ?gs))) = []" by (simp add: filter_empty_conv)
  then have "?f (concat (map revs (drop gi ?gs))) = ?f (all_revs ki)"
    unfolding all_revs_def by (metis append_Nil append_take_drop_id concat_append filter_append map_append)
  moreover have "\<forall>r \<in> set (all_revs ki). main r \<noteq> 0" using assms by (auto simp: ki_inv_def)
  ultimately have "since_loop ?sn (concat (map revs (drop gi ?gs))) [] 0 = Ok (last_of_main (?f (all_revs ki)))"
    by (subst since_loop_filter) (auto intro!: since_loop_start)
  moreover have "?f (all_revs ki) = filter (\<lambda>r. (sint rv, 0) \<le> rev_key r) (all_revs ki)"
    by (simp add: GreaterThan_iff not_less rev_key_def [of ?sn])
  ultimately show ?thesis
    using ki_inv_ki_live [OF assms] ne by (simp add: since_def since_spec_def gi_def Let_def)
qed

section \<open>The interface of a revision index\<close>

text \<open>What the tree index relies on: the operations of one key, its invariant and the history it
  stands for. The invariant mentions the global counter, which only grows.\<close>

definition reads :: "(Revision \<times> Revision \<times> int64) result \<Rightarrow> history \<Rightarrow> int64 \<Rightarrow> bool" where
  "reads res h rv \<longleftrightarrow>
     (case visible h rv of None \<Rightarrow> res = Err ErrRevisionNotFound
      | Some r \<Rightarrow> \<exists>cr. res = Ok (r, cr, of_nat (version h rv)))"

lemma reads_cong: "upto_main rv h = upto_main rv h' \<Longrightarrow> reads res h rv = reads res h' rv"
  unfolding reads_def visible_def version_def Let_def by simp

locale revision_index =
  fixes kput :: "'k \<Rightarrow> int64 \<Rightarrow> int64 \<Rightarrow> string list \<Rightarrow> uint64 \<Rightarrow> 'k \<times> uint64"
    and ktomb :: "'k \<Rightarrow> int64 \<Rightarrow> int64 \<Rightarrow> uint64 \<Rightarrow> unit result \<times> 'k \<times> uint64"
    and kget :: "'k \<Rightarrow> int64 \<Rightarrow> (Revision \<times> Revision \<times> int64) result"
    and ksince :: "'k \<Rightarrow> int64 \<Rightarrow> Revision list result"
    and inv :: "'k \<Rightarrow> uint64 \<Rightarrow> bool"
    and hist :: "'k \<Rightarrow> history"
    and latest :: "'k \<Rightarrow> Revision"
  assumes inv_later: "inv k c \<Longrightarrow> c \<le> c' \<Longrightarrow> inv k c'"
    and hist_nonempty: "inv k c \<Longrightarrow> hist k \<noteq> [] \<and> fst (last (hist k)) = latest k"
    and hist_below: "inv k c \<Longrightarrow> (r, t) \<in> set (hist k) \<Longrightarrow> rev_key r \<le> rev_key (latest k)"
    and put_law: "inv k c \<Longrightarrow> GreaterThan (NewRevision m s ns) (latest k) \<Longrightarrow> sint m \<le> uint c \<Longrightarrow>
      uint c + 1 < 2 ^ 63 \<Longrightarrow> kput k m s ns c = (k', c') \<Longrightarrow>
      inv k' c' \<and> hist k' = hist k @ [(NewRevision m s ns, False)]"
    and tomb_law: "inv k c \<Longrightarrow> GreaterThan (NewRevision m s []) (latest k) \<Longrightarrow> sint m \<le> uint c \<Longrightarrow>
      uint c + 1 < 2 ^ 63 \<Longrightarrow> ktomb k m s c = (res, k', c') \<Longrightarrow>
      inv k' c' \<and> (if snd (last (hist k)) then res = Err ErrRevisionNotFound \<and> k' = k \<and> c' = c
                    else res = Ok () \<and> hist k' = hist k @ [(NewRevision m s [], True)])"
    and get_law: "inv k c \<Longrightarrow> reads (kget k rv) (hist k) rv"
    and since_law: "inv k c \<Longrightarrow> ksince k rv = Ok (since_spec (hist k) rv)"
begin

lemma get_latest:
  assumes "inv k c" and "\<not> snd (last (hist k))"
  shows "\<exists>cr v. kget k (main (latest k)) = Ok (latest k, cr, v)"
proof -
  have ne: "hist k \<noteq> []" and l: "fst (last (hist k)) = latest k" using hist_nonempty [OF assms(1)] by auto
  have "sint (main r) \<le> sint (main (latest k))" if "(r, t) \<in> set (hist k)" for r t
    using hist_below [OF assms(1) that] by (auto simp: rev_key_def less_eq_prod_def)
  then have "upto_main (main (latest k)) (hist k) = hist k" by (intro upto_main_id) auto
  then have "visible (hist k) (main (latest k)) = Some (latest k)"
    using ne l assms(2) by (simp add: visible_def)
  then show ?thesis using get_law [OF assms(1), of "main (latest k)"] by (auto simp: reads_def)
qed

lemma get_deleted:
  assumes "inv k c" and "snd (last (hist k))"
  shows "kget k (main (latest k)) = Err ErrRevisionNotFound"
proof -
  have "sint (main r) \<le> sint (main (latest k))" if "(r, t) \<in> set (hist k)" for r t
    using hist_below [OF assms(1) that] by (auto simp: rev_key_def less_eq_prod_def)
  then have "upto_main (main (latest k)) (hist k) = hist k" by (intro upto_main_id) auto
  then have "visible (hist k) (main (latest k)) = None"
    using assms(2) by (simp add: visible_def)
  then show ?thesis using get_law [OF assms(1), of "main (latest k)"] by (simp add: reads_def)
qed

lemma visible_older:
  "sint rv < sint (main r) \<Longrightarrow> upto_main rv (h @ [(r, t)]) = upto_main rv h"
  by (simp add: upto_main_def)

lemma put_keeps_snapshots:
  assumes "inv k c" and "GreaterThan (NewRevision m s ns) (latest k)" and "sint m \<le> uint c"
    and "uint c + 1 < 2 ^ 63" and "kput k m s ns c = (k', c')" and "sint rv < sint m"
  shows "reads (kget k' rv) (hist k) rv"
proof -
  have k': "inv k' c'" and h: "hist k' = hist k @ [(NewRevision m s ns, False)]"
    using put_law [OF assms(1-5)] by auto
  from k' have "reads (kget k' rv) (hist k') rv" by (rule get_law)
  moreover have "upto_main rv (hist k') = upto_main rv (hist k)"
    using assms(6) h visible_older [of rv "NewRevision m s ns" "hist k" False]
    by (simp add: NewRevision_def)
  ultimately show ?thesis using reads_cong by blast
qed

end

lemma ki_inv_later: "ki_inv ki c \<Longrightarrow> c \<le> c' \<Longrightarrow> ki_inv ki c'"
  by (auto simp: ki_inv_def word_le_def intro: order.trans)

lemma last_map_fst: "h \<noteq> [] \<Longrightarrow> fst (last h) = last (map fst h)"
  by (simp add: last_map)

interpretation kidx: revision_index put tombstone get since ki_inv history modified
proof
  show "ki_inv k c'" if "ki_inv k c" "c \<le> c'" for k c c' using that by (rule ki_inv_later)
  show "history k \<noteq> [] \<and> fst (last (history k)) = modified k" if "ki_inv k c" for k c
  proof -
    have "map fst (history k) \<noteq> []" and "last (map fst (history k)) = modified k"
      using that by (simp_all add: ki_inv_def)
    then show ?thesis using last_map_fst by force
  qed
  show "rev_key r \<le> rev_key (modified k)" if "ki_inv k c" "(r, t) \<in> set (history k)" for k c r t
  proof -
    have "r \<in> set (map fst (history k))" using that(2) unfolding set_map by (rule image_eqI [rotated]) simp
    then show ?thesis using ki_inv_modified_max [OF that(1)] by simp
  qed
  show "ki_inv k' c' \<and> history k' = history k @ [(NewRevision m s ns, False)]"
    if "ki_inv k c" "GreaterThan (NewRevision m s ns) (modified k)" "sint m \<le> uint c"
      "uint c + 1 < 2 ^ 63" "put k m s ns c = (k', c')" for k c m s ns k' c'
    using put_inv [OF that(1) NewRevision_def that(2-5)] by simp
  show "ki_inv k' c' \<and> (if snd (last (history k)) then res = Err ErrRevisionNotFound \<and> k' = k \<and> c' = c
                    else res = Ok () \<and> history k' = history k @ [(NewRevision m s [], True)])"
    if "ki_inv k c" "GreaterThan (NewRevision m s []) (modified k)" "sint m \<le> uint c"
      "uint c + 1 < 2 ^ 63" "tombstone k m s c = (res, k', c')" for k c m s res k' c'
    using tombstone_inv [OF that(1) NewRevision_def that(2-5)] by simp
  show "reads (get k rv) (history k) rv" if "ki_inv k c" for k c rv
  proof (cases "findGeneration k rv")
    case None
    then show ?thesis using get_None_case [OF that] by (simp add: reads_def)
  next
    case (Some i)
    from get_Some_case [OF that Some] show ?thesis by (auto simp: reads_def)
  qed
  show "since k rv = Ok (since_spec (history k) rv)" if "ki_inv k c" for k c rv
    using that by (rule since_refines)
qed

section \<open>Running a sequence of operations\<close>

datatype key_op = KPut Revision | KTomb int64 int64

primrec op_rev :: "key_op \<Rightarrow> Revision" where
  "op_rev (KPut r) = r"
| "op_rev (KTomb m s) = NewRevision m s []"

primrec run_op :: "key_op \<Rightarrow> keyIndex \<times> uint64 \<Rightarrow> keyIndex \<times> uint64" where
  "run_op (KPut r) kc = put (fst kc) (main r) (sub r) (nodes r) (snd kc)"
| "run_op (KTomb m s) kc = snd (tombstone (fst kc) m s (snd kc))"

fun run_ops :: "key_op list \<Rightarrow> keyIndex \<times> uint64 \<Rightarrow> keyIndex \<times> uint64" where
  "run_ops [] kc = kc"
| "run_ops (x # xs) kc = run_ops xs (run_op x kc)"

text \<open>The history the operations describe: a tombstone on a key that is already deleted, or that
  was never created, leaves it as it is.\<close>

primrec spec_op :: "key_op \<Rightarrow> history \<Rightarrow> history" where
  "spec_op (KPut r) h = h @ [(r, False)]"
| "spec_op (KTomb m s) h = (if h = [] \<or> snd (last h) then h else h @ [(NewRevision m s [], True)])"

definition spec_ops :: "key_op list \<Rightarrow> history \<Rightarrow> history" where
  "spec_ops xs h = fold spec_op xs h"

text \<open>Operations in order: ever larger revisions, none above the counter, whose value stays in
  the range of \<^verbatim>\<open>int64\<close>.\<close>

definition in_order :: "uint64 \<Rightarrow> Revision \<Rightarrow> key_op list \<Rightarrow> bool" where
  "in_order c r0 xs \<longleftrightarrow>
     sorted_wrt (<) (rev_key r0 # map (rev_key \<circ> op_rev) xs) \<and>
     (\<forall>x \<in> set xs. sint (main (op_rev x)) \<le> uint c) \<and> uint c + int (length xs) < 2 ^ 63"

lemma put_counter: "put ki m s ns c = (ki', c') \<Longrightarrow> uint c + 1 < 2 ^ 63 \<Longrightarrow> uint c \<le> uint c' \<and> uint c' \<le> uint c + 1"
  by (auto simp: put_def Let_def GetGlobalIncreasingRevision_def sint_counter_Suc split: if_splits prod.splits)

lemma tombstone_counter: "tombstone ki m s c = (res, ki', c') \<Longrightarrow> uint c + 1 < 2 ^ 63 \<Longrightarrow>
    uint c \<le> uint c' \<and> uint c' \<le> uint c + 1"
  by (auto simp: tombstone_def Let_def split: if_splits prod.splits dest: put_counter)

lemma run_op_refines:
  assumes "ki_inv ki c" and "rev_key (modified ki) < rev_key (op_rev x)"
    and "sint (main (op_rev x)) \<le> uint c" and "uint c + 1 < 2 ^ 63" and "run_op x (ki, c) = (ki', c')"
  shows "ki_inv ki' c'" and "history ki' = spec_op x (history ki)"
    and "rev_key (modified ki') \<le> rev_key (op_rev x)" and "uint c \<le> uint c' \<and> uint c' \<le> uint c + 1"
proof -
  have ne: "history ki \<noteq> []" using kidx.hist_nonempty [OF assms(1)] by simp
  have *: "ki_inv ki' c' \<and> history ki' = spec_op x (history ki) \<and> (uint c \<le> uint c' \<and> uint c' \<le> uint c + 1)"
  proof (cases x)
    case (KPut r)
    then have "put ki (main r) (sub r) (nodes r) c = (ki', c')" and "r = NewRevision (main r) (sub r) (nodes r)"
      using assms(5) by (simp_all add: NewRevision_def)
    then show ?thesis
      using kidx.put_law [OF assms(1), of "main r" "sub r" "nodes r" ki' c'] put_counter assms(2-4) KPut
      by (simp add: GreaterThan_iff)
  next
    case (KTomb m s)
    obtain res where t: "tombstone ki m s c = (res, ki', c')"
      using assms(5) KTomb by (cases "tombstone ki m s c") simp
    show ?thesis
      using kidx.tomb_law [OF assms(1) _ _ assms(4) t] tombstone_counter [OF t assms(4)] assms(2,3) KTomb ne
        assms(1)
      by (auto simp: GreaterThan_iff NewRevision_def split: if_splits)
  qed
  then show inv': "ki_inv ki' c'" and h': "history ki' = spec_op x (history ki)"
    and "uint c \<le> uint c' \<and> uint c' \<le> uint c + 1" by auto
  have "modified ki' = fst (last (spec_op x (history ki)))"
    using kidx.hist_nonempty [OF inv'] h' by simp
  moreover have "fst (last (history ki)) = modified ki" using kidx.hist_nonempty [OF assms(1)] by simp
  ultimately show "rev_key (modified ki') \<le> rev_key (op_rev x)"
    using assms(2) by (cases x) auto
qed

lemma run_ops_refines:
  assumes "ki_inv ki c" and "in_order c (modified ki) xs" and "run_ops xs (ki, c) = (ki', c')"
  shows "ki_inv ki' c' \<and> history ki' = spec_ops xs (history ki)"
  using assms
proof (induction xs arbitrary: ki c)
  case (Cons x xs)
  obtain ki1 c1 where s: "run_op x (ki, c) = (ki1, c1)" by force
  have x: "rev_key (modified ki) < rev_key (op_rev x)" "sint (main (op_rev x)) \<le> uint c" "uint c + 1 < 2 ^ 63"
    using Cons.prems(2) by (auto simp: in_order_def)
  note r = run_op_refines [OF Cons.prems(1) x s]
  have "\<forall>y \<in> set xs. rev_key (op_rev x) < rev_key (op_rev y)"
    using Cons.prems(2) by (simp add: in_order_def)
  then have "\<forall>y \<in> set xs. rev_key (modified ki1) < rev_key (op_rev y)"
    using r(3) by (auto intro: le_less_trans)
  then have "in_order c1 (modified ki1) xs"
    using Cons.prems(2) r(4) by (auto simp: in_order_def intro: order.trans)
  with Cons.IH [OF r(1)] Cons.prems(3) s r(2) show ?case by (simp add: spec_ops_def)
qed (simp add: spec_ops_def)

section \<open>Properties\<close>

text \<open>C12: A key index built by any sequence of puts and tombstones with increasing revisions, the
  first one a put, is the history of the key: the generations hold exactly the operations that
  took effect, \<^verbatim>\<open>get\<close> at any revision returns the newest revision at or before it with its
  version, or \<^verbatim>\<open>ErrRevisionNotFound\<close> when that is a tombstone or there is none, and \<^verbatim>\<open>since\<close>
  returns the revisions from a given one on, one per main revision, in order. No call panics.\<close>

theorem key_index_refines_history:
  assumes "in_order c zeroRevision (KPut r # xs)" and "0 < sint (main r)"
    and "run_ops (KPut r # xs) (newKeyIndex k, c) = (ki, c')"
  shows "history ki = spec_ops (KPut r # xs) [] \<and>
    (\<forall>rv. reads (get ki rv) (spec_ops (KPut r # xs) []) rv) \<and>
    (\<forall>rv. since ki rv = Ok (since_spec (spec_ops (KPut r # xs) []) rv))"
proof -
  obtain ki1 c1 where p: "put (newKeyIndex k) (main r) (sub r) (nodes r) c = (ki1, c1)" by force
  have pre: "sint (main r) \<le> uint c" "uint c + 1 < 2 ^ 63" using assms(1) by (auto simp: in_order_def)
  have f: "ki_inv ki1 c1" "history ki1 = [(r, False)]"
    using put_first_inv [OF _ assms(2) pre p] by simp_all
  then have m: "modified ki1 = r" using kidx.hist_nonempty [of ki1 c1] by simp
  have "in_order c1 (modified ki1) xs"
    using assms(1) m put_counter [OF p pre(2)] by (auto simp: in_order_def intro: order.trans)
  from run_ops_refines [OF f(1) this] have "ki_inv ki c'" and "history ki = spec_ops (KPut r # xs) []"
    using assms(3) p f(2) by (simp_all add: spec_ops_def)
  then show ?thesis using kidx.get_law kidx.since_law by metis
qed

abbreviation doc_ops :: "key_op list" where
  "doc_ops \<equiv> [KPut (NewRevision 1 0 [''a'']), KPut (NewRevision 2 0 [''b'']), KTomb 3 0,
              KPut (NewRevision 4 0 [''c'']), KTomb 5 0]"

text \<open>The example of the comment at the head of \<^verbatim>\<open>key_index.go\<close>.\<close>

theorem key_index_refines_history_witness:
  "let ki = fst (run_ops doc_ops (newKeyIndex ''foo'', 5)) in
   history ki = [(NewRevision 1 0 [''a''], False), (NewRevision 2 0 [''b''], False), (NewRevision 3 0 [], True),
                 (NewRevision 4 0 [''c''], False), (NewRevision 5 0 [], True)] \<and>
   map (map main \<circ> revs) (generations ki) = [[1, 2, 3], [4, 5], []] \<and>
   reads (get ki 2) (history ki) 2 \<and> get ki 3 = Err ErrRevisionNotFound"
proof -
  obtain ki c' where run: "run_ops doc_ops (newKeyIndex ''foo'', 5) = (ki, c')" by force
  have ord: "in_order 5 zeroRevision doc_ops"
    by (simp add: in_order_def zeroRevision_def rev_key_def NewRevision_def)
  have sp: "spec_ops doc_ops [] = [(NewRevision 1 0 [''a''], False), (NewRevision 2 0 [''b''], False),
      (NewRevision 3 0 [], True), (NewRevision 4 0 [''c''], False), (NewRevision 5 0 [], True)]"
    by (simp add: spec_ops_def)
  have shape: "map (map main \<circ> revs) (generations ki) = [[1, 2, 3], [4, 5], []]"
    using run by (auto simp: put_def tombstone_def newKeyIndex_def Let_def NewRevision_def zeroRevision_def
        emptyGeneration_def put_revs_def GreaterThan_def GetGlobalIncreasingRevision_def ki_isEmpty_def gen_isEmpty_def)
  have t: "history ki = spec_ops doc_ops []" "\<forall>rv. reads (get ki rv) (spec_ops doc_ops []) rv"
    using key_index_refines_history [OF ord _ run] by (simp_all add: NewRevision_def)
  have "visible (spec_ops doc_ops []) 3 = None"
    unfolding sp by (simp add: visible_def upto_main_def NewRevision_def)
  then have "get ki 3 = Err ErrRevisionNotFound" using t(2) [THEN spec, of 3] by (simp add: reads_def)
  with t shape sp run show ?thesis by simp
qed

text \<open>C27: Revisions may reach a key index in any order (concurrent writers draw a revision before
  they reach the index). Whatever the order, \<^verbatim>\<open>put\<close> keeps every revision, keeps each generation
  sorted, and keeps \<^verbatim>\<open>modified\<close> the largest revision of the key.\<close>

theorem put_any_order:
  assumes "generations ki = [] \<or> ki_ok ki" and "put ki m s ns c = (ki', c')"
  shows "ki_ok ki' \<and> mset (all_revs ki') = add_mset (NewRevision m s ns) (mset (all_revs ki)) \<and>
    rev_key (modified ki') = max (rev_key (modified ki)) (rev_key (NewRevision m s ns))"
proof -
  have mset: "mset (put_revs x l rs) = add_mset x (mset rs)" for x l rs
  proof (cases "GreaterThan x l")
    case False
    have "mset (take i rs) + mset (drop i rs) = mset rs" for i
      by (metis append_take_drop_id mset_append)
    with False show ?thesis by (simp add: put_revs_stale Let_def)
  qed (simp add: put_revs_newer)
  have main: "mset (all_revs (fst (put q m s ns c))) = add_mset (NewRevision m s ns) (mset (all_revs q)) \<and>
     rev_key (modified (fst (put q m s ns c))) = max (rev_key (modified q)) (rev_key (NewRevision m s ns))"
    if q: "ki_ok q" for q
  proof -
    obtain gs g where g: "generations q = gs @ [g]" using q by (rule ki_ok_snoc)
    show ?thesis
      by (simp add: put_eq [OF g] g all_revs_def mset NewRevision_def Let_def GreaterThan_iff max_def
          less_imp_le)
  qed
  have "ki_ok ki'" using put_ki_ok [OF assms(1), of m s ns c] assms(2) by simp
  moreover have "mset (all_revs ki') = add_mset (NewRevision m s ns) (mset (all_revs ki)) \<and>
    rev_key (modified ki') = max (rev_key (modified ki)) (rev_key (NewRevision m s ns))"
  proof (cases "generations ki = []")
    case True
    have "fst (put (ki\<lparr>generations := [emptyGeneration]\<rparr>) m s ns c) = ki'"
      by (metis put_Nil [OF True] assms(2) fst_conv)
    then show ?thesis
      using main [OF ki_ok_Nil [OF True]] True by (simp add: all_revs_def emptyGeneration_def)
  next
    case False
    then show ?thesis using main assms by fastforce
  qed
  ultimately show ?thesis by blast
qed

theorem put_any_order_witness:
  "let ki = fst (put (newKeyIndex ''k'') 7 0 [''b''] 8); ki' = fst (put ki 5 0 [''a''] 9) in
   map main (all_revs ki') = [5, 7] \<and> ki_ok ki' \<and> main (modified ki') = 7"
proof -
  define ki ki' where "ki = fst (put (newKeyIndex ''k'') 7 0 [''b''] 8)" and "ki' = fst (put ki 5 0 [''a''] 9)"
  have eval: "map main (all_revs ki') = [5, 7]" "main (modified ki') = 7"
    by (simp_all add: ki_def ki'_def put_def newKeyIndex_def Let_def zeroRevision_def all_revs_def
        emptyGeneration_def put_revs_def GreaterThan_def GetGlobalIncreasingRevision_def)
  have "ki_ok ki" using put_any_order [of "newKeyIndex ''k''" 7 0 "[''b'']" 8 ki "snd (put (newKeyIndex ''k'') 7 0 [''b''] 8)"]
    by (simp add: ki_def newKeyIndex_def)
  then have "ki_ok ki'" using put_any_order [of ki 5 0 "[''a'']" 9 ki' "snd (put ki 5 0 [''a''] 9)"]
    by (simp add: ki'_def)
  with eval show ?thesis by (simp add: ki_def ki'_def)
qed

text \<open>A read at a revision below a new one is a snapshot: \<^verbatim>\<open>put\<close> of a newer revision changes
  neither the revision nor the version that \<^verbatim>\<open>get\<close> returns there.\<close>

theorem put_keeps_older_reads:
  assumes "ki_inv ki c" and "GreaterThan (NewRevision m s ns) (modified ki)" and "sint m \<le> uint c"
    and "uint c + 1 < 2 ^ 63" and "put ki m s ns c = (ki', c')" and "sint rv < sint m"
  shows "reads (get ki' rv) (history ki) rv \<and> reads (get ki rv) (history ki) rv"
  using kidx.put_keeps_snapshots [OF assms] kidx.get_law [OF assms(1)] by simp

theorem put_keeps_older_reads_witness:
  "let ki = fst (put (newKeyIndex ''k'') 1 0 [''a''] 1); ki' = fst (put ki 3 0 [''b''] 3) in
   reads (get ki' 2) [(NewRevision 1 0 [''a''], False)] 2"
proof -
  define ki c1 ki' c2 where "ki = fst (put (newKeyIndex ''k'') 1 0 [''a''] 1)"
    and "c1 = snd (put (newKeyIndex ''k'') 1 0 [''a''] 1)"
    and "ki' = fst (put ki 3 0 [''b''] 3)" and "c2 = snd (put ki 3 0 [''b''] 3)"
  have p: "put (newKeyIndex ''k'') 1 0 [''a''] 1 = (ki, c1)" "put ki 3 0 [''b''] 3 = (ki', c2)"
    by (simp_all add: ki_def c1_def ki'_def c2_def)
  have i: "ki_inv ki c1" "history ki = [(NewRevision 1 0 [''a''], False)]"
    using put_first_inv [OF NewRevision_def [of 1 0 "[''a'']"] _ _ _ p(1)] by simp_all
  have "c1 = 2" by (simp add: c1_def put_def newKeyIndex_def Let_def emptyGeneration_def
        GetGlobalIncreasingRevision_def)
  then have "ki_inv ki 3" using ki_inv_later [OF i(1), of 3] by simp
  moreover have "modified ki = NewRevision 1 0 [''a'']" using kidx.hist_nonempty [OF i(1)] i(2) by simp
  ultimately have "reads (get ki' 2) (history ki) 2"
    using put_keeps_older_reads [of ki 3 3 0 "[''b'']" ki' c2 2] p(2)
    by (simp add: GreaterThan_def NewRevision_def)
  then show ?thesis using i(2) by (simp add: ki_def [symmetric] ki'_def [symmetric])
qed

text \<open>\<^verbatim>\<open>update\<close> is a compare-and-set: of two updates that assume the same latest revision,
  run one after the other with new revisions above it, the second fails with the error and
  leaves the key index as the first made it, also when the first carried the larger revision.\<close>

theorem update_compare_and_set:
  assumes "main (modified ki) = a" and "sint a < sint m1"
    and "update ki m1 s1 ns1 a c = (res1, ki1, c1)" and "update ki1 m2 s2 ns2 a c1 = (res2, ki2, c2)"
  shows "res1 = Ok () \<and> NewRevision m1 s1 ns1 = modified ki1 \<and> res2 = Err ErrNotLatest \<and>
    ki2 = ki1 \<and> c2 = c1"
proof -
  have p: "put ki m1 s1 ns1 c = (ki1, c1)" and r1: "res1 = Ok ()"
    using assms(1,3) by (auto simp: update_def split: prod.splits)
  have "GreaterThan (NewRevision m1 s1 ns1) (modified ki)"
    using assms(1,2) by (simp add: GreaterThan_def NewRevision_def)
  then have m: "modified ki1 = NewRevision m1 s1 ns1"
    using p by (auto simp: put_def NewRevision_def Let_def split: prod.splits)
  then have "main (modified ki1) \<noteq> a" using assms(2) by (auto simp: NewRevision_def)
  with assms(4) m r1 show ?thesis by (simp add: update_def)
qed

theorem update_compare_and_set_witness:
  "\<exists>ki1 c1. update (fst (put (newKeyIndex ''k'') 1 0 [] 1)) 3 0 [''a''] 1 3 = (Ok (), ki1, c1) \<and>
     update ki1 4 0 [''b''] 1 c1 = (Err ErrNotLatest, ki1, c1)"
proof -
  let ?ki = "fst (put (newKeyIndex ''k'') 1 0 [] 1)"
  have m: "main (modified ?ki) = 1"
    by (simp add: put_def newKeyIndex_def Let_def zeroRevision_def GreaterThan_def split: prod.splits)
  obtain r1 ki1 c1 where u: "update ?ki 3 0 [''a''] 1 3 = (r1, ki1, c1)" by (metis prod_cases3)
  obtain r2 ki2 c2 where v: "update ki1 4 0 [''b''] 1 c1 = (r2, ki2, c2)" by (metis prod_cases3)
  show ?thesis using update_compare_and_set [OF m _ u v] u v by simp
qed

abbreviation stale_ki :: keyIndex where
  "stale_ki \<equiv> fst (run_ops [KPut (NewRevision 98 0 []), KPut (NewRevision 100 0 []), KPut (NewRevision 99 0 [])]
                   (newKeyIndex ''k'', 100))"

text \<open>A revision that arrives late within its generation is stored but does not count as a
  version: after puts of revisions 98, 100 and then 99, the version \<^verbatim>\<open>get\<close> reports at revision 98 is
  0, although 98 is the first of the three revisions.\<close>

theorem stale_put_breaks_version:
  "map main (all_revs stale_ki) = [98, 99, 100] \<and>
   (\<exists>cr. get stale_ki 98 = Ok (NewRevision 98 0 [], cr, 0)) \<and>
   (\<exists>cr. get stale_ki 100 = Ok (NewRevision 100 0 [], cr, 2))"
  by (simp add: put_def newKeyIndex_def Let_def NewRevision_def zeroRevision_def all_revs_def
      emptyGeneration_def put_revs_def GreaterThan_def GetGlobalIncreasingRevision_def get_def
      ki_isEmpty_def gen_isEmpty_def findGeneration_def walk_def numeral_eq_Suc)

text \<open>A put that arrives after a tombstone with a larger revision starts the next generation:
  the deleted key is readable again at the revision of its tombstone and above.\<close>

theorem late_put_revives_key:
  "let ki = fst (run_ops [KPut (NewRevision 1 0 []), KTomb 3 0] (newKeyIndex ''k'', 3));
       ki' = fst (put ki 2 0 [''n''] 4) in
   get ki 3 = Err ErrRevisionNotFound \<and>
   main (modified ki') = 3 \<and> (\<exists>cr. get ki' 3 = Ok (NewRevision 2 0 [''n''], cr, 0))"
  by (simp add: put_def tombstone_def newKeyIndex_def Let_def NewRevision_def zeroRevision_def
      emptyGeneration_def put_revs_def GreaterThan_def GetGlobalIncreasingRevision_def get_def
      ki_isEmpty_def gen_isEmpty_def findGeneration_def walk_def)

text \<open>\<^verbatim>\<open>generation.equal\<close> compares the revisions of two generations with a conjunction: it
  ignores their main parts whenever the sub parts agree, as they do for all revisions the
  service creates.\<close>

theorem generation_equal_ignores_main:
  assumes "ver a = ver b" and "length (revs a) = length (revs b)"
    and "\<forall>r \<in> set (revs a) \<union> set (revs b). sub r = 0"
  shows "gen_equal a b"
  using assms by (auto simp: gen_equal_def list_all2_conv_all_nth)

theorem generation_equal_ignores_main_witness:
  "gen_equal \<lparr>ver = 1, created = zeroRevision, revs = [NewRevision 1 0 []]\<rparr>
             \<lparr>ver = 1, created = zeroRevision, revs = [NewRevision 2 0 []]\<rparr> \<and>
   NewRevision 1 0 [] \<noteq> NewRevision 2 0 []"
  using generation_equal_ignores_main [of
      "\<lparr>ver = 1, created = zeroRevision, revs = [NewRevision 1 0 []]\<rparr>"
      "\<lparr>ver = 1, created = zeroRevision, revs = [NewRevision 2 0 []]\<rparr>"]
  by (simp add: NewRevision_def)

end
