(* ===== verification/Tree_Index.thy ===== *)
theory Tree_Index
  imports Key_History
begin

text \<open>
  The index over all keys (\<^verbatim>\<open>pkg/index/index.go\<close>). The tree of the \<^verbatim>\<open>btree\<close> package is used as
  an ordered collection of key indexes: it is modelled by the list of its items in ascending
  order, and the facts the index needs about it are an interface, \<open>ordered_tree\<close>; that the tree
  implements the list is shown in \<open>Index_B_Tree\<close>. The locks
  make each operation one step; \<^verbatim>\<open>Update\<close>, which changes the key index under the read lock
  only, is also modelled as the two steps that can interleave.
\<close>

section \<open>The ordered tree\<close>

text \<open>\<^verbatim>\<open>Get\<close>: the item that is neither less nor greater than the key; \<^verbatim>\<open>ReplaceOrInsert\<close>.\<close>

fun tree_Get :: "keyIndex list \<Rightarrow> keyIndex \<Rightarrow> keyIndex option" where
  "tree_Get [] q = None"
| "tree_Get (i # t) q = (if ki_Less i q then tree_Get t q else if ki_Less q i then None else Some i)"

fun tree_ReplaceOrInsert :: "keyIndex \<Rightarrow> keyIndex list \<Rightarrow> keyIndex list" where
  "tree_ReplaceOrInsert q [] = [q]"
| "tree_ReplaceOrInsert q (i # t) =
     (if ki_Less i q then i # tree_ReplaceOrInsert q t
      else if ki_Less q i then q # i # t else q # t)"

text \<open>The items from \<open>q\<close> on, which \<^verbatim>\<open>AscendGreaterOrEqual\<close> passes to its iterator.\<close>

definition tree_from :: "keyIndex list \<Rightarrow> keyIndex \<Rightarrow> keyIndex list" where
  "tree_from t q = dropWhile (\<lambda>i. ki_Less i q) t"

text \<open>A change made through the pointer that \<^verbatim>\<open>Get\<close> returned.\<close>

definition tree_mutate :: "keyIndex \<Rightarrow> keyIndex list \<Rightarrow> keyIndex list" where
  "tree_mutate q t = map (\<lambda>i. if ki_key i = ki_key q then q else i) t"

definition tree_ok :: "keyIndex list \<Rightarrow> bool" where
  "tree_ok t \<longleftrightarrow> sorted_wrt (<) (map ki_key t)"

section \<open>The operations of the index\<close>

record treeIndex =
  tree :: "keyIndex list"

definition NewTreeIndex :: treeIndex where
  "NewTreeIndex = \<lparr>tree = []\<rparr>"

definition Put :: "treeIndex \<Rightarrow> bytes \<Rightarrow> Revision \<Rightarrow> uint64 \<Rightarrow> treeIndex \<times> uint64" where
  "Put ti key r c =
     (case tree_Get (tree ti) (newKeyIndex key) of
        None \<Rightarrow>
          (let (ki, c') = put (newKeyIndex key) (main r) (sub r) (nodes r) c
           in (ti\<lparr>tree := tree_ReplaceOrInsert ki (tree ti)\<rparr>, c'))
      | Some oki \<Rightarrow>
          (let (ki, c') = put oki (main r) (sub r) (nodes r) c
           in (ti\<lparr>tree := tree_mutate ki (tree ti)\<rparr>, c')))"

definition Restore :: "treeIndex \<Rightarrow> bytes \<Rightarrow> Revision \<Rightarrow> Revision \<Rightarrow> int64 \<Rightarrow> uint64
    \<Rightarrow> unit result \<times> treeIndex \<times> uint64" where
  "Restore ti key cr mo v c =
     (case tree_Get (tree ti) (newKeyIndex key) of
        None \<Rightarrow>
          (case restore (newKeyIndex key) cr mo v of
             Ok ki \<Rightarrow> (Ok (), ti\<lparr>tree := tree_ReplaceOrInsert ki (tree ti)\<rparr>, c)
           | Err e \<Rightarrow> (Err e, ti, c)
           | Panic p \<Rightarrow> (Panic p, ti, c))
      | Some oki \<Rightarrow>
          (let (ki, c') = put oki (main mo) (sub mo) (nodes mo) c
           in (Ok (), ti\<lparr>tree := tree_mutate ki (tree ti)\<rparr>, c')))"

definition Get :: "treeIndex \<Rightarrow> bytes \<Rightarrow> int64 \<Rightarrow> (Revision \<times> Revision \<times> int64) result" where
  "Get ti key atRev =
     (case tree_Get (tree ti) (newKeyIndex key) of
        None \<Rightarrow> Err ErrRevisionNotFound
      | Some ki \<Rightarrow> if atRev = 0 then get ki (main (modified ki)) else get ki atRev)"

text \<open>The iterator of \<^verbatim>\<open>Range\<close>: it stops at the end key (an empty end means no bound) and skips
  keys that have no revision at \<^verbatim>\<open>atRev\<close>.\<close>

fun Range_loop :: "keyIndex list \<Rightarrow> bytes \<Rightarrow> int64 \<Rightarrow> (bytes \<times> Revision) list result" where
  "Range_loop [] e atRev = Ok []"
| "Range_loop (i # t) e atRev =
     (if 0 < length e \<and> \<not> ki_Less i (newKeyIndex e) then Ok []
      else case get i atRev of
             Ok (r, _, _) \<Rightarrow> result_bind (Range_loop t e atRev) (\<lambda>out. Ok ((ki_key i, r) # out))
           | Err _ \<Rightarrow> Range_loop t e atRev
           | Panic p \<Rightarrow> Panic p)"

definition Range :: "treeIndex \<Rightarrow> bytes \<Rightarrow> bytes option \<Rightarrow> int64 \<Rightarrow> (bytes \<times> Revision) list result" where
  "Range ti key end_key atRev =
     (case end_key of
        None \<Rightarrow>
          (case Get ti key atRev of
             Ok (r, _, _) \<Rightarrow> Ok [(key, r)] | Err _ \<Rightarrow> Ok [] | Panic p \<Rightarrow> Panic p)
      | Some e \<Rightarrow> Range_loop (tree_from (tree ti) (newKeyIndex key)) e atRev)"

definition Tombstone :: "treeIndex \<Rightarrow> bytes \<Rightarrow> Revision \<Rightarrow> uint64 \<Rightarrow> unit result \<times> treeIndex \<times> uint64" where
  "Tombstone ti key r c =
     (case tree_Get (tree ti) (newKeyIndex key) of
        None \<Rightarrow> (Err ErrRevisionNotFound, ti, c)
      | Some oki \<Rightarrow>
          (let (res, ki, c') = tombstone oki (main r) (sub r) c
           in (res, ti\<lparr>tree := tree_mutate ki (tree ti)\<rparr>, c')))"

fun RangeSince_loop :: "keyIndex list \<Rightarrow> bytes \<Rightarrow> int64 \<Rightarrow> Revision list result" where
  "RangeSince_loop [] e rv = Ok []"
| "RangeSince_loop (i # t) e rv =
     (if 0 < length e \<and> \<not> ki_Less i (newKeyIndex e) then Ok []
      else result_bind (since i rv) (\<lambda>rs. result_bind (RangeSince_loop t e rv) (\<lambda>out. Ok (rs @ out))))"

text \<open>\<^verbatim>\<open>sort.Sort(Revisions(revs))\<close> is the parameter \<open>srt\<close>, with the order of \<^verbatim>\<open>Revisions.Less\<close>.\<close>

definition RangeSince :: "((Revision \<Rightarrow> Revision \<Rightarrow> bool) \<Rightarrow> Revision list \<Rightarrow> Revision list)
    \<Rightarrow> treeIndex \<Rightarrow> bytes \<Rightarrow> bytes option \<Rightarrow> int64 \<Rightarrow> Revision list result" where
  "RangeSince srt ti key end_key rv =
     (case end_key of
        None \<Rightarrow>
          (case tree_Get (tree ti) (newKeyIndex key) of None \<Rightarrow> Ok [] | Some ki \<Rightarrow> since ki rv)
      | Some e \<Rightarrow>
          result_bind (RangeSince_loop (tree_from (tree ti) (newKeyIndex key)) e rv)
            (\<lambda>rs. Ok (srt (\<lambda>a b. GreaterThan b a) rs)))"

text \<open>\<^verbatim>\<open>Equal\<close>: the type assertion on the result of \<^verbatim>\<open>b.tree.Get\<close> panics when there is no such key.\<close>

fun Equal_loop :: "keyIndex list \<Rightarrow> keyIndex list \<Rightarrow> bool result" where
  "Equal_loop [] b = Ok True"
| "Equal_loop (i # t) b =
     (case tree_Get b i of
        None \<Rightarrow> Panic InterfaceConversion
      | Some j \<Rightarrow> if \<not> ki_equal i j then Ok False else Equal_loop t b)"

definition Equal :: "treeIndex \<Rightarrow> treeIndex \<Rightarrow> bool result" where
  "Equal a b =
     (if length (tree a) \<noteq> length (tree b) then Ok False else Equal_loop (tree a) (tree b))"

definition Update :: "treeIndex \<Rightarrow> bytes \<Rightarrow> Revision \<Rightarrow> int64 \<Rightarrow> uint64 \<Rightarrow> unit result \<times> treeIndex \<times> uint64" where
  "Update ti key r revAssumed c =
     (case tree_Get (tree ti) (newKeyIndex key) of
        None \<Rightarrow> (Err ErrRevisionNotFound, ti, c)
      | Some oki \<Rightarrow>
          (let (res, ki, c') = update oki (main r) (sub r) (nodes r) revAssumed c
           in (res, ti\<lparr>tree := tree_mutate ki (tree ti)\<rparr>, c')))"

section \<open>The interface of an ordered tree\<close>

locale ordered_tree =
  fixes tget :: "'t \<Rightarrow> keyIndex \<Rightarrow> keyIndex option"
    and tins :: "keyIndex \<Rightarrow> 't \<Rightarrow> 't"
    and tmut :: "keyIndex \<Rightarrow> 't \<Rightarrow> 't"
    and items :: "'t \<Rightarrow> keyIndex list"
    and ok :: "'t \<Rightarrow> bool"
  assumes items_sorted: "ok t \<Longrightarrow> sorted_wrt (<) (map ki_key (items t))"
    and get_iff: "ok t \<Longrightarrow> tget t q = Some i \<longleftrightarrow> i \<in> set (items t) \<and> ki_key i = ki_key q"
    and ins_ok: "ok t \<Longrightarrow> ok (tins q t)"
    and ins_items: "ok t \<Longrightarrow> set (items (tins q t)) = insert q {i \<in> set (items t). ki_key i \<noteq> ki_key q}"
    and mut_ok: "ok t \<Longrightarrow> ok (tmut q t)"
    and mut_items: "tget t q = Some i \<Longrightarrow> ok t \<Longrightarrow>
      set (items (tmut q t)) = insert q {j \<in> set (items t). ki_key j \<noteq> ki_key q}"
begin

text \<open>The tree as a map from keys to what a function \<open>f\<close> sees of their key index.\<close>

lemma get_same:
  assumes "ok t" and "i \<in> set (items t)"
  shows "tget t (newKeyIndex (ki_key i)) = Some i"
  using assms get_iff by (simp add: newKeyIndex_def)

lemma get_None_iff: "ok t \<Longrightarrow> tget t q = None \<longleftrightarrow> ki_key q \<notin> ki_key ` set (items t)"
  using get_iff by (metis (no_types, opaque_lifting) imageE image_eqI not_None_eq)

lemma ins_get:
  assumes "ok t"
  shows "tget (tins q t) (newKeyIndex k) = (if k = ki_key q then Some q else tget t (newKeyIndex k))"
proof -
  have "tget (tins q t) (newKeyIndex k) = Some i \<longleftrightarrow>
      (if k = ki_key q then i = q else tget t (newKeyIndex k) = Some i)" for i
    using assms by (auto simp: get_iff ins_ok ins_items newKeyIndex_def)
  then show ?thesis by (metis option.collapse option.distinct(1))
qed

lemma mut_get:
  assumes "ok t" and "tget t (newKeyIndex (ki_key q)) = Some i"
  shows "tget (tmut q t) (newKeyIndex k) = (if k = ki_key q then Some q else tget t (newKeyIndex k))"
proof -
  have "tget t q = Some i" using assms get_iff by (simp add: newKeyIndex_def)
  then have "tget (tmut q t) (newKeyIndex k) = Some j \<longleftrightarrow>
      (if k = ki_key q then j = q else tget t (newKeyIndex k) = Some j)" for j
    using assms(1) by (auto simp: get_iff mut_ok mut_items newKeyIndex_def)
  then show ?thesis by (metis option.collapse option.distinct(1))
qed

end

lemma tree_Get_iff: "tree_ok t \<Longrightarrow> tree_Get t q = Some i \<longleftrightarrow> i \<in> set t \<and> ki_key i = ki_key q"
  by (induction t) (auto simp: tree_ok_def ki_Less_def)

lemma set_tree_ReplaceOrInsert:
  "tree_ok t \<Longrightarrow> set (tree_ReplaceOrInsert q t) = insert q {i \<in> set t. ki_key i \<noteq> ki_key q}"
  by (induction t) (auto simp: tree_ok_def ki_Less_def)

lemma tree_ok_ReplaceOrInsert: "tree_ok t \<Longrightarrow> tree_ok (tree_ReplaceOrInsert q t)"
proof (induction t)
  case (Cons i t)
  then have "tree_ok t" by (simp add: tree_ok_def)
  with Cons show ?case
    by (auto simp: tree_ok_def ki_Less_def set_tree_ReplaceOrInsert)
qed (simp add: tree_ok_def)

lemma map_ki_key_mutate [simp]: "map ki_key (tree_mutate q t) = map ki_key t"
  by (simp add: tree_mutate_def)

interpretation bt: ordered_tree tree_Get tree_ReplaceOrInsert tree_mutate "\<lambda>t. t" tree_ok
proof
  show "sorted_wrt (<) (map ki_key t)" if "tree_ok t" for t using that by (simp add: tree_ok_def)
  show "tree_Get t q = Some i \<longleftrightarrow> i \<in> set t \<and> ki_key i = ki_key q" if "tree_ok t" for t q i
    using that by (rule tree_Get_iff)
  show "tree_ok (tree_ReplaceOrInsert q t)" if "tree_ok t" for q t
    using that by (rule tree_ok_ReplaceOrInsert)
  show "set (tree_ReplaceOrInsert q t) = insert q {i \<in> set t. ki_key i \<noteq> ki_key q}" if "tree_ok t" for q t
    using that by (rule set_tree_ReplaceOrInsert)
  show "tree_ok (tree_mutate q t)" if "tree_ok t" for q t using that by (simp add: tree_ok_def)
  show "set (tree_mutate q t) = insert q {j \<in> set t. ki_key j \<noteq> ki_key q}"
    if "tree_Get t q = Some i" "tree_ok t" for t q i
    using that by (auto simp: tree_Get_iff tree_mutate_def)
qed

section \<open>The histories of all keys\<close>

abbreviation lookup :: "treeIndex \<Rightarrow> bytes \<Rightarrow> keyIndex option" where
  "lookup ti k \<equiv> tree_Get (tree ti) (newKeyIndex k)"

definition ti_hist :: "treeIndex \<Rightarrow> bytes \<Rightarrow> history" where
  "ti_hist ti k = (case lookup ti k of None \<Rightarrow> [] | Some ki \<Rightarrow> history ki)"

definition ti_inv :: "treeIndex \<Rightarrow> uint64 \<Rightarrow> bool" where
  "ti_inv ti c \<longleftrightarrow> tree_ok (tree ti) \<and> (\<forall>ki \<in> set (tree ti). ki_inv ki c)"

text \<open>What holds whatever the order in which revisions arrive.\<close>

definition ti_ok :: "treeIndex \<Rightarrow> bool" where
  "ti_ok ti \<longleftrightarrow> tree_ok (tree ti) \<and> (\<forall>ki \<in> set (tree ti). ki_live ki)"

lemma lookup_Some: "tree_ok (tree ti) \<Longrightarrow> lookup ti k = Some ki \<Longrightarrow> ki \<in> set (tree ti) \<and> ki_key ki = k"
  by (simp add: tree_Get_iff newKeyIndex_def)

lemma newKeyIndex_sel [simp]: "ki_key (newKeyIndex k) = k" "generations (newKeyIndex k) = []"
  by (simp_all add: newKeyIndex_def)

text \<open>An operation that stores \<open>q\<close> for its key, by insertion or through the pointer.\<close>

definition stored :: "treeIndex \<Rightarrow> keyIndex \<Rightarrow> treeIndex \<Rightarrow> bool" where
  "stored ti q ti' \<longleftrightarrow> tree_ok (tree ti') \<and> set (tree ti') = insert q {i \<in> set (tree ti). ki_key i \<noteq> ki_key q} \<and>
     (\<forall>k. lookup ti' k = (if k = ki_key q then Some q else lookup ti k))"

lemma stored_insert:
  "tree_ok (tree ti) \<Longrightarrow> stored ti q (ti\<lparr>tree := tree_ReplaceOrInsert q (tree ti)\<rparr>)"
  by (simp add: stored_def bt.ins_ok bt.ins_items bt.ins_get)

lemma stored_mutate:
  assumes "tree_ok (tree ti)" and "lookup ti (ki_key q) = Some i"
  shows "stored ti q (ti\<lparr>tree := tree_mutate q (tree ti)\<rparr>)"
proof -
  have "tree_Get (tree ti) q = Some i" using assms by (simp add: tree_Get_iff)
  then show ?thesis using assms by (simp add: stored_def bt.mut_ok bt.mut_items bt.mut_get)
qed

lemma stored_hist: "stored ti q ti' \<Longrightarrow> ti_hist ti' = (ti_hist ti)(ki_key q := history q)"
  by (auto simp: stored_def ti_hist_def)

lemma stored_ti_ok: "stored ti q ti' \<Longrightarrow> ti_ok ti \<Longrightarrow> ki_live q \<Longrightarrow> ti_ok ti'"
  by (auto simp: stored_def ti_ok_def)

lemma stored_ti_inv:
  assumes "stored ti q ti'" and "ti_inv ti c" and "ki_inv q c'" and "c \<le> c'"
  shows "ti_inv ti' c'"
  using assms by (auto simp: stored_def ti_inv_def intro: ki_inv_later)

lemma Put_stored:
  assumes "tree_ok (tree ti)" and "Put ti k r c = (ti', c')"
  obtains q where "put (case lookup ti k of None \<Rightarrow> newKeyIndex k | Some ki \<Rightarrow> ki) (main r) (sub r) (nodes r) c = (q, c')"
    and "stored ti q ti'" and "ki_key q = k"
proof (cases "lookup ti k")
  case None
  obtain q where q: "put (newKeyIndex k) (main r) (sub r) (nodes r) c = (q, c')"
    and ti': "ti' = ti\<lparr>tree := tree_ReplaceOrInsert q (tree ti)\<rparr>"
    using assms(2) None by (auto simp: Put_def split: prod.splits)
  have "ki_key q = k" using put_ki_key [of "newKeyIndex k" "main r" "sub r" "nodes r" c] q by simp
  with that q ti' None stored_insert [OF assms(1)] show thesis by simp
next
  case (Some ki)
  obtain q where q: "put ki (main r) (sub r) (nodes r) c = (q, c')"
    and ti': "ti' = ti\<lparr>tree := tree_mutate q (tree ti)\<rparr>"
    using assms(2) Some by (auto simp: Put_def split: prod.splits)
  have "ki_key q = k"
    using put_ki_key [of ki "main r" "sub r" "nodes r" c] q lookup_Some [OF assms(1) Some] by simp
  with that q ti' Some stored_mutate [OF assms(1)] show thesis by simp
qed

lemma put_ki_keyD: "put ki m s ns c = (ki', c') \<Longrightarrow> ki_key ki' = ki_key ki"
  by (metis put_ki_key fst_conv)

lemma tombstone_ki_key: "tombstone ki m s c = (res, ki', c') \<Longrightarrow> ki_key ki' = ki_key ki"
  by (auto simp: tombstone_def Let_def split: if_splits prod.splits dest: put_ki_keyD)

lemma update_ki_key: "update ki m s ns a c = (res, ki', c') \<Longrightarrow> ki_key ki' = ki_key ki"
  by (auto simp: update_def split: if_splits prod.splits dest: put_ki_keyD)

lemma Tombstone_stored:
  assumes "tree_ok (tree ti)" and "lookup ti k = Some ki" and "Tombstone ti k r c = (res, ti', c')"
  obtains q where "tombstone ki (main r) (sub r) c = (res, q, c')" and "stored ti q ti'" and "ki_key q = k"
proof -
  obtain q where q: "tombstone ki (main r) (sub r) c = (res, q, c')"
    and ti': "ti' = ti\<lparr>tree := tree_mutate q (tree ti)\<rparr>"
    using assms(2,3) by (auto simp: Tombstone_def split: prod.splits)
  have "ki_key q = k" using tombstone_ki_key [OF q] lookup_Some [OF assms(1,2)] by simp
  with that q ti' stored_mutate [OF assms(1)] assms(2) show thesis by simp
qed

lemma Update_stored:
  assumes "tree_ok (tree ti)" and "lookup ti k = Some ki" and "Update ti k r a c = (res, ti', c')"
  obtains q where "update ki (main r) (sub r) (nodes r) a c = (res, q, c')" and "stored ti q ti'" and "ki_key q = k"
proof -
  obtain q where q: "update ki (main r) (sub r) (nodes r) a c = (res, q, c')"
    and ti': "ti' = ti\<lparr>tree := tree_mutate q (tree ti)\<rparr>"
    using assms(2,3) by (auto simp: Update_def split: prod.splits)
  have "ki_key q = k" using update_ki_key [OF q] lookup_Some [OF assms(1,2)] by simp
  with that q ti' stored_mutate [OF assms(1)] assms(2) show thesis by simp
qed

section \<open>Revisions in order: the index implements the histories\<close>

lemma Put_refines [keeps_inv]:
  assumes "ti_inv ti c" and "0 < sint (main r)" and "sint (main r) \<le> uint c" and "uint c + 1 < 2 ^ 63"
    and "\<forall>ki. lookup ti k = Some ki \<longrightarrow> GreaterThan r (modified ki)"
    and "Put ti k r c = (ti', c')"
  shows "ti_inv ti' c' \<and> ti_hist ti' = (ti_hist ti)(k := ti_hist ti k @ [(r, False)]) \<and>
    uint c \<le> uint c' \<and> uint c' \<le> uint c + 1"
proof -
  have ok: "tree_ok (tree ti)" using assms(1) by (simp add: ti_inv_def)
  obtain q where q: "put (case lookup ti k of None \<Rightarrow> newKeyIndex k | Some ki \<Rightarrow> ki)
      (main r) (sub r) (nodes r) c = (q, c')"
    and s: "stored ti q ti'" and k: "ki_key q = k" using Put_stored [OF ok assms(6)] by blast
  have r: "r = NewRevision (main r) (sub r) (nodes r)" by (simp add: NewRevision_def)
  have q': "ki_inv q c'" "history q = ti_hist ti k @ [(r, False)]"
  proof (atomize (full), cases "lookup ti k")
    case None
    then show "ki_inv q c' \<and> history q = ti_hist ti k @ [(r, False)]"
      using put_first_inv [OF _ assms(2-4), of r "sub r" "nodes r" k q c'] q by (simp add: ti_hist_def)
  next
    case (Some ki)
    have "ki_inv ki c" using Some lookup_Some [OF ok] assms(1) by (simp add: ti_inv_def)
    then show "ki_inv q c' \<and> history q = ti_hist ti k @ [(r, False)]"
      using kidx.put_law [of ki c "main r" "sub r" "nodes r" q c'] assms(3-5) q Some r
      by (simp add: ti_hist_def)
  qed
  have c': "uint c \<le> uint c' \<and> uint c' \<le> uint c + 1" by (rule put_counter [OF q assms(4)])
  then have "ti_inv ti' c'" using stored_ti_inv [OF s assms(1) q'(1)] by (simp add: word_le_def)
  then show ?thesis using c' stored_hist [OF s] q'(2) k by simp
qed

lemma Tombstone_refines [keeps_inv]:
  assumes "ti_inv ti c" and "sint (main r) \<le> uint c" and "uint c + 1 < 2 ^ 63" and "nodes r = []"
    and "\<forall>ki. lookup ti k = Some ki \<longrightarrow> GreaterThan r (modified ki)"
    and "Tombstone ti k r c = (res, ti', c')"
  shows "ti_inv ti' c' \<and> uint c \<le> uint c' \<and> uint c' \<le> uint c + 1 \<and>
    (if ti_hist ti k = [] \<or> snd (last (ti_hist ti k))
     then res = Err ErrRevisionNotFound \<and> ti_hist ti' = ti_hist ti
     else res = Ok () \<and> ti_hist ti' = (ti_hist ti)(k := ti_hist ti k @ [(r, True)]))"
proof (cases "lookup ti k")
  case None
  then show ?thesis using assms(1,6) by (auto simp: Tombstone_def ti_hist_def)
next
  case (Some ki)
  have ok: "tree_ok (tree ti)" using assms(1) by (simp add: ti_inv_def)
  have ki: "ki_inv ki c" using Some lookup_Some [OF ok] assms(1) by (simp add: ti_inv_def)
  obtain q where q: "tombstone ki (main r) (sub r) c = (res, q, c')"
    and s: "stored ti q ti'" and k: "ki_key q = k" using Tombstone_stored [OF ok Some assms(6)] by blast
  have r: "r = NewRevision (main r) (sub r) []" using assms(4) by (simp add: NewRevision_def)
  note t = kidx.tomb_law [OF ki _ assms(2,3) q, folded r]
  have c': "uint c \<le> uint c' \<and> uint c' \<le> uint c + 1" by (rule tombstone_counter [OF q assms(3)])
  have h: "ti_hist ti k = history ki" "history ki \<noteq> []"
    using Some kidx.hist_nonempty [OF ki] by (simp_all add: ti_hist_def)
  have "ti_inv ti' c'" using stored_ti_inv [OF s assms(1)] t assms(5) Some c' by (simp add: word_le_def)
  then show ?thesis using c' t assms(5) Some h stored_hist [OF s] k by (auto split: if_splits)
qed

lemma Get_refines:
  assumes "ti_inv ti c"
  shows "rv \<noteq> 0 \<Longrightarrow> reads (Get ti k rv) (ti_hist ti k) rv"
    and "ti_hist ti k = [] \<or> snd (last (ti_hist ti k)) \<Longrightarrow> Get ti k 0 = Err ErrRevisionNotFound"
    and "ti_hist ti k \<noteq> [] \<Longrightarrow> \<not> snd (last (ti_hist ti k)) \<Longrightarrow>
      \<exists>cr v. Get ti k 0 = Ok (fst (last (ti_hist ti k)), cr, v)"
proof -
  have ok: "tree_ok (tree ti)" using assms by (simp add: ti_inv_def)
  show "reads (Get ti k rv) (ti_hist ti k) rv" if "rv \<noteq> 0"
  proof (cases "lookup ti k")
    case None
    then show ?thesis by (simp add: Get_def ti_hist_def reads_def visible_def upto_main_def)
  next
    case (Some ki)
    then have "ki_inv ki c" using lookup_Some [OF ok] assms by (simp add: ti_inv_def)
    from kidx.get_law [OF this] show ?thesis using Some that by (simp add: Get_def ti_hist_def)
  qed
  show "Get ti k 0 = Err ErrRevisionNotFound" if "ti_hist ti k = [] \<or> snd (last (ti_hist ti k))"
  proof (cases "lookup ti k")
    case None
    then show ?thesis by (simp add: Get_def)
  next
    case (Some ki)
    have ki: "ki_inv ki c" using Some lookup_Some [OF ok] assms by (simp add: ti_inv_def)
    show ?thesis using kidx.get_deleted [OF ki] kidx.hist_nonempty [OF ki] Some that by (simp add: Get_def ti_hist_def)
  qed
  show "\<exists>cr v. Get ti k 0 = Ok (fst (last (ti_hist ti k)), cr, v)"
    if "ti_hist ti k \<noteq> []" and "\<not> snd (last (ti_hist ti k))"
  proof (cases "lookup ti k")
    case None
    then show ?thesis using that(1) by (simp add: ti_hist_def)
  next
    case (Some ki)
    have ki: "ki_inv ki c" using Some lookup_Some [OF ok] assms by (simp add: ti_inv_def)
    show ?thesis using kidx.get_latest [OF ki] kidx.hist_nonempty [OF ki] Some that by (simp add: Get_def ti_hist_def)
  qed
qed

lemma RangeSince_key_refines:
  assumes "ti_inv ti c"
  shows "RangeSince srt ti k None rv = Ok (since_spec (ti_hist ti k) rv)"
proof (cases "lookup ti k")
  case None
  then show ?thesis by (simp add: RangeSince_def ti_hist_def since_spec_def)
next
  case (Some ki)
  then have "ki_inv ki c" using assms lookup_Some by (fastforce simp: ti_inv_def)
  then show ?thesis using Some kidx.since_law by (simp add: RangeSince_def ti_hist_def)
qed

section \<open>Range queries\<close>

text \<open>The items of a half-open range of keys, in key order.\<close>

definition in_range :: "bytes \<Rightarrow> bytes \<Rightarrow> bytes \<Rightarrow> bool" where
  "in_range key e k \<longleftrightarrow> key \<le> k \<and> (e = [] \<or> k < e)"

lemma tree_from_filter:
  "tree_ok t \<Longrightarrow> tree_from t (newKeyIndex key) = filter (\<lambda>i. key \<le> ki_key i) t"
proof (induction t)
  case (Cons i t)
  show ?case
  proof (cases "ki_key i < key")
    case True
    then show ?thesis using Cons by (simp add: tree_from_def tree_ok_def ki_Less_def)
  next
    case False
    then have "\<forall>j \<in> set t. key \<le> ki_key j"
      using Cons.prems by (auto simp: tree_ok_def intro: order.trans less_imp_le)
    then show ?thesis using False by (simp add: tree_from_def ki_Less_def filter_id_conv)
  qed
qed (simp add: tree_from_def)

lemma sorted_stop_filter:
  "tree_ok (i # t) \<Longrightarrow> 0 < length e \<Longrightarrow> \<not> ki_Less i (newKeyIndex e) \<Longrightarrow>
   filter (\<lambda>j. e = [] \<or> ki_key j < e) (i # t) = []"
  by (auto simp: tree_ok_def ki_Less_def filter_empty_conv)

lemma tree_ok_Cons: "tree_ok (i # t) \<Longrightarrow> tree_ok t"
  by (simp add: tree_ok_def)

lemma tree_ok_filter: "tree_ok t \<Longrightarrow> tree_ok (filter P t)"
  by (simp add: tree_ok_def sorted_wrt_map sorted_wrt_filter)

definition visible_in :: "int64 \<Rightarrow> keyIndex list \<Rightarrow> (bytes \<times> Revision) list" where
  "visible_in rv t = List.map_filter (\<lambda>i. map_option (Pair (ki_key i)) (visible (history i) rv)) t"

lemma Range_loop_eq:
  assumes "tree_ok t" and "\<forall>i \<in> set t. ki_inv i c"
  shows "Range_loop t e rv = Ok (visible_in rv (filter (\<lambda>j. e = [] \<or> ki_key j < e) t))"
  using assms
proof (induction t)
  case Nil
  then show ?case by (simp add: visible_in_def map_filter_simps)
next
  case (Cons i t)
  show ?case
  proof (cases "0 < length e \<and> \<not> ki_Less i (newKeyIndex e)")
    case True
    have "filter (\<lambda>j. e = [] \<or> ki_key j < e) (i # t) = []"
      using sorted_stop_filter [of i t e] Cons.prems(1) True by blast
    then show ?thesis using True by (simp only: Range_loop.simps simp_thms if_True visible_in_def map_filter_simps)
  next
    case False
    then have f: "filter (\<lambda>j. e = [] \<or> ki_key j < e) (i # t) = i # filter (\<lambda>j. e = [] \<or> ki_key j < e) t"
      by (auto simp: ki_Less_def)
    have IH: "Range_loop t e rv = Ok (visible_in rv (filter (\<lambda>j. e = [] \<or> ki_key j < e) t))"
      using Cons tree_ok_Cons by simp
    have "reads (get i rv) (history i) rv" using Cons.prems(2) kidx.get_law [of i c] by simp
    then show ?thesis using False IH unfolding f
      by (cases "visible (history i) rv") (auto simp: reads_def visible_in_def map_filter_simps)
  qed
qed

lemma RangeSince_loop_eq:
  assumes "tree_ok t" and "\<forall>i \<in> set t. ki_inv i c"
  shows "RangeSince_loop t e rv =
    Ok (concat (map (\<lambda>i. since_spec (history i) rv) (filter (\<lambda>j. e = [] \<or> ki_key j < e) t)))"
  using assms
proof (induction t)
  case (Cons i t)
  show ?case
  proof (cases "0 < length e \<and> \<not> ki_Less i (newKeyIndex e)")
    case True
    have "filter (\<lambda>j. e = [] \<or> ki_key j < e) (i # t) = []"
      using sorted_stop_filter [of i t e] Cons.prems(1) True by blast
    then show ?thesis using True by (simp only: RangeSince_loop.simps simp_thms if_True list.map concat.simps)
  next
    case False
    then have f: "filter (\<lambda>j. e = [] \<or> ki_key j < e) (i # t) = i # filter (\<lambda>j. e = [] \<or> ki_key j < e) t"
      by (auto simp: ki_Less_def)
    have "since i rv = Ok (since_spec (history i) rv)" using Cons.prems(2) kidx.since_law [of i c] by simp
    moreover have "RangeSince_loop (i # t) e rv =
        result_bind (since i rv) (\<lambda>rs. result_bind (RangeSince_loop t e rv) (\<lambda>out. Ok (rs @ out)))"
      using False by (simp only: RangeSince_loop.simps if_False)
    ultimately show ?thesis using Cons tree_ok_Cons unfolding f by simp
  qed
qed simp

lemma range_filter:
  "filter (\<lambda>j. e = [] \<or> ki_key j < e) (filter (\<lambda>i. key \<le> ki_key i) t) = filter (\<lambda>i. in_range key e (ki_key i)) t"
  by (simp add: in_range_def conj_commute)

lemma Range_eq:
  assumes "ti_inv ti c"
  shows "Range ti key (Some e) rv = Ok (visible_in rv (filter (\<lambda>i. in_range key e (ki_key i)) (tree ti)))"
  using assms Range_loop_eq [of "filter (\<lambda>i. key \<le> ki_key i) (tree ti)" c e rv, unfolded range_filter]
  by (simp add: Range_def ti_inv_def tree_from_filter tree_ok_filter)

lemma RangeSince_eq:
  assumes "ti_inv ti c"
  shows "RangeSince srt ti key (Some e) rv = Ok (srt (\<lambda>a b. GreaterThan b a)
    (concat (map (\<lambda>i. since_spec (history i) rv) (filter (\<lambda>i. in_range key e (ki_key i)) (tree ti)))))"
  using assms RangeSince_loop_eq [of "filter (\<lambda>i. key \<le> ki_key i) (tree ti)" c e rv, unfolded range_filter]
  by (simp add: RangeSince_def ti_inv_def tree_from_filter tree_ok_filter)

section \<open>Revisions in any order: nothing panics\<close>

datatype index_op =
    IPut bytes Revision
  | ITombstone bytes Revision
  | IUpdate bytes Revision int64
  | IRestore bytes Revision Revision int64

primrec run_index_op :: "index_op \<Rightarrow> treeIndex \<times> uint64 \<Rightarrow> unit result \<times> treeIndex \<times> uint64" where
  "run_index_op (IPut k r) tc = (Ok (), Put (fst tc) k r (snd tc))"
| "run_index_op (ITombstone k r) tc = Tombstone (fst tc) k r (snd tc)"
| "run_index_op (IUpdate k r a) tc = Update (fst tc) k r a (snd tc)"
| "run_index_op (IRestore k cr mo v) tc = Restore (fst tc) k cr mo v (snd tc)"

inductive index_reachable :: "treeIndex \<Rightarrow> uint64 \<Rightarrow> bool" where
  init: "index_reachable NewTreeIndex c"
| step: "index_reachable ti c \<Longrightarrow> run_index_op x (ti, c) = (res, ti', c') \<Longrightarrow> index_reachable ti' c'"

lemma lookup_live: "ti_ok ti \<Longrightarrow> lookup ti k = Some ki \<Longrightarrow> ki_live ki"
  using lookup_Some by (fastforce simp: ti_ok_def)

lemma Put_ti_ok [keeps_inv]:
  assumes "ti_ok ti" and "Put ti k r c = (ti', c')"
  shows "ti_ok ti'"
proof -
  have ok: "tree_ok (tree ti)" using assms(1) by (simp add: ti_ok_def)
  obtain q where q: "put (case lookup ti k of None \<Rightarrow> newKeyIndex k | Some ki \<Rightarrow> ki)
      (main r) (sub r) (nodes r) c = (q, c')" and s: "stored ti q ti'"
    using Put_stored [OF ok assms(2)] by blast
  let ?k = "case lookup ti k of None \<Rightarrow> newKeyIndex k | Some ki \<Rightarrow> ki"
  have "generations ?k = [] \<or> ki_ok ?k"
    using lookup_live [OF assms(1)] by (auto simp: ki_live_def split: option.splits)
  from put_ki_live [OF this, of "main r" "sub r" "nodes r" c] have "ki_live q" using q by simp
  then show ?thesis by (rule stored_ti_ok [OF s assms(1)])
qed

lemma Tombstone_ti_ok [keeps_inv]:
  assumes "ti_ok ti" and "Tombstone ti k r c = (res, ti', c')"
  shows "ti_ok ti' \<and> (\<forall>p. res \<noteq> Panic p)"
proof (cases "lookup ti k")
  case None
  then show ?thesis using assms by (auto simp: Tombstone_def)
next
  case (Some ki)
  have ok: "tree_ok (tree ti)" and live: "ki_live ki"
    using assms(1) lookup_live [OF assms(1) Some] by (simp_all add: ti_ok_def)
  obtain q where q: "tombstone ki (main r) (sub r) c = (res, q, c')" and s: "stored ti q ti'"
    using Tombstone_stored [OF ok Some assms(2)] by blast
  have "\<forall>p. res \<noteq> Panic p"
    using q ki_live_not_empty [OF live] live by (auto simp: tombstone_def ki_live_def split: if_splits prod.splits)
  then show ?thesis using stored_ti_ok [OF s assms(1) tombstone_ki_live [OF live q]] by simp
qed

lemma Update_ti_ok [keeps_inv]:
  assumes "ti_ok ti" and "Update ti k r a c = (res, ti', c')"
  shows "ti_ok ti' \<and> (\<forall>p. res \<noteq> Panic p)"
proof (cases "lookup ti k")
  case None
  then show ?thesis using assms by (auto simp: Update_def)
next
  case (Some ki)
  have ok: "tree_ok (tree ti)" and live: "ki_live ki"
    using assms(1) lookup_live [OF assms(1) Some] by (simp_all add: ti_ok_def)
  obtain q where q: "update ki (main r) (sub r) (nodes r) a c = (res, q, c')" and s: "stored ti q ti'"
    using Update_stored [OF ok Some assms(2)] by blast
  have "\<forall>p. res \<noteq> Panic p" using q by (auto simp: update_def split: if_splits prod.splits)
  then show ?thesis using stored_ti_ok [OF s assms(1) update_ki_live [OF live q]] by simp
qed

lemma Restore_ti_ok [keeps_inv]:
  assumes "ti_ok ti" and "Restore ti k cr mo v c = (res, ti', c')"
  shows "ti_ok ti' \<and> (\<forall>p. res \<noteq> Panic p)"
proof (cases "lookup ti k")
  case None
  have ok: "tree_ok (tree ti)" using assms(1) by (simp add: ti_ok_def)
  obtain q where q: "restore (newKeyIndex k) cr mo v = Ok q" by (simp add: restore_def)
  have "stored ti q ti'" "res = Ok ()"
    using None q assms(2) stored_insert [OF ok] by (auto simp: Restore_def)
  then show ?thesis using stored_ti_ok [OF _ assms(1) restore_ki_live [OF q]] by simp
next
  case (Some ki)
  have "Put ti k mo c = (ti', c')" and "res = Ok ()"
    using Some assms(2) by (auto simp: Restore_def Put_def split: prod.splits)
  then show ?thesis using Put_ti_ok [OF assms(1)] by simp
qed

lemma run_index_op_ti_ok:
  assumes "ti_ok ti" and "run_index_op x (ti, c) = (res, ti', c')"
  shows "ti_ok ti' \<and> (\<forall>p. res \<noteq> Panic p)"
proof (cases x)
  case (IPut k r)
  then show ?thesis using assms Put_ti_ok [of ti k r c ti' c'] by auto
next
  case (ITombstone k r)
  then show ?thesis using assms Tombstone_ti_ok [of ti k r c res ti' c'] by simp
next
  case (IUpdate k r a)
  then show ?thesis using assms Update_ti_ok [of ti k r a c res ti' c'] by simp
next
  case (IRestore k cr mo v)
  then show ?thesis using assms Restore_ti_ok [of ti k cr mo v c res ti' c'] by simp
qed

lemma index_reachable_ti_ok: "index_reachable ti c \<Longrightarrow> ti_ok ti"
proof (induction rule: index_reachable.induct)
  case (init c)
  show ?case by (simp add: ti_ok_def NewTreeIndex_def tree_ok_def)
next
  case (step ti c x res ti' c')
  then show ?case using run_index_op_ti_ok by blast
qed

lemma get_no_panic: "ki_live ki \<Longrightarrow> get ki rv \<noteq> Panic p"
  by (simp add: get_def Let_def split: option.splits)

lemma Range_loop_no_panic: "\<forall>i \<in> set t. ki_live i \<Longrightarrow> Range_loop t e rv \<noteq> Panic p"
  by (induction t) (auto simp: result_bind_eq_Panic get_no_panic split: result.splits)


lemma Get_no_panic: "ti_ok ti \<Longrightarrow> Get ti k rv \<noteq> Panic p"
  using lookup_live get_no_panic by (auto simp: Get_def split: option.splits)

lemma Range_no_panic:
  assumes "ti_ok ti"
  shows "Range ti key e rv \<noteq> Panic p"
proof (cases e)
  case None
  then show ?thesis using Get_no_panic [OF assms] by (auto simp: Range_def split: result.splits)
next
  case (Some x)
  have "\<forall>i \<in> set (tree_from (tree ti) (newKeyIndex key)). ki_live i"
    using assms by (auto simp: ti_ok_def tree_from_def dest: set_dropWhileD)
  then show ?thesis using Some Range_loop_no_panic by (simp add: Range_def)
qed

text \<open>The loop of \<^verbatim>\<open>since\<close> overwrites the last entry of its result when a revision repeats the last
  main revision seen, which starts as 0: a revision with main 0 that is not skipped finds no entry
  to overwrite. Nothing else can go wrong.\<close>

lemma since_loop_no_panic:
  "\<forall>r \<in> set rs. main r \<noteq> 0 \<or> GreaterThan sn r \<Longrightarrow> acc = [] \<longrightarrow> lm = 0 \<Longrightarrow> since_loop sn rs acc lm \<noteq> Panic p"
  by (induction sn rs acc lm rule: since_loop.induct) auto

lemma since_no_panic:
  assumes "ki_live ki" and "0 < sint rv \<or> (\<forall>r \<in> set (all_revs ki). main r \<noteq> 0)"
  shows "since ki rv \<noteq> Panic p"
proof -
  have "set (concat (map revs (drop i (generations ki)))) \<subseteq> set (all_revs ki)" for i
    by (auto simp: all_revs_def dest: in_set_dropD)
  then have "\<forall>r \<in> set (concat (map revs (drop i (generations ki)))).
      main r \<noteq> 0 \<or> GreaterThan \<lparr>main = rv, sub = 0, nodes = []\<rparr> r" for i
    using assms(2) by (fastforce simp: GreaterThan_def word_sless_alt)
  then show ?thesis using since_loop_no_panic ki_live_not_empty [OF assms(1)] assms(1)
    by (auto simp: since_def Let_def ki_live_def)
qed

lemma RangeSince_loop_no_panic:
  assumes "\<forall>i \<in> set t. ki_live i" and "0 < sint rv \<or> (\<forall>i \<in> set t. \<forall>r \<in> set (all_revs i). main r \<noteq> 0)"
  shows "RangeSince_loop t e rv \<noteq> Panic p"
  using assms
proof (induction t)
  case (Cons i t)
  then have "since i rv \<noteq> Panic p" by (intro since_no_panic) auto
  moreover have "RangeSince_loop t e rv \<noteq> Panic p" using Cons by auto
  ultimately show ?case by (cases "since i rv"; cases "RangeSince_loop t e rv") auto
qed simp

lemma RangeSince_no_panic:
  assumes "ti_ok ti" and "0 < sint rv \<or> (\<forall>i \<in> set (tree ti). \<forall>r \<in> set (all_revs i). main r \<noteq> 0)"
  shows "RangeSince srt ti key e rv \<noteq> Panic p"
proof (cases e)
  case None
  show ?thesis
  proof (cases "lookup ti key")
    case (Some ki)
    then have "ki \<in> set (tree ti)" "ki_live ki" using lookup_live [OF assms(1)] lookup_Some assms(1) by (auto simp: ti_ok_def)
    then have "since ki rv \<noteq> Panic p" using assms(2) by (intro since_no_panic) auto
    then show ?thesis using None Some by (simp add: RangeSince_def)
  qed (simp add: RangeSince_def None)
next
  case (Some x)
  have "set (tree_from (tree ti) (newKeyIndex key)) \<subseteq> set (tree ti)"
    by (auto simp: tree_from_def dest: set_dropWhileD)
  then have "RangeSince_loop (tree_from (tree ti) (newKeyIndex key)) x rv \<noteq> Panic p"
    using assms by (intro RangeSince_loop_no_panic) (auto simp: ti_ok_def)
  then show ?thesis using Some by (cases "RangeSince_loop (tree_from (tree ti) (newKeyIndex key)) x rv") (auto simp: RangeSince_def)
qed

section \<open>A sequence of operations on many keys\<close>

primrec run_key_op :: "bytes \<times> key_op \<Rightarrow> treeIndex \<times> uint64 \<Rightarrow> treeIndex \<times> uint64" where
  "run_key_op (k, x) tc =
     (case x of KPut r \<Rightarrow> Put (fst tc) k r (snd tc)
      | KTomb m s \<Rightarrow> snd (Tombstone (fst tc) k (NewRevision m s []) (snd tc)))"

fun run_keys :: "(bytes \<times> key_op) list \<Rightarrow> treeIndex \<times> uint64 \<Rightarrow> treeIndex \<times> uint64" where
  "run_keys [] tc = tc"
| "run_keys (x # xs) tc = run_keys xs (run_key_op x tc)"

definition ops_of :: "bytes \<Rightarrow> (bytes \<times> key_op) list \<Rightarrow> key_op list" where
  "ops_of k xs = map snd (filter (\<lambda>x. fst x = k) xs)"

text \<open>No key holds a revision after \<open>r\<close>.\<close>

definition upto_rev :: "treeIndex \<Rightarrow> Revision \<Rightarrow> bool" where
  "upto_rev ti r \<longleftrightarrow> (\<forall>k ki. lookup ti k = Some ki \<longrightarrow> rev_key (modified ki) \<le> rev_key r)"

lemma upto_rev_hist:
  assumes "ti_inv ti c"
  shows "upto_rev ti r \<longleftrightarrow> (\<forall>k. \<forall>e \<in> set (ti_hist ti k). rev_key (fst e) \<le> rev_key r)"
proof -
  have *: "ki_inv ki c" if "lookup ti k = Some ki" for k ki
    using that lookup_Some assms by (fastforce simp: ti_inv_def)
  have h: "rev_key (modified ki) \<le> rev_key r \<longleftrightarrow> (\<forall>e \<in> set (history ki). rev_key (fst e) \<le> rev_key r)"
    if "lookup ti k = Some ki" for k ki
    using kidx.hist_nonempty [OF * [OF that]] kidx.hist_below [OF * [OF that]]
    by (metis last_in_set order.trans prod.collapse)
  have "(\<forall>ki. lookup ti k = Some ki \<longrightarrow> rev_key (modified ki) \<le> rev_key r) \<longleftrightarrow>
      (\<forall>e \<in> set (ti_hist ti k). rev_key (fst e) \<le> rev_key r)" for k
    using h by (cases "lookup ti k") (simp_all add: ti_hist_def)
  then show ?thesis by (simp add: upto_rev_def)
qed

lemma run_key_op_refines:
  assumes "ti_inv ti c" and "upto_rev ti r0" and "rev_key r0 < rev_key (op_rev x)"
    and "0 < sint (main (op_rev x))" and "sint (main (op_rev x)) \<le> uint c" and "uint c + 1 < 2 ^ 63"
    and "run_key_op (k, x) (ti, c) = (ti', c')"
  shows "ti_inv ti' c'" and "ti_hist ti' = (ti_hist ti)(k := spec_op x (ti_hist ti k))"
    and "upto_rev ti' (op_rev x)" and "uint c \<le> uint c' \<and> uint c' \<le> uint c + 1"
proof -
  have newer: "\<forall>ki. lookup ti k = Some ki \<longrightarrow> GreaterThan (op_rev x) (modified ki)"
    using assms(2,3) by (auto simp: upto_rev_def GreaterThan_iff intro: order.strict_trans1)
  have *: "ti_inv ti' c' \<and> ti_hist ti' = (ti_hist ti)(k := spec_op x (ti_hist ti k)) \<and>
    (uint c \<le> uint c' \<and> uint c' \<le> uint c + 1)"
  proof (cases x)
    case (KPut r)
    then show ?thesis using Put_refines [of ti c r k ti' c'] assms newer by simp
  next
    case (KTomb m s)
    then obtain res where t: "Tombstone ti k (NewRevision m s []) c = (res, ti', c')"
      using assms(7) by (cases "Tombstone ti k (NewRevision m s []) c") simp
    show ?thesis
      using Tombstone_refines [OF assms(1) _ assms(6) _ _ t] assms(5) newer KTomb
      by (auto simp: NewRevision_def fun_upd_idem split: if_splits)
  qed
  then show "ti_inv ti' c'" and "ti_hist ti' = (ti_hist ti)(k := spec_op x (ti_hist ti k))"
    and "uint c \<le> uint c' \<and> uint c' \<le> uint c + 1" by auto
  then show "upto_rev ti' (op_rev x)"
    using assms(2,3) unfolding upto_rev_hist [OF conjunct1 [OF *]] upto_rev_hist [OF assms(1)]
    by (cases x) (fastforce split: if_splits)+
qed

lemma run_keys_refines:
  assumes "ti_inv ti c" and "upto_rev ti r0" and "in_order c r0 (map snd xs)"
    and "\<forall>x \<in> set xs. 0 < sint (main (op_rev (snd x)))" and "run_keys xs (ti, c) = (ti', c')"
  shows "ti_inv ti' c' \<and> (\<forall>k. ti_hist ti' k = spec_ops (ops_of k xs) (ti_hist ti k))"
  using assms
proof (induction xs arbitrary: ti c r0)
  case (Cons kx xs)
  obtain k x where kx: "kx = (k, x)" by (cases kx)
  obtain t1 c1 where s: "run_key_op (k, x) (ti, c) = (t1, c1)" by force
  note ord = Cons.prems(3) [unfolded kx in_order_def, simplified]
  have r: "ti_inv t1 c1" "ti_hist t1 = (ti_hist ti)(k := spec_op x (ti_hist ti k))"
    "upto_rev t1 (op_rev x)" "uint c \<le> uint c1 \<and> uint c1 \<le> uint c + 1"
    using run_key_op_refines [OF Cons.prems(1,2) _ _ _ _ s] ord Cons.prems(4) by (simp_all add: kx)
  have "in_order c1 (op_rev x) (map snd xs)" using ord r(4) by (auto simp: in_order_def intro: order.trans)
  from Cons.IH [OF r(1,3) this] show ?case
    using Cons.prems(4,5) s kx r(2) by (simp add: ops_of_def spec_ops_def)
qed (simp add: ops_of_def spec_ops_def)

lemma NewTreeIndex_inv: "ti_inv NewTreeIndex c" "upto_rev NewTreeIndex r" "ti_hist NewTreeIndex k = []"
  by (simp_all add: ti_inv_def NewTreeIndex_def tree_ok_def upto_rev_def ti_hist_def)

text \<open>A run of the index from its creation, with revisions in order.\<close>

definition index_run :: "(bytes \<times> key_op) list \<Rightarrow> uint64 \<Rightarrow> treeIndex \<Rightarrow> bool" where
  "index_run xs c ti \<longleftrightarrow> in_order c zeroRevision (map snd xs) \<and>
     (\<forall>x \<in> set xs. 0 < sint (main (op_rev (snd x)))) \<and> ti = fst (run_keys xs (NewTreeIndex, c))"

lemma index_runD:
  assumes "index_run xs c ti"
  obtains c' where "ti_inv ti c'" and "\<And>k. ti_hist ti k = spec_ops (ops_of k xs) []"
proof -
  obtain c' where "run_keys xs (NewTreeIndex, c) = (ti, c')"
    using assms by (cases "run_keys xs (NewTreeIndex, c)") (simp add: index_run_def)
  then have "ti_inv ti c' \<and> (\<forall>k. ti_hist ti k = spec_ops (ops_of k xs) [])"
    using run_keys_refines [OF NewTreeIndex_inv(1,2), of c zeroRevision xs ti c'] assms
    by (simp add: index_run_def NewTreeIndex_inv(3))
  with that show thesis by blast
qed


section \<open>Updates under the read lock\<close>

text \<open>\<^verbatim>\<open>Update\<close> holds the read lock only, so several updates of one key index run at the same
  time: each tests \<^verbatim>\<open>modified\<close> and then calls \<^verbatim>\<open>put\<close>. \<^verbatim>\<open>put\<close> itself is taken as one step, which is
  more than the code guarantees.\<close>

datatype upd_pc = UCheck | UPut | UDone "unit result"

record upd_sys =
  upd_ki :: keyIndex
  upd_counter :: uint64
  upd_pcs :: "nat \<Rightarrow> upd_pc"

inductive upd_step :: "(nat \<Rightarrow> Revision \<times> int64) \<Rightarrow> upd_sys \<Rightarrow> upd_sys \<Rightarrow> bool" for job where
  reject: "upd_pcs s i = UCheck \<Longrightarrow> main (modified (upd_ki s)) \<noteq> snd (job i) \<Longrightarrow>
    upd_step job s (s\<lparr>upd_pcs := (upd_pcs s)(i := UDone (Err ErrNotLatest))\<rparr>)"
| pass: "upd_pcs s i = UCheck \<Longrightarrow> main (modified (upd_ki s)) = snd (job i) \<Longrightarrow>
    upd_step job s (s\<lparr>upd_pcs := (upd_pcs s)(i := UPut)\<rparr>)"
| putting: "upd_pcs s i = UPut \<Longrightarrow>
    put (upd_ki s) (main (fst (job i))) (sub (fst (job i))) (nodes (fst (job i))) (upd_counter s) = (ki', c') \<Longrightarrow>
    upd_step job s (s\<lparr>upd_ki := ki', upd_counter := c', upd_pcs := (upd_pcs s)(i := UDone (Ok ()))\<rparr>)"

definition upd_init :: "keyIndex \<Rightarrow> uint64 \<Rightarrow> upd_sys" where
  "upd_init ki c = \<lparr>upd_ki = ki, upd_counter = c, upd_pcs = (\<lambda>_. UCheck)\<rparr>"


section \<open>Properties\<close>

text \<open>C9: After any sequence of puts and tombstones on any keys with increasing revisions, the
  index holds for every key exactly the history of the operations on that key, and \<^verbatim>\<open>Get\<close> reads
  that history: at a revision other than 0 the newest revision at or before it with its version
  (or \<^verbatim>\<open>ErrRevisionNotFound\<close> when it is a tombstone or there is none), at revision 0 the latest.\<close>

theorem index_refines_histories:
  assumes "index_run xs c ti"
  shows "ti_hist ti k = spec_ops (ops_of k xs) [] \<and>
    (\<forall>rv. rv \<noteq> 0 \<longrightarrow> reads (Get ti k rv) (spec_ops (ops_of k xs) []) rv) \<and>
    (let h = spec_ops (ops_of k xs) [] in
     if h = [] \<or> snd (last h) then Get ti k 0 = Err ErrRevisionNotFound
     else \<exists>cr v. Get ti k 0 = Ok (fst (last h), cr, v))"
proof -
  obtain c' where inv: "ti_inv ti c'" and h: "ti_hist ti k = spec_ops (ops_of k xs) []"
    using index_runD [OF assms] by metis
  show ?thesis
    using Get_refines(1) [OF inv, of _ k] Get_refines(2,3) [OF inv, of k] h by (auto simp: Let_def)
qed

definition two_keys :: "(bytes \<times> key_op) list" where
  "two_keys = [(''b'', KPut (NewRevision 1 0 [''n''])), (''a'', KPut (NewRevision 2 0 [''m''])),
               (''b'', KTomb 3 0), (''b'', KPut (NewRevision 4 0 [''p'']))]"

lemma two_keys_run: "index_run two_keys 4 (fst (run_keys two_keys (NewTreeIndex, 4)))"
  by (simp add: index_run_def in_order_def zeroRevision_def rev_key_def NewRevision_def two_keys_def)

lemma two_keys_spec:
  "spec_ops (ops_of k two_keys) [] =
     (if k = ''a'' then [(NewRevision 2 0 [''m''], False)]
      else if k = ''b'' then [(NewRevision 1 0 [''n''], False), (NewRevision 3 0 [], True), (NewRevision 4 0 [''p''], False)]
      else [])"
  by (auto simp: ops_of_def spec_ops_def two_keys_def)

theorem index_refines_histories_witness:
  "let ti = fst (run_keys two_keys (NewTreeIndex, 4)) in
   Get ti ''b'' 3 = Err ErrRevisionNotFound \<and> (\<exists>cr v. Get ti ''b'' 0 = Ok (NewRevision 4 0 [''p''], cr, v))"
proof -
  note t = index_refines_histories [OF two_keys_run, of "''b''", unfolded two_keys_spec]
  have "visible [(NewRevision 1 0 [''n''], False), (NewRevision 3 0 [], True), (NewRevision 4 0 [''p''], False)] 3 = None"
    by (simp add: visible_def upto_main_def NewRevision_def)
  then have "Get (fst (run_keys two_keys (NewTreeIndex, 4))) ''b'' 3 = Err ErrRevisionNotFound"
    using t [THEN conjunct2, THEN conjunct1, THEN spec, of 3] by (simp add: reads_def)
  with t show ?thesis by (auto simp: Let_def)
qed

lemma set_visible_in:
  "set (visible_in rv t) = {(ki_key i, r) |i r. i \<in> set t \<and> visible (history i) rv = Some r}"
  by (force simp: visible_in_def List.map_filter_def)

lemma keys_visible_in: "map fst (visible_in rv t) = map ki_key (filter (\<lambda>i. visible (history i) rv \<noteq> None) t)"
  by (induction t) (auto simp: visible_in_def map_filter_simps split: option.splits)

lemma tree_hist:
  assumes "tree_ok (tree ti)"
  shows "i \<in> set (tree ti) \<Longrightarrow> ti_hist ti (ki_key i) = history i"
    and "ti_hist ti k \<noteq> [] \<Longrightarrow> \<exists>i \<in> set (tree ti). ki_key i = k \<and> ti_hist ti k = history i"
proof -
  show "ti_hist ti (ki_key i) = history i" if "i \<in> set (tree ti)"
    using bt.get_same [OF assms that] by (simp add: ti_hist_def)
  show "\<exists>i \<in> set (tree ti). ki_key i = k \<and> ti_hist ti k = history i" if "ti_hist ti k \<noteq> []"
  proof (cases "lookup ti k")
    case None
    with that show ?thesis by (simp add: ti_hist_def)
  next
    case (Some i)
    with lookup_Some [OF assms] show ?thesis by (force simp: ti_hist_def)
  qed
qed

lemma visible_Nil [simp]: "visible [] rv = None"
  by (simp add: visible_def upto_main_def)

lemma Range_spec:
  assumes "ti_inv ti c"
  shows "\<exists>kvs. Range ti key (Some e) rv = Ok kvs \<and> sorted_wrt (<) (map fst kvs) \<and>
    set kvs = {(k, r). in_range key e k \<and> visible (ti_hist ti k) rv = Some r}"
proof (intro exI conjI)
  let ?t = "filter (\<lambda>i. in_range key e (ki_key i)) (tree ti)"
  have ok: "tree_ok (tree ti)" using assms by (simp add: ti_inv_def)
  show "Range ti key (Some e) rv = Ok (visible_in rv ?t)" by (rule Range_eq [OF assms])
  have "tree_ok (filter P (tree ti))" for P using ok by (rule tree_ok_filter)
  then show "sorted_wrt (<) (map fst (visible_in rv ?t))"
    unfolding keys_visible_in filter_filter by (simp add: tree_ok_def)
  show "set (visible_in rv ?t) = {(k, r). in_range key e k \<and> visible (ti_hist ti k) rv = Some r}" (is "_ = ?R")
  proof (rule set_eqI, clarify)
    fix k r
    have "visible (ti_hist ti k) rv = Some r \<longleftrightarrow>
        (\<exists>i \<in> set (tree ti). ki_key i = k \<and> visible (history i) rv = Some r)"
      using tree_hist [OF ok] by (metis option.distinct(1) visible_Nil)
    then show "(k, r) \<in> set (visible_in rv ?t) \<longleftrightarrow> (k, r) \<in> ?R" by (auto simp: set_visible_in)
  qed
qed

text \<open>C16: \<^verbatim>\<open>Range\<close> over \<^verbatim>\<open>[key, end)\<close> (an empty end is no bound) at a revision returns exactly the
  keys of the range that are visible at the revision, each once, in key order, each with its
  visible revision.\<close>

theorem Range_exact:
  assumes "index_run xs c ti"
  shows "\<exists>kvs. Range ti key (Some e) rv = Ok kvs \<and> sorted_wrt (<) (map fst kvs) \<and>
    set kvs = {(k, r). in_range key e k \<and> visible (spec_ops (ops_of k xs) []) rv = Some r}"
proof -
  obtain c' where inv: "ti_inv ti c'" and h: "\<And>k. ti_hist ti k = spec_ops (ops_of k xs) []"
    using index_runD [OF assms] by metis
  show ?thesis using Range_spec [OF inv, of key e rv] unfolding h .
qed

lemma two_keys_visible:
  "visible (spec_ops (ops_of k two_keys) []) 4 =
     (if k = ''a'' then Some (NewRevision 2 0 [''m''])
      else if k = ''b'' then Some (NewRevision 4 0 [''p'']) else None)"
  by (simp add: two_keys_spec visible_def upto_main_def NewRevision_def)

theorem Range_exact_witness:
  "\<exists>kvs. Range (fst (run_keys two_keys (NewTreeIndex, 4))) ''a'' (Some []) 4 = Ok kvs \<and>
     sorted_wrt (<) (map fst kvs) \<and>
     set kvs = {(''a'', NewRevision 2 0 [''m'']), (''b'', NewRevision 4 0 [''p''])}"
proof -
  have "{(k, r). in_range ''a'' [] k \<and> visible (spec_ops (ops_of k two_keys) []) 4 = Some r} =
      {(''a'', NewRevision 2 0 [''m'']), (''b'', NewRevision 4 0 [''p''])}"
    by (auto simp: two_keys_visible in_range_def split: if_splits)
  then show ?thesis using Range_exact [OF two_keys_run, of "''a''" "[]" 4] by simp
qed

text \<open>C17: \<^verbatim>\<open>RangeSince\<close> returns, for every sorting routine with the contract of \<^verbatim>\<open>sort.Sort\<close>, the
  revisions of the keys of the range from the given main revision on, of each key one per main
  revision, all of them and no others, sorted by \<^verbatim>\<open>Revisions.Less\<close>; without an end key it returns
  those of the one key.\<close>

theorem RangeSince_exact:
  assumes "index_run xs c ti" and "go_sort srt"
  shows "RangeSince srt ti key None rv = Ok (since_spec (spec_ops (ops_of key xs) []) rv) \<and>
    (\<exists>rs. RangeSince srt ti key (Some e) rv = Ok rs \<and> sorted (map rev_key rs) \<and>
       set rs = (\<Union>k \<in> {k. in_range key e k}. set (since_spec (spec_ops (ops_of k xs) []) rv)))"
proof -
  obtain c' where inv: "ti_inv ti c'" and h: "\<And>k. ti_hist ti k = spec_ops (ops_of k xs) []"
    using index_runD [OF assms(1)] by metis
  have ok: "tree_ok (tree ti)" using inv by (simp add: ti_inv_def)
  let ?rs = "concat (map (\<lambda>i. since_spec (history i) rv) (filter (\<lambda>i. in_range key e (ki_key i)) (tree ti)))"
  have gt: "(\<lambda>a b. GreaterThan b a) = (\<lambda>a b. rev_key a < rev_key b)" by (simp add: GreaterThan_iff)
  have "set ?rs = (\<Union>k \<in> {k. in_range key e k}. set (since_spec (ti_hist ti k) rv))"
  proof (intro set_eqI iffI)
    fix r assume "r \<in> set ?rs"
    then show "r \<in> (\<Union>k \<in> {k. in_range key e k}. set (since_spec (ti_hist ti k) rv))"
      using tree_hist(1) [OF ok] by auto
  next
    fix r assume "r \<in> (\<Union>k \<in> {k. in_range key e k}. set (since_spec (ti_hist ti k) rv))"
    then obtain k where k: "in_range key e k" "r \<in> set (since_spec (ti_hist ti k) rv)" by blast
    then have "ti_hist ti k \<noteq> []" by (auto simp: since_spec_def)
    with tree_hist(2) [OF ok] k show "r \<in> set ?rs" by fastforce
  qed
  then show ?thesis
    using RangeSince_key_refines [OF inv] RangeSince_eq [OF inv, of srt key e rv] h
      go_sort.srt_sorted_key [OF assms(2), of rev_key ?rs] go_sort.srt_set [OF assms(2)]
    by (simp add: gt)
qed

theorem RangeSince_exact_witness:
  "\<exists>rs. RangeSince sort_Slice (fst (run_keys two_keys (NewTreeIndex, 4))) ''a'' (Some []) 2 = Ok rs \<and>
     sorted (map rev_key rs) \<and> set rs = {NewRevision 2 0 [''m''], NewRevision 3 0 [], NewRevision 4 0 [''p'']}"
proof -
  have "since_spec (spec_ops (ops_of k two_keys) []) 2 =
      (if k = ''a'' then [NewRevision 2 0 [''m'']]
       else if k = ''b'' then [NewRevision 3 0 [], NewRevision 4 0 [''p'']] else [])" for k
    by (simp add: two_keys_spec since_spec_def rev_key_def NewRevision_def)
  then have "(\<Union>k \<in> {k. in_range ''a'' [] k}. set (since_spec (spec_ops (ops_of k two_keys) []) 2)) =
      {NewRevision 2 0 [''m''], NewRevision 3 0 [], NewRevision 4 0 [''p'']}"
    by (auto simp: in_range_def split: if_splits intro!: exI [of _ "''b''"])
  then show ?thesis
    using RangeSince_exact [OF two_keys_run go_sort_Slice.go_sort_axioms, of "''a''" 2 "[]"] by simp
qed

text \<open>C18: Whatever the order in which revisions arrive, through any sequence of \<^verbatim>\<open>Put\<close>, \<^verbatim>\<open>Tombstone\<close>,
  \<^verbatim>\<open>Update\<close> and \<^verbatim>\<open>Restore\<close>: the tree stays ordered without duplicate keys, every key index stays
  well formed, and neither the next of these four operations nor \<^verbatim>\<open>Get\<close> nor \<^verbatim>\<open>Range\<close> panics.
  \<^verbatim>\<open>RangeSince\<close> does not panic either when it is asked for the revisions from a positive one on, or when
  no revision in the index is 0. (\<^verbatim>\<open>RangeSince\<close> from 0 on an index that holds revision 0 does panic, and
  so does \<^verbatim>\<open>Equal\<close> on indexes with different keys: both are shown below.)\<close>

theorem index_never_panics:
  assumes "index_reachable ti c"
  shows "ti_ok ti \<and> (\<forall>x p. fst (run_index_op x (ti, c)) \<noteq> Panic p) \<and>
    (\<forall>k rv p. Get ti k rv \<noteq> Panic p) \<and> (\<forall>k e rv p. Range ti k e rv \<noteq> Panic p) \<and>
    (\<forall>srt k e rv p. 0 < sint rv \<or> (\<forall>i \<in> set (tree ti). \<forall>r \<in> set (all_revs i). main r \<noteq> 0)
       \<longrightarrow> RangeSince srt ti k e rv \<noteq> Panic p)"
proof -
  have ok: "ti_ok ti" by (rule index_reachable_ti_ok [OF assms])
  moreover have "fst (run_index_op x (ti, c)) \<noteq> Panic p" for x p
    using run_index_op_ti_ok [OF ok] by (metis prod.collapse)
  ultimately show ?thesis using Get_no_panic [OF ok] Range_no_panic [OF ok] RangeSince_no_panic [OF ok] by blast
qed

theorem index_never_panics_witness:
  "let tc = snd (run_index_op (ITombstone ''k'' (NewRevision 2 0 [])) (Put NewTreeIndex ''k'' (NewRevision 5 0 []) 5)) in
   index_reachable (fst tc) (snd tc) \<and> Get (fst tc) ''k'' 9 \<noteq> Panic IndexOutOfRange \<and>
   RangeSince sort_Slice (fst tc) ''a'' (Some ''z'') 1 \<noteq> Panic IndexOutOfRange"
proof -
  obtain ti c where p: "Put NewTreeIndex ''k'' (NewRevision 5 0 []) 5 = (ti, c)" by force
  obtain res ti' c' where t: "run_index_op (ITombstone ''k'' (NewRevision 2 0 [])) (ti, c) = (res, ti', c')"
    by (metis prod_cases3)
  have "index_reachable ti c"
    using index_reachable.step [OF index_reachable.init, of "IPut ''k'' (NewRevision 5 0 [])" 5] p by simp
  from index_reachable.step [OF this t] have r: "index_reachable ti' c'" .
  then show ?thesis using index_never_panics [OF r] p t by simp
qed

text \<open>\<^verbatim>\<open>RangeSince\<close> from 0 on an index whose only revision is 0: the loop writes before its empty
  result.\<close>

theorem RangeSince_zero_panics:
  "RangeSince srt (fst (Put NewTreeIndex ''k'' (NewRevision 0 0 []) 1)) ''k'' None 0 = Panic IndexOutOfRange"
  by (simp add: RangeSince_def Put_def NewTreeIndex_def NewRevision_def) code_simp

text \<open>\<^verbatim>\<open>Equal\<close> on two indexes of the same size panics whenever the first key of one is missing
  in the other, instead of returning false.\<close>

theorem Equal_missing_key_panics:
  assumes "tree a = i # t" and "length (tree a) = length (tree b)" and "tree_ok (tree b)"
    and "ki_key i \<notin> ki_key ` set (tree b)"
  shows "Equal a b = Panic InterfaceConversion"
  using assms bt.get_None_iff [OF assms(3), of i] by (simp add: Equal_def)

theorem Equal_missing_key_panics_witness:
  "Equal (fst (Put NewTreeIndex ''a'' (NewRevision 1 0 []) 1)) (fst (Put NewTreeIndex ''b'' (NewRevision 1 0 []) 1))
     = Panic InterfaceConversion"
  by (rule Equal_missing_key_panics [of _ "fst (put (newKeyIndex ''a'') 1 0 [] 1)" "[]"])
     (auto simp: Put_def NewTreeIndex_def NewRevision_def tree_ok_def split: prod.splits dest: put_ki_keyD)

lemma rtranclp_4: "r a b \<Longrightarrow> r b c \<Longrightarrow> r c d \<Longrightarrow> r d e \<Longrightarrow> r\<^sup>*\<^sup>* a e"
  by (rule converse_rtranclp_into_rtranclp, assumption)+ simp

text \<open>Two updates that assume the same latest revision can both succeed when they run at the
  same time: both pass the test before either calls \<^verbatim>\<open>put\<close>, although run one after the other the
  second fails.\<close>

theorem Update_lost_under_read_lock:
  "\<exists>ki s. main (modified ki) = 1 \<and>
     (upd_step (\<lambda>i. (NewRevision (if i = 0 then 2 else 3) 0 [], 1)))\<^sup>*\<^sup>* (upd_init ki 3) s \<and>
     upd_pcs s 0 = UDone (Ok ()) \<and> upd_pcs s 1 = UDone (Ok ())"
proof -
  let ?job = "\<lambda>i. (NewRevision (if i = 0 then 2 else 3) 0 [], 1 :: int64)"
  let ?ki = "fst (put (newKeyIndex ''k'') 1 0 [] 1)"
  have m: "main (modified ?ki) = 1"
    by (simp add: put_def newKeyIndex_def Let_def zeroRevision_def GreaterThan_def split: prod.splits)
  let ?s0 = "upd_init ?ki 3"
  let ?s1 = "?s0\<lparr>upd_pcs := (upd_pcs ?s0)(0 := UPut)\<rparr>"
  let ?s2 = "?s1\<lparr>upd_pcs := (upd_pcs ?s1)(1 := UPut)\<rparr>"
  obtain k3 c3 where p3: "put (upd_ki ?s2) 2 0 [] (upd_counter ?s2) = (k3, c3)" by force
  let ?s3 = "?s2\<lparr>upd_ki := k3, upd_counter := c3, upd_pcs := (upd_pcs ?s2)(0 := UDone (Ok ()))\<rparr>"
  obtain k4 c4 where p4: "put (upd_ki ?s3) 3 0 [] (upd_counter ?s3) = (k4, c4)" by force
  let ?s4 = "?s3\<lparr>upd_ki := k4, upd_counter := c4, upd_pcs := (upd_pcs ?s3)(1 := UDone (Ok ()))\<rparr>"
  have a: "upd_step ?job ?s0 ?s1" by (rule upd_step.pass) (simp_all add: upd_init_def m)
  have b: "upd_step ?job ?s1 ?s2" by (rule upd_step.pass) (simp_all add: upd_init_def m)
  have c: "upd_step ?job ?s2 ?s3"
    by (rule upd_step.putting) (use p3 in \<open>simp_all add: NewRevision_def upd_init_def\<close>)
  have d: "upd_step ?job ?s3 ?s4"
    by (rule upd_step.putting) (use p4 in \<open>simp_all add: NewRevision_def upd_init_def\<close>)
  have "(upd_step ?job)\<^sup>*\<^sup>* ?s0 ?s4"
    using rtranclp_4 [where r = "upd_step ?job", OF a b c d] .
  then show ?thesis using m by (intro exI [of _ ?ki] exI [of _ ?s4]) simp
qed

end
