(* ===== verification/B_Tree.thy ===== *)
theory B_Tree
  imports Go_Prelude
begin

text \<open>
  The B-tree that the index keeps its keys in: of the vendored package
  \<^verbatim>\<open>github.com/google/btree\<close> what the repository calls, that is \<^verbatim>\<open>New\<close>, \<^verbatim>\<open>Get\<close>,
  \<^verbatim>\<open>ReplaceOrInsert\<close>, \<^verbatim>\<open>Ascend\<close>, \<^verbatim>\<open>AscendGreaterOrEqual\<close> and \<^verbatim>\<open>Len\<close>, in the file that the Go
  versions with generics compile. A node is its items and its children; the order of the items is an argument,
  \<^verbatim>\<open>LessFunc\<close>, whose contract is the interface \<open>strict_weak_order\<close> of \<open>B_Tree_List\<close>.

  Nothing clones a tree, so that every node belongs to the one context of its tree: \<^verbatim>\<open>mutableFor\<close>
  returns its receiver, and a change of a node is a change of the tree. Nothing deletes from a tree, so that
  the free list stays empty and \<^verbatim>\<open>newNode\<close> returns an empty node.
\<close>

section \<open>Nodes\<close>

datatype 'a bnode = BNode (items: "'a list") (children: "'a bnode list")

text \<open>\<^verbatim>\<open>sort.Search\<close>: the least index for which \<open>f\<close> holds, by bisection.\<close>

function sort_Search :: "(nat \<Rightarrow> bool) \<Rightarrow> nat \<Rightarrow> nat \<Rightarrow> nat" where
  "sort_Search f i j =
     (if i < j then let h = (i + j) div 2 in if \<not> f h then sort_Search f (h + 1) j else sort_Search f i h
      else i)"
  by pat_completeness auto
termination by (relation "measure (\<lambda>(f, i, j). j - i)") auto

declare sort_Search.simps [simp del]

text \<open>The search reads the items below their number only, and \<^verbatim>\<open>find\<close> the one before the index it got.\<close>

definition find_item :: "('a \<Rightarrow> 'a \<Rightarrow> bool) \<Rightarrow> 'a list \<Rightarrow> 'a \<Rightarrow> nat \<times> bool" where
  "find_item lt s x =
     (let i = sort_Search (\<lambda>i. lt x (s ! i)) 0 (length s)
      in if 0 < i \<and> \<not> lt (s ! (i - 1)) x then (i - 1, True) else (i, False))"

definition insertAt :: "'a list \<Rightarrow> nat \<Rightarrow> 'a \<Rightarrow> 'a list result" where
  "insertAt s i x = (if i \<le> length s then Ok (take i s @ x # drop i s) else Panic IndexOutOfRange)"

text \<open>\<^verbatim>\<open>split\<close>: the item at the index, the node with what comes before it and a new one with what is after it.\<close>

definition split_node :: "'a bnode \<Rightarrow> nat \<Rightarrow> ('a \<times> 'a bnode \<times> 'a bnode) result" where
  "split_node n i =
     result_bind (slice_get (items n) (int i)) (\<lambda>item.
       if children n = [] then Ok (item, BNode (take i (items n)) [], BNode (drop (i + 1) (items n)) [])
       else if length (children n) < i + 1 then Panic IndexOutOfRange
       else Ok (item, BNode (take i (items n)) (take (i + 1) (children n)),
                BNode (drop (i + 1) (items n)) (drop (i + 1) (children n))))"

definition maybeSplitChild :: "'a bnode \<Rightarrow> nat \<Rightarrow> nat \<Rightarrow> (bool \<times> 'a bnode) result" where
  "maybeSplitChild n i maxItems =
     result_bind (slice_get (children n) (int i)) (\<lambda>c.
       if length (items c) < maxItems then Ok (False, n)
       else result_bind (split_node c (maxItems div 2)) (\<lambda>(item, first, second).
              result_bind (insertAt (items n) i item) (\<lambda>is.
              result_bind (insertAt ((children n)[i := first]) (i + 1) second) (\<lambda>cs.
                Ok (True, BNode is cs)))))"

text \<open>What \<^verbatim>\<open>insert\<close> does between the search in a node with children and the call for the child: the child is
  split when it is full, and the item that moved up decides where to go on. \<open>Inl j\<close>: go on with child \<open>j\<close>;
  \<open>Inr out\<close>: the item that moved up was the one to replace.\<close>

definition insert_child :: "('a \<Rightarrow> 'a \<Rightarrow> bool) \<Rightarrow> 'a \<Rightarrow> nat \<Rightarrow> 'a bnode \<Rightarrow> nat \<Rightarrow> ('a bnode \<times> (nat + 'a)) result" where
  "insert_child lt x maxItems n i =
     result_bind (maybeSplitChild n i maxItems) (\<lambda>(split, n').
       if \<not> split then Ok (n', Inl i)
       else result_bind (slice_get (items n') (int i)) (\<lambda>inTree.
         if lt x inTree then Ok (n', Inl i)
         else if lt inTree x then Ok (n', Inl (i + 1))
         else Ok (BNode ((items n')[i := x]) (children n'), Inr inTree)))"

lemma result_bind_cong [fundef_cong]:
  "r = r' \<Longrightarrow> (\<And>a. r' = Ok a \<Longrightarrow> f a = g a) \<Longrightarrow> result_bind r f = result_bind r' g"
  by (cases r') auto

lemma result_bind_right [simp]: "result_bind r Ok = r"
  by (cases r) auto

lemma result_bind_assoc: "result_bind (result_bind r f) g = result_bind r (\<lambda>a. result_bind (f a) g)"
  by (cases r) auto

lemma size_child: "c \<in> set (children n) \<Longrightarrow> size c < size n"
  by (cases n) (auto dest: size_list_estimation' [of _ _ "size c" size])

lemma size_take: "size_list f (take i xs) \<le> size_list f xs" "size_list f (drop i xs) \<le> size_list f xs"
  using size_list_append [of f "take i xs" "drop i xs"] by simp_all

lemma size_split:
  assumes "split_node c i = Ok (item, c1, c2)"
  shows "size c1 \<le> size c \<and> size c2 \<le> size c"
  using assms by (cases c) (auto simp: split_node_def size_take add_mono split: if_splits)

text \<open>A child that is split gives way to its two parts.\<close>

lemma maybeSplitChildE:
  assumes "maybeSplitChild n i m = Ok (b, n')"
  obtains "\<not> b" and "n' = n"
  | item c1 c2 where b and "i < length (children n)" and "i \<le> length (items n)"
      and "split_node (children n ! i) (m div 2) = Ok (item, c1, c2)"
      and "n' = BNode (take i (items n) @ item # drop i (items n))
             (take i (children n) @ c1 # c2 # drop (Suc i) (children n))"
proof -
  have "i < length (children n)" using assms by (auto simp: maybeSplitChild_def slice_get_Ok_iff)
  then have u: "take (Suc i) ((children n)[i := c]) = take i (children n) @ [c]" for c
    by (simp add: upd_conv_take_nth_drop)
  show thesis
  proof (cases "length (items (children n ! i)) < m")
    case True
    then show thesis using assms that(1) \<open>i < length (children n)\<close> by (simp add: maybeSplitChild_def)
  next
    case False
    then obtain item c1 c2 where sp: "split_node (children n ! i) (m div 2) = Ok (item, c1, c2)"
      and r: "result_bind (insertAt (items n) i item) (\<lambda>is.
                result_bind (insertAt ((children n)[i := c1]) (i + 1) c2) (\<lambda>cs. Ok (True, BNode is cs))) = Ok (b, n')"
      using assms \<open>i < length (children n)\<close> by (auto simp: maybeSplitChild_def)
    then show thesis using that(2) \<open>i < length (children n)\<close> by (auto simp: insertAt_def u split: if_splits)
  qed
qed

lemma maybeSplitChild_size:
  assumes "maybeSplitChild n i m = Ok (b, n')" and "c \<in> set (children n')"
  shows "size c < size n"
  using assms(1)
proof (cases rule: maybeSplitChildE)
  case 1
  then show ?thesis using assms(2) size_child by blast
next
  case (2 item c1 c2)
  then have "c \<in> set (children n) \<or> c = c1 \<or> c = c2"
    using assms(2) by (auto dest: in_set_takeD in_set_dropD)
  then show ?thesis using size_split [OF 2(4)] size_child [of _ n] 2(2) by (meson le_less_trans nth_mem)
qed

lemma insert_child_size:
  assumes "insert_child lt x m n i = Ok (n', d)" and "c \<in> set (children n')"
  shows "size c < size n"
proof -
  obtain b n'' where s: "maybeSplitChild n i m = Ok (b, n'')" and "children n' = children n''"
    using assms(1) by (auto simp: insert_child_def split: if_splits)
  then show ?thesis using maybeSplitChild_size [OF s] assms(2) by simp
qed

text \<open>\<^verbatim>\<open>insert\<close> returns the item it replaced, if any, and the changed node.\<close>

function insert_item :: "('a \<Rightarrow> 'a \<Rightarrow> bool) \<Rightarrow> 'a \<Rightarrow> nat \<Rightarrow> 'a bnode \<Rightarrow> ('a option \<times> 'a bnode) result" where
  "insert_item lt x maxItems n =
     (let (i, found) = find_item lt (items n) x
      in if found then
           result_bind (slice_get (items n) (int i)) (\<lambda>out. Ok (Some out, BNode ((items n)[i := x]) (children n)))
         else if children n = [] then
           result_bind (insertAt (items n) i x) (\<lambda>is. Ok (None, BNode is []))
         else
           result_bind (insert_child lt x maxItems n i) (\<lambda>(n', dest).
             case dest of
               Inr out \<Rightarrow> Ok (Some out, n')
             | Inl j \<Rightarrow>
                 result_bind (slice_get (children n') (int j)) (\<lambda>c.
                 result_bind (insert_item lt x maxItems c) (\<lambda>(out, c').
                   Ok (out, BNode (items n') ((children n')[j := c']))))))"
  by pat_completeness auto
termination
  by (relation "measure (\<lambda>(lt, x, m, n). size n)")
     (auto simp: slice_get_Ok_iff intro!: insert_child_size)

function get_item :: "('a \<Rightarrow> 'a \<Rightarrow> bool) \<Rightarrow> 'a \<Rightarrow> 'a bnode \<Rightarrow> 'a option result" where
  "get_item lt x n =
     (let (i, found) = find_item lt (items n) x
      in if found then result_bind (slice_get (items n) (int i)) (\<lambda>y. Ok (Some y))
         else if children n = [] then Ok None
         else result_bind (slice_get (children n) (int i)) (get_item lt x))"
  by pat_completeness auto
termination
  by (relation "measure (\<lambda>(lt, x, n). size n)") (auto simp: slice_get_Ok_iff intro!: size_child)

text \<open>The ascending branch of \<^verbatim>\<open>iterate\<close>: \<open>ascend_from\<close> is the loop from index \<open>i\<close> on and the call for the last
  child after it. The iterator changes a state of its caller; it says whether to go on, and may panic. The result is
  \<^verbatim>\<open>hit\<close>, whether to go on, and the state.\<close>

type_synonym ('a, 's) item_iterator = "'a \<Rightarrow> 's \<Rightarrow> (bool \<times> 's) result"

definition start_index :: "('a \<Rightarrow> 'a \<Rightarrow> bool) \<Rightarrow> 'a option \<Rightarrow> 'a bnode \<Rightarrow> nat" where
  "start_index lt start n = (case start of None \<Rightarrow> 0 | Some q \<Rightarrow> fst (find_item lt (items n) q))"

function ascend_from :: "('a \<Rightarrow> 'a \<Rightarrow> bool) \<Rightarrow> 'a option \<Rightarrow> 'a option \<Rightarrow> bool \<Rightarrow> ('a, 's) item_iterator
    \<Rightarrow> 'a bnode \<Rightarrow> nat \<Rightarrow> bool \<Rightarrow> 's \<Rightarrow> (bool \<times> bool \<times> 's) result" where
  "ascend_from lt start stop includeStart iter n i hit s =
     (if i < length (items n) then
        result_bind
          (if children n = [] then Ok (hit, True, s)
           else result_bind (slice_get (children n) (int i)) (\<lambda>c.
                  ascend_from lt start stop includeStart iter c (start_index lt start c) hit s))
          (\<lambda>(hit, ok, s).
             if \<not> ok then Ok (hit, False, s)
             else if \<not> includeStart \<and> \<not> hit \<and> (case start of None \<Rightarrow> False | Some q \<Rightarrow> \<not> lt q (items n ! i))
             then ascend_from lt start stop includeStart iter n (i + 1) True s
             else if (case stop of None \<Rightarrow> False | Some q \<Rightarrow> \<not> lt (items n ! i) q) then Ok (True, False, s)
             else result_bind (iter (items n ! i) s) (\<lambda>(go, s).
               if \<not> go then Ok (True, False, s)
               else ascend_from lt start stop includeStart iter n (i + 1) True s))
      else if children n = [] then Ok (hit, True, s)
      else result_bind (slice_get (children n) (int (length (children n) - 1))) (\<lambda>c.
             ascend_from lt start stop includeStart iter c (start_index lt start c) hit s))"
  by pat_completeness auto
termination
  by (relation "measures [\<lambda>(lt, start, stop, inc, iter, n, i, hit, s). size n, \<lambda>(lt, start, stop, inc, iter, n, i, hit, s). length (items n) - i]")
     (auto simp: slice_get_Ok_iff intro!: size_child)

declare insert_item.simps [simp del] get_item.simps [simp del] ascend_from.simps [simp del]

definition iterate_ascend :: "('a \<Rightarrow> 'a \<Rightarrow> bool) \<Rightarrow> 'a option \<Rightarrow> 'a option \<Rightarrow> bool \<Rightarrow> bool \<Rightarrow> ('a, 's) item_iterator
    \<Rightarrow> 'a bnode \<Rightarrow> 's \<Rightarrow> (bool \<times> bool \<times> 's) result" where
  "iterate_ascend lt start stop includeStart hit iter n =
     ascend_from lt start stop includeStart iter n (start_index lt start n) hit"

section \<open>Trees\<close>

record 'a BTree =
  bt_degree :: nat
  bt_length :: int64
  bt_root :: "'a bnode option"

definition New :: "int \<Rightarrow> 'a BTree result" where
  "New degree =
     (if degree \<le> 1 then Panic (PanicError ''bad degree'')
      else Ok \<lparr>bt_degree = nat degree, bt_length = 0, bt_root = None\<rparr>)"

definition maxItems :: "'a BTree \<Rightarrow> nat" where
  "maxItems t = bt_degree t * 2 - 1"

definition BTree_ReplaceOrInsert :: "('a \<Rightarrow> 'a \<Rightarrow> bool) \<Rightarrow> 'a \<Rightarrow> 'a BTree \<Rightarrow> ('a option \<times> 'a BTree) result" where
  "BTree_ReplaceOrInsert lt x t =
     (case bt_root t of
        None \<Rightarrow> Ok (None, t\<lparr>bt_root := Some (BNode [x] []), bt_length := bt_length t + 1\<rparr>)
      | Some r \<Rightarrow>
          result_bind
            (if length (items r) < maxItems t then Ok r
             else result_bind (split_node r (maxItems t div 2)) (\<lambda>(item2, first, second).
                    Ok (BNode [item2] [first, second])))
            (\<lambda>r'. result_bind (insert_item lt x (maxItems t) r') (\<lambda>(out, r'').
               Ok (out, t\<lparr>bt_root := Some r'',
                          bt_length := if out = None then bt_length t + 1 else bt_length t\<rparr>))))"

definition BTree_Get :: "('a \<Rightarrow> 'a \<Rightarrow> bool) \<Rightarrow> 'a BTree \<Rightarrow> 'a \<Rightarrow> 'a option result" where
  "BTree_Get lt t x = (case bt_root t of None \<Rightarrow> Ok None | Some r \<Rightarrow> get_item lt x r)"

definition AscendGreaterOrEqual :: "('a \<Rightarrow> 'a \<Rightarrow> bool) \<Rightarrow> 'a \<Rightarrow> ('a, 's) item_iterator \<Rightarrow> 'a BTree \<Rightarrow> 's \<Rightarrow> 's result" where
  "AscendGreaterOrEqual lt pivot iter t s =
     (case bt_root t of None \<Rightarrow> Ok s
      | Some r \<Rightarrow> result_bind (iterate_ascend lt (Some pivot) None True False iter r s) (\<lambda>(_, _, s). Ok s))"

definition Ascend :: "('a \<Rightarrow> 'a \<Rightarrow> bool) \<Rightarrow> ('a, 's) item_iterator \<Rightarrow> 'a BTree \<Rightarrow> 's \<Rightarrow> 's result" where
  "Ascend lt iter t s =
     (case bt_root t of None \<Rightarrow> Ok s
      | Some r \<Rightarrow> result_bind (iterate_ascend lt None None False False iter r s) (\<lambda>(_, _, s). Ok s))"

definition Len :: "'a BTree \<Rightarrow> int64" where
  "Len t = bt_length t"

end
