(* ===== verification/B_Tree_List.thy ===== *)
theory B_Tree_List
  imports B_Tree
begin

text \<open>
  The B-tree is a sorted list: under the contract of \<^verbatim>\<open>Less\<close>, stated as the interface
  \<open>strict_weak_order\<close>, \<^verbatim>\<open>Get\<close>, \<^verbatim>\<open>ReplaceOrInsert\<close> and the ascending iterations of a tree are
  those of the list of its items in order. The invariant \<open>bt_ok\<close> keeps the list sorted and the tree balanced, with between
  \<open>d - 1\<close> and \<open>2 d - 1\<close> items in every node but the root, and under it no slice is read out of its bounds.
\<close>

section \<open>The sorted list that a tree stands for\<close>

fun list_get :: "('a \<Rightarrow> 'a \<Rightarrow> bool) \<Rightarrow> 'a list \<Rightarrow> 'a \<Rightarrow> 'a option" where
  "list_get lt [] x = None"
| "list_get lt (y # ys) x = (if lt y x then list_get lt ys x else if lt x y then None else Some y)"

fun list_ins :: "('a \<Rightarrow> 'a \<Rightarrow> bool) \<Rightarrow> 'a \<Rightarrow> 'a list \<Rightarrow> 'a list" where
  "list_ins lt x [] = [x]"
| "list_ins lt x (y # ys) = (if lt y x then y # list_ins lt x ys else if lt x y then x # y # ys else x # ys)"

text \<open>A loop over a list that its body may end.\<close>

fun iter_list :: "('a, 's) item_iterator \<Rightarrow> 'a list \<Rightarrow> 's \<Rightarrow> (bool \<times> 's) result" where
  "iter_list f [] s = Ok (True, s)"
| "iter_list f (x # xs) s = result_bind (f x s) (\<lambda>(go, s). if go then iter_list f xs s else Ok (False, s))"

text \<open>The items of a node in order: those of its children, with its own items between them.\<close>

fun interleave :: "'a list list \<Rightarrow> 'a list \<Rightarrow> 'a list" where
  "interleave [] is = is"
| "interleave (b # bs) [] = b"
| "interleave (b # bs) (x # is) = b @ x # interleave bs is"

fun inorder :: "'a bnode \<Rightarrow> 'a list" where
  "inorder (BNode is cs) = interleave (map inorder cs) is"

definition bt_items :: "'a BTree \<Rightarrow> 'a list" where
  "bt_items t = (case bt_root t of None \<Rightarrow> [] | Some r \<Rightarrow> inorder r)"

text \<open>The shape of a node of height \<open>h\<close> below which all nodes have between \<open>d - 1\<close> and \<open>2 d - 1\<close> items; and the
  invariant of a tree.\<close>

fun shape :: "nat \<Rightarrow> nat \<Rightarrow> 'a bnode \<Rightarrow> bool" where
  "shape d 0 n \<longleftrightarrow> children n = []"
| "shape d (Suc h) n \<longleftrightarrow> length (children n) = Suc (length (items n)) \<and>
     (\<forall>c \<in> set (children n). shape d h c \<and> d - 1 \<le> length (items c) \<and> length (items c) \<le> 2 * d - 1)"

definition bt_ok :: "('a \<Rightarrow> 'a \<Rightarrow> bool) \<Rightarrow> 'a BTree \<Rightarrow> bool" where
  "bt_ok lt t \<longleftrightarrow> 2 \<le> bt_degree t \<and> sorted_wrt lt (bt_items t) \<and> bt_length t = of_nat (length (bt_items t)) \<and>
     (\<forall>r. bt_root t = Some r \<longrightarrow> 1 \<le> length (items r) \<and> length (items r) \<le> 2 * bt_degree t - 1 \<and>
        (\<exists>h. shape (bt_degree t) h r))"

section \<open>Bisection\<close>

lemma sort_Search_step:
  "\<not> i < j \<Longrightarrow> sort_Search f i j = i"
  "i < j \<Longrightarrow> f ((i + j) div 2) \<Longrightarrow> sort_Search f i j = sort_Search f i ((i + j) div 2)"
  "i < j \<Longrightarrow> \<not> f ((i + j) div 2) \<Longrightarrow> sort_Search f i j = sort_Search f ((i + j) div 2 + 1) j"
  by (subst sort_Search.simps, simp add: Let_def)+

lemma sort_Search_range: "i \<le> j \<Longrightarrow> i \<le> sort_Search f i j \<and> sort_Search f i j \<le> j"
proof (induction f i j rule: sort_Search.induct)
  case (1 f i j)
  let ?h = "(i + j) div 2"
  consider "\<not> i < j" | "i < j" "f ?h" | "i < j" "\<not> f ?h" by blast
  then show ?case
  proof cases
    case 1
    then show ?thesis using \<open>i \<le> j\<close> by (simp add: sort_Search_step(1))
  next
    case 2
    then have r: "sort_Search f i j = sort_Search f i ?h" by (rule sort_Search_step(2))
    have "i \<le> sort_Search f i ?h \<and> sort_Search f i ?h \<le> ?h" using 1(2) [OF 2(1) refl] 2 by simp
    then show ?thesis unfolding r using 2(1) by linarith
  next
    case 3
    then have r: "sort_Search f i j = sort_Search f (?h + 1) j" by (rule sort_Search_step(3))
    have "?h + 1 \<le> sort_Search f (?h + 1) j \<and> sort_Search f (?h + 1) j \<le> j" using 1(1) [OF 3(1) refl] 3 by simp
    then show ?thesis unfolding r using 3(1) by linarith
  qed
qed

lemma sort_Search_split:
  assumes "\<And>k l. i \<le> k \<Longrightarrow> k \<le> l \<Longrightarrow> l < j \<Longrightarrow> f k \<Longrightarrow> f l" and "i \<le> k" and "k < j"
  shows "f k \<longleftrightarrow> sort_Search f i j \<le> k"
  using assms
proof (induction f i j rule: sort_Search.induct)
  case (1 f i j)
  let ?h = "(i + j) div 2"
  note mono = 1(3) and k = 1(4,5)
  have lt: "i < j" using k by simp
  show ?case
  proof (cases "f ?h")
    case True
    have r: "sort_Search f i j = sort_Search f i ?h" using lt True by (rule sort_Search_step(2))
    show ?thesis
    proof (cases "k < ?h")
      case True
      have "f k \<longleftrightarrow> sort_Search f i ?h \<le> k"
      proof (rule 1(2) [OF lt refl])
        show "f b" if "i \<le> a" "a \<le> b" "b < ?h" "f a" for a b using mono [of a b] that lt by linarith
      qed (use True k \<open>f ?h\<close> in simp_all)
      then show ?thesis unfolding r .
    next
      case False
      have "sort_Search f i ?h \<le> ?h" using sort_Search_range [of i ?h f] lt by simp
      moreover have "f k" using mono [of ?h k] True False lt k by simp
      ultimately show ?thesis unfolding r using False by simp
    qed
  next
    case False
    have r: "sort_Search f i j = sort_Search f (?h + 1) j" using lt False by (rule sort_Search_step(3))
    show ?thesis
    proof (cases "?h < k")
      case True
      have "f k \<longleftrightarrow> sort_Search f (?h + 1) j \<le> k"
      proof (rule 1(1) [OF lt refl])
        show "f b" if "?h + 1 \<le> a" "a \<le> b" "b < j" "f a" for a b using mono [of a b] that lt by linarith
      qed (use True k \<open>\<not> f ?h\<close> in simp_all)
      then show ?thesis unfolding r .
    next
      case False
      have "?h + 1 \<le> sort_Search f (?h + 1) j" using sort_Search_range [of "?h + 1" j f] lt by simp
      moreover have "?h < j" using lt by linarith
      then have "\<not> f k" using mono [of k ?h] \<open>\<not> f ?h\<close> False k by auto
      ultimately show ?thesis unfolding r using False by simp
    qed
  qed
qed

section \<open>The parts of a node in order\<close>

abbreviation lefts :: "'a list list \<Rightarrow> 'a list \<Rightarrow> 'a list" where
  "lefts bs is \<equiv> concat (map2 (\<lambda>b x. b @ [x]) bs is)"

abbreviation rights :: "'a list \<Rightarrow> 'a list list \<Rightarrow> 'a list" where
  "rights is bs \<equiv> concat (map2 (#) is bs)"

lemma interleave_Cons: "length bs = length is \<Longrightarrow> interleave (b # bs) is = b @ rights is bs"
  by (induction bs "is" arbitrary: b rule: list_induct2) auto

lemma interleave_append:
  "length bs = length is \<Longrightarrow> interleave (bs @ b # bs') (is @ is') = lefts bs is @ interleave (b # bs') is'"
  by (induction bs "is" rule: list_induct2) auto

lemma lefts_snoc: "length bs = length is \<Longrightarrow> lefts (bs @ [b]) (is @ [x]) = lefts bs is @ b @ [x]"
  by (simp add: zip_append)

lemma inorder_leaf [simp]: "children n = [] \<Longrightarrow> inorder n = items n"
  by (cases n) simp

text \<open>A node at one of its children, and at one of its items.\<close>

lemma inorder_at_child:
  assumes "length cs = length is" and "length cs' = length is'"
  shows "inorder (BNode (is @ is') (cs @ c # cs')) =
    lefts (map inorder cs) is @ inorder c @ rights is' (map inorder cs')"
  using assms by (simp add: interleave_append interleave_Cons)

lemma inorder_at_item:
  assumes "length cs = Suc (length is)" and "length cs' = Suc (length is')"
  shows "inorder (BNode (is @ x # is') (cs @ cs')) = inorder (BNode is cs) @ x # inorder (BNode is' cs')"
proof -
  obtain ds d where cs: "cs = ds @ [d]" using assms(1) by (cases cs rule: rev_exhaust) auto
  obtain e es where cs': "cs' = e # es" using assms(2) by (cases cs') auto
  show ?thesis using assms by (simp add: cs cs' interleave_append interleave_append [where is' = "[]", simplified])
qed

lemma node_at_child:
  assumes "length (children n) = Suc (length (items n))" and "i \<le> length (items n)"
  obtains "is" is' cs c cs' where "n = BNode (is @ is') (cs @ c # cs')" "length is = i" "length cs = i" "length cs' = length is'"
proof
  show "n = BNode (take i (items n) @ drop i (items n)) (take i (children n) @ children n ! i # drop (Suc i) (children n))"
    using assms id_take_nth_drop [of i "children n"] by simp
qed (use assms in simp_all)

text \<open>What a split leaves in order.\<close>

lemma split_node_shape:
  assumes "shape d h c" and "length (items c) = 2 * d - 1" and "2 \<le> d"
  obtains item c1 c2 where "split_node c ((2 * d - 1) div 2) = Ok (item, c1, c2)"
    "inorder c = inorder c1 @ item # inorder c2" "shape d h c1" "shape d h c2"
    "length (items c1) = d - 1" "length (items c2) = d - 1"
proof -
  have m: "(2 * d - 1) div 2 = d - 1" by linarith
  obtain "is" cs where c: "c = BNode is cs" by (cases c)
  define is1 x is2 where parts: "is1 = take (d - 1) is" "x = is ! (d - 1)" "is2 = drop d is"
  have len: "length is1 = d - 1" "length is2 = d - 1" using assms(2,3) by (auto simp: c parts)
  have i: "is = is1 @ x # is2" using id_take_nth_drop [of "d - 1" "is"] assms(2,3) by (simp add: c parts)
  have x: "slice_get (is1 @ x # is2) (int (d - 1)) = Ok x" using slice_get_nat [of "d - 1" "is1 @ x # is2"] len by (simp add: nth_append)
  show thesis
  proof (cases h)
    case 0
    have "split_node c (d - 1) = Ok (x, BNode is1 [], BNode is2 [])"
      unfolding split_node_def c i bnode.sel x using assms(1,3) len 0 by (simp add: c)
    then show thesis using that [of x "BNode is1 []" "BNode is2 []", unfolded m] assms(1) len 0 by (simp add: c i)
  next
    case (Suc h')
    define cs1 cs2 where cparts: "cs1 = take d cs" "cs2 = drop d cs"
    have cs: "cs = cs1 @ cs2" by (simp add: cparts)
    have clen: "length cs1 = d" "length cs2 = d" using assms Suc by (auto simp: c cparts)
    have "split_node c (d - 1) = Ok (x, BNode is1 cs1, BNode is2 cs2)"
      unfolding split_node_def c i cs bnode.sel x using assms(3) len clen by auto
    moreover have "inorder c = inorder (BNode is1 cs1) @ x # inorder (BNode is2 cs2)"
      unfolding c i cs using assms(3) len clen by (intro inorder_at_item) simp_all
    moreover have "shape d h (BNode is1 cs1)" "shape d h (BNode is2 cs2)"
      using assms(1,3) len clen by (auto simp: Suc c cs)
    ultimately show thesis using that [of x "BNode is1 cs1" "BNode is2 cs2", unfolded m] len by simp
  qed
qed

lemma set_items_interleave: "length bs = Suc (length is) \<Longrightarrow> set is \<subseteq> set (interleave bs is)"
  by (induction bs "is" rule: interleave.induct) auto

lemma sorted_items_interleave:
  "length bs = Suc (length is) \<Longrightarrow> sorted_wrt P (interleave bs is) \<Longrightarrow> sorted_wrt P is"
proof (induction bs "is" rule: interleave.induct)
  case (3 b bs x "is")
  then show ?case using set_items_interleave [of bs "is"] by (auto simp: sorted_wrt_append)
qed auto

lemma inorder_at_found:
  assumes "children n = [] \<or> length (children n) = Suc (length (items n))" and "i < length (items n)"
  obtains A B where "inorder n = A @ items n ! i # B" "\<And>x. inorder (BNode ((items n)[i := x]) (children n)) = A @ x # B"
proof (cases "children n = []")
  case True
  then show thesis using that [of "take i (items n)" "drop (Suc i) (items n)"] assms(2) id_take_nth_drop [of i "items n"]
    by (simp add: upd_conv_take_nth_drop)
next
  case False
  obtain "is" cs where n: "n = BNode is cs" by (cases n)
  define is1 is2 cs1 cs2 where p: "is1 = take i is" "is2 = drop (Suc i) is" "cs1 = take (Suc i) cs" "cs2 = drop (Suc i) cs"
  have i: "is[i := x] = is1 @ x # is2" for x using assms(2) by (simp add: n p upd_conv_take_nth_drop)
  have len: "length cs1 = Suc (length is1)" "length cs2 = Suc (length is2)" using assms False by (simp_all add: n p)
  have cs: "cs = cs1 @ cs2" by (simp add: p)
  have "inorder (BNode (is[i := x]) cs) = inorder (BNode is1 cs1) @ x # inorder (BNode is2 cs2)" for x
    unfolding i cs by (rule inorder_at_item [OF len])
  from this this [of "is ! i"] show thesis using that [of "inorder (BNode is1 cs1)" "inorder (BNode is2 cs2)"] by (simp add: n)
qed

text \<open>What an insertion into a node of height \<open>h\<close> has to give.\<close>

definition inserted :: "('a \<Rightarrow> 'a \<Rightarrow> bool) \<Rightarrow> nat \<Rightarrow> nat \<Rightarrow> 'a \<Rightarrow> 'a list \<Rightarrow> nat \<Rightarrow> nat \<Rightarrow> ('a option \<times> 'a bnode) result \<Rightarrow> bool" where
  "inserted lt d h x xs lo hi r \<longleftrightarrow> (\<exists>n. r = Ok (list_get lt xs x, n) \<and> inorder n = list_ins lt x xs \<and> shape d h n \<and>
     lo \<le> length (items n) \<and> length (items n) \<le> hi)"

text \<open>The recursive call of \<^verbatim>\<open>insert\<close> for the child \<open>j\<close>.\<close>

definition descend :: "('a \<Rightarrow> 'a \<Rightarrow> bool) \<Rightarrow> 'a \<Rightarrow> nat \<Rightarrow> 'a bnode \<Rightarrow> nat \<Rightarrow> ('a option \<times> 'a bnode) result" where
  "descend lt x m n j =
     result_bind (slice_get (children n) (int j)) (\<lambda>c.
     result_bind (insert_item lt x m c) (\<lambda>(out, c'). Ok (out, BNode (items n) ((children n)[j := c']))))"

lemma insert_item_child:
  assumes "find_item lt (items n) x = (i, False)" and "children n \<noteq> []"
  shows "insert_item lt x m n = result_bind (insert_child lt x m n i)
    (\<lambda>(n', dest). case dest of Inr out \<Rightarrow> Ok (Some out, n') | Inl j \<Rightarrow> descend lt x m n' j)"
  unfolding descend_def using assms by (subst insert_item.simps) simp

text \<open>What the caller of an iteration sees: whether it ran to the end, and the state.\<close>

definition outcome :: "(bool \<times> bool \<times> 's) result \<Rightarrow> (bool \<times> 's) result" where
  "outcome r = result_bind r (\<lambda>(hit, ok, s). Ok (ok, s))"

definition before_start :: "('a \<Rightarrow> 'a \<Rightarrow> bool) \<Rightarrow> 'a option \<Rightarrow> 'a \<Rightarrow> bool" where
  "before_start lt start y = (case start of None \<Rightarrow> False | Some q \<Rightarrow> lt y q)"

lemma iter_list_append:
  "iter_list f (xs @ ys) s = result_bind (iter_list f xs s) (\<lambda>(go, s). if go then iter_list f ys s else Ok (False, s))"
proof (induction xs arbitrary: s)
  case (Cons x xs)
  then show ?case by (cases "f x s") auto
qed simp

lemma sorted_child:
  assumes "length (children n) = Suc (length (items n))" and "c \<in> set (children n)" and "sorted_wrt P (inorder n)"
  shows "sorted_wrt P (inorder c)"
proof -
  obtain i where i: "i \<le> length (items n)" "c = children n ! i" using assms(1,2) by (auto simp: in_set_conv_nth less_Suc_eq_le)
  obtain "is" is' cs c' cs' where n: "n = BNode (is @ is') (cs @ c' # cs')" "length is = i" "length cs = i" "length cs' = length is'"
    by (rule node_at_child [OF assms(1) i(1)])
  then have "c' = c" using i(2) by (simp add: nth_append)
  then show ?thesis using assms(3) n inorder_at_child [of cs "is" cs' is' c] by (simp add: sorted_wrt_append)
qed

lemma inorder_suffix:
  assumes "children n = [] \<or> length (children n) = Suc (length (items n))" and "i \<le> length (items n)"
  shows "\<exists>A. inorder n = A @ interleave (drop i (map inorder (children n))) (drop i (items n))"
proof (cases "children n = []")
  case True
  then show ?thesis by (intro exI [of _ "take i (items n)"]) simp
next
  case False
  then have c: "length (children n) = Suc (length (items n))" using assms(1) by simp
  obtain "is" is' cs c cs' where n: "n = BNode (is @ is') (cs @ c # cs')" "length is = i" "length cs = i" "length cs' = length is'"
    by (rule node_at_child [OF c assms(2)])
  then show ?thesis by (intro exI [of _ "lefts (map inorder cs) is"]) (simp add: interleave_append)
qed

lemma ascend_step:
  assumes "i < length (items n)" and "inc \<or> start = None"
  shows "outcome (ascend_from lt start None inc iter n i hit s) =
    result_bind (if children n = [] then Ok (True, s)
                 else result_bind (slice_get (children n) (int i)) (\<lambda>c.
                        outcome (ascend_from lt start None inc iter c (start_index lt start c) hit s)))
      (\<lambda>(ok, s). if \<not> ok then Ok (False, s)
         else result_bind (iter (items n ! i) s) (\<lambda>(go, s).
                if \<not> go then Ok (False, s) else outcome (ascend_from lt start None inc iter n (Suc i) True s)))"
proof -
  let ?k = "\<lambda>hit s. result_bind (iter (items n ! i) s) (\<lambda>(go, s).
    if \<not> go then Ok (True, False, s) else ascend_from lt start None inc iter n (Suc i) True s)"
  let ?r = "if children n = [] then Ok (hit, True, s) else result_bind (slice_get (children n) (int i)) (\<lambda>c.
    ascend_from lt start None inc iter c (start_index lt start c) hit s)"
  have step: "ascend_from lt start None inc iter n i hit s =
      result_bind ?r (\<lambda>(hit, ok, s). if \<not> ok then Ok (hit, False, s) else ?k hit s)"
    using assms by (subst ascend_from.simps) (auto split: prod.splits option.splits intro!: result_bind_cong)
  have k: "outcome (?k hit s) = result_bind (iter (items n ! i) s) (\<lambda>(go, s).
      if \<not> go then Ok (False, s) else outcome (ascend_from lt start None inc iter n (Suc i) True s))" for hit s
    by (cases "iter (items n ! i) s") (auto simp: outcome_def)
  have bind: "outcome (result_bind r (\<lambda>(hit, ok, s). if \<not> ok then Ok (hit, False, s) else ?k hit s)) =
      result_bind (outcome r) (\<lambda>(ok, s). if \<not> ok then Ok (False, s) else outcome (?k False s))" for r
    by (cases r) (auto simp: outcome_def)
  have r: "outcome ?r = (if children n = [] then Ok (True, s) else result_bind (slice_get (children n) (int i)) (\<lambda>c.
      outcome (ascend_from lt start None inc iter c (start_index lt start c) hit s)))"
    by (cases "slice_get (children n) (int i)") (auto simp: outcome_def)
  show ?thesis unfolding step bind r k ..
qed

section \<open>The order of the items\<close>

text \<open>The contract of \<^verbatim>\<open>Less\<close> as the package documents it: a strict weak ordering, under which items that are not
  less than each other count as equal.\<close>

locale strict_weak_order =
  fixes lt :: "'a \<Rightarrow> 'a \<Rightarrow> bool"
  assumes irrefl: "\<not> lt a a"
    and trans: "lt a b \<Longrightarrow> lt b c \<Longrightarrow> lt a c"
    and weak: "lt a c \<Longrightarrow> lt a b \<or> lt b c"
begin

lemma asym: "lt a b \<Longrightarrow> \<not> lt b a"
  using irrefl trans by blast

lemma list_get_left: "\<forall>y \<in> set L. lt y x \<Longrightarrow> list_get lt (L @ M) x = list_get lt M x"
  by (induction L) auto

lemma list_get_right: "\<forall>y \<in> set R. lt x y \<Longrightarrow> list_get lt (M @ R) x = list_get lt M x"
proof (induction M)
  case Nil
  then show ?case by (cases R) (auto dest: asym)
qed auto

lemma list_ins_left: "\<forall>y \<in> set L. lt y x \<Longrightarrow> list_ins lt x (L @ M) = L @ list_ins lt x M"
  by (induction L) auto

lemma list_ins_right: "\<forall>y \<in> set R. lt x y \<Longrightarrow> list_ins lt x (M @ R) = list_ins lt x M @ R"
proof (induction M)
  case Nil
  then show ?case by (cases R) (auto dest: asym)
qed auto

lemmas list_local = list_get_left list_get_right list_ins_left list_ins_right

lemma set_list_ins: "set (list_ins lt x xs) \<subseteq> insert x (set xs)"
  by (induction xs) auto

lemma sorted_list_ins: "sorted_wrt lt xs \<Longrightarrow> sorted_wrt lt (list_ins lt x xs)"
proof (induction xs)
  case (Cons y ys)
  then have y: "\<forall>z \<in> set ys. lt y z" by simp
  consider "lt y x" | "lt x y" | "\<not> lt y x" "\<not> lt x y" by blast
  then show ?case
  proof cases
    case 1
    then show ?thesis using Cons y set_list_ins [of x ys] by auto
  next
    case 2
    then have "\<forall>z \<in> set ys. lt x z" using y trans by blast
    then show ?thesis using 2 Cons asym [OF 2] by simp
  next
    case 3
    then have "\<forall>z \<in> set ys. lt x z" using y weak by blast
    then show ?thesis using 3 Cons by simp
  qed
qed simp

lemma length_list_ins: "length (list_ins lt x xs) = (if list_get lt xs x = None then Suc (length xs) else length xs)"
  by (induction xs) auto

text \<open>The bisection in a sorted node finds the item that counts as equal, or the child to go on with.\<close>

lemma find_item_found:
  assumes "sorted_wrt lt s" and "find_item lt s x = (i, True)"
  shows "i < length s \<and> \<not> lt (s ! i) x \<and> \<not> lt x (s ! i)"
proof -
  let ?j = "sort_Search (\<lambda>i. lt x (s ! i)) 0 (length s)"
  have j: "0 < ?j" "\<not> lt (s ! i) x" "i = ?j - 1" using assms(2) by (auto simp: find_item_def Let_def split: if_splits)
  have "?j \<le> length s" using sort_Search_range [of 0 "length s"] by simp
  then have i: "i < length s" "\<not> ?j \<le> i" using j by linarith+
  have "lt x (s ! i) \<longleftrightarrow> ?j \<le> i"
    by (rule sort_Search_split) (use i sorted_wrt_nth_less [OF assms(1)] trans le_neq_implies_less in \<open>blast | simp\<close>)+
  then show ?thesis using i j by simp
qed

lemma find_item_not_found:
  assumes "sorted_wrt lt s" and "find_item lt s x = (i, False)"
  shows "i \<le> length s \<and> (\<forall>y \<in> set (take i s). lt y x) \<and> (\<forall>y \<in> set (drop i s). lt x y)"
proof -
  let ?j = "sort_Search (\<lambda>i. lt x (s ! i)) 0 (length s)"
  have j: "i = ?j" "0 < i \<Longrightarrow> lt (s ! (i - 1)) x" using assms(2) by (auto simp: find_item_def Let_def split: if_splits)
  have "?j \<le> length s" using sort_Search_range [of 0 "length s"] by simp
  then have i: "i \<le> length s" using j by simp
  have r: "lt x (s ! k) \<longleftrightarrow> i \<le> k" if "k < length s" for k
    unfolding j(1)
    by (rule sort_Search_split) (use that sorted_wrt_nth_less [OF assms(1)] trans le_neq_implies_less in \<open>blast | simp\<close>)+
  have "lt (s ! k) x" if "k < i" for k
  proof (cases "k = i - 1")
    case False
    then have "lt (s ! k) (s ! (i - 1))" using that i by (intro sorted_wrt_nth_less [OF assms(1)]) linarith+
    moreover have "lt (s ! (i - 1)) x" using that j(2) by simp
    ultimately show ?thesis by (rule trans)
  qed (use that j(2) in simp)
  then show ?thesis using i r by (auto simp: in_set_conv_nth)
qed

lemma list_equal_at:
  assumes "sorted_wrt lt (A @ y # B)" and "\<not> lt x y" and "\<not> lt y x"
  shows "list_get lt (A @ y # B) x = Some y" and "list_ins lt x (A @ y # B) = A @ x # B"
proof -
  have "\<forall>a \<in> set A. lt a x" using assms weak by (fastforce simp: sorted_wrt_append)
  then show "list_get lt (A @ y # B) x = Some y" "list_ins lt x (A @ y # B) = A @ x # B"
    using assms(2,3) by (simp_all add: list_get_left list_ins_left)
qed

text \<open>The items of a node around the child that the search goes on with.\<close>

lemma lefts_less:
  assumes "length bs = length is" and "sorted_wrt lt (lefts bs is)" and "\<forall>y \<in> set is. lt y x"
  shows "\<forall>y \<in> set (lefts bs is). lt y x"
proof (cases "is" rule: rev_exhaust)
  case (snoc js z)
  then obtain cs b where bs: "bs = cs @ [b]" "length cs = length js" using assms(1) by (cases bs rule: rev_exhaust) auto
  then have "\<forall>y \<in> set (lefts cs js @ b). lt y z" using assms(2) snoc by (auto simp: sorted_wrt_append)
  then show ?thesis using assms(3) snoc bs trans by auto
qed simp

lemma rights_greater:
  assumes "length bs = length is" and "sorted_wrt lt (rights is bs)" and "\<forall>y \<in> set is. lt x y"
  shows "\<forall>y \<in> set (rights is bs). lt x y"
proof (cases "is")
  case (Cons z js)
  then obtain b cs where bs: "bs = b # cs" using assms(1) by (cases bs) auto
  then have "\<forall>y \<in> set (b @ rights js cs). lt z y" using assms(2) Cons by (auto simp: sorted_wrt_append)
  then show ?thesis using assms(3) Cons bs trans by auto
qed simp

lemma node_at_search:
  assumes "sorted_wrt lt (inorder n)" and "length (children n) = Suc (length (items n))" and "find_item lt (items n) x = (i, False)"
  obtains "is" is' cs c cs' where "n = BNode (is @ is') (cs @ c # cs')" "length is = i" "length cs = i" "length cs' = length is'"
    "\<forall>y \<in> set (lefts (map inorder cs) is). lt y x" "\<forall>y \<in> set (rights is' (map inorder cs')). lt x y" "sorted_wrt lt (inorder c)"
proof -
  have "sorted_wrt lt (items n)" using assms(1,2) sorted_items_interleave [of "map inorder (children n)" "items n" lt] by (cases n) simp
  then have f: "i \<le> length (items n)" "\<forall>y \<in> set (take i (items n)). lt y x" "\<forall>y \<in> set (drop i (items n)). lt x y"
    using find_item_not_found [OF _ assms(3)] by simp_all
  obtain "is" is' cs c cs' where n: "n = BNode (is @ is') (cs @ c # cs')" "length is = i" "length cs = i" "length cs' = length is'"
    using node_at_child [OF assms(2) f(1)] by metis
  have "inorder n = lefts (map inorder cs) is @ inorder c @ rights is' (map inorder cs')"
    unfolding n(1) using n by (intro inorder_at_child) simp_all
  then have s: "sorted_wrt lt (lefts (map inorder cs) is)" "sorted_wrt lt (inorder c)" "sorted_wrt lt (rights is' (map inorder cs'))"
    using assms(1) by (simp_all add: sorted_wrt_append)
  have l: "\<forall>y \<in> set (lefts (map inorder cs) is). lt y x" using f(2) n by (intro lefts_less s) simp_all
  have r: "\<forall>y \<in> set (rights is' (map inorder cs')). lt x y" using f(3) n by (intro rights_greater s) simp_all
  show thesis by (rule that [OF n l r s(2)])
qed

lemma find_item_found_at:
  assumes "sorted_wrt lt (inorder n)" and "children n = [] \<or> length (children n) = Suc (length (items n))"
    and "find_item lt (items n) x = (i, True)"
  obtains A B where "inorder n = A @ items n ! i # B" "\<And>x. inorder (BNode ((items n)[i := x]) (children n)) = A @ x # B"
    "i < length (items n)" "list_get lt (inorder n) x = Some (items n ! i)" "list_ins lt x (inorder n) = A @ x # B"
proof -
  have "sorted_wrt lt (items n)"
    using assms(1,2) sorted_items_interleave [of "map inorder (children n)" "items n" lt] by (cases n) auto
  then have f: "i < length (items n)" "\<not> lt (items n ! i) x" "\<not> lt x (items n ! i)" using find_item_found [OF _ assms(3)] by simp_all
  obtain A B where i: "inorder n = A @ items n ! i # B" "\<And>x. inorder (BNode ((items n)[i := x]) (children n)) = A @ x # B"
    using inorder_at_found [OF assms(2) f(1)] by metis
  show thesis using that [OF i f(1)] list_equal_at [of A "items n ! i" B x] assms(1) f(2,3) i(1) by simp
qed

lemma get_item_list:
  assumes "shape d h n" and "sorted_wrt lt (inorder n)"
  shows "get_item lt x n = Ok (list_get lt (inorder n) x)"
  using assms
proof (induction h arbitrary: n)
  case (Suc h)
  obtain i found where f: "find_item lt (items n) x = (i, found)" by force
  have c: "length (children n) = Suc (length (items n))" using Suc by simp
  show ?case
  proof (cases found)
    case True
    with f have f: "find_item lt (items n) x = (i, True)" by simp
    obtain A B where "i < length (items n)" "list_get lt (inorder n) x = Some (items n ! i)"
      using find_item_found_at [OF Suc(3) disjI2 [OF c] f] by metis
    then show ?thesis using f by (subst get_item.simps) simp
  next
    case False
    with f have f: "find_item lt (items n) x = (i, False)" by simp
    obtain "is" is' cs c cs' where n: "n = BNode (is @ is') (cs @ c # cs')" "length is = i" "length cs = i" "length cs' = length is'"
      and lr: "\<forall>y \<in> set (lefts (map inorder cs) is). lt y x" "\<forall>y \<in> set (rights is' (map inorder cs')). lt x y"
      and s: "sorted_wrt lt (inorder c)" by (rule node_at_search [OF Suc(3) c f])
    have "inorder n = lefts (map inorder cs) is @ inorder c @ rights is' (map inorder cs')"
      unfolding n(1) using n by (intro inorder_at_child) simp_all
    moreover have "get_item lt x n = get_item lt x c"
      using f n slice_get_nat [of i "cs @ c # cs'"] by (subst get_item.simps) (simp add: nth_append)
    moreover have "shape d h c" using Suc(2) n by simp
    ultimately show ?thesis using Suc(1) s lr by (simp add: list_get_left list_get_right)
  qed
next
  case 0
  obtain i found where f: "find_item lt (items n) x = (i, found)" by force
  show ?case
  proof (cases found)
    case True
    with f have f: "find_item lt (items n) x = (i, True)" by simp
    obtain A B where "i < length (items n)" "list_get lt (inorder n) x = Some (items n ! i)"
      using find_item_found_at [OF 0(2) _ f] 0(1) by (metis shape.simps(1))
    then show ?thesis using f by (subst get_item.simps) simp
  next
    case False
    with f have f: "find_item lt (items n) x = (i, False)" by simp
    then have "\<forall>y \<in> set (take i (items n)). lt y x" "\<forall>y \<in> set (drop i (items n)). lt x y"
      using find_item_not_found [of "items n" x i] 0 by simp_all
    then have "list_get lt (take i (items n) @ [] @ drop i (items n)) x = None"
      by (simp only: list_get_left list_get_right list_get.simps)
    then show ?thesis using f 0 by (subst get_item.simps) simp
  qed
qed

text \<open>The insertion into a child is the insertion into the node.\<close>

lemma descend_inserted:
  assumes "length is = length cs" and "length cs' = length is'"
    and "\<forall>y \<in> set (lefts (map inorder cs) is). lt y x" and "\<forall>y \<in> set (rights is' (map inorder cs')). lt x y"
    and "shape d (Suc h) (BNode (is @ is') (cs @ c # cs'))" and "length (items c) < 2 * d - 1"
    and "inserted lt d h x (inorder c) (length (items c)) (Suc (length (items c))) (insert_item lt x m c)"
  shows "inserted lt d (Suc h) x (inorder (BNode (is @ is') (cs @ c # cs'))) (length (is @ is')) (length (is @ is'))
    (descend lt x m (BNode (is @ is') (cs @ c # cs')) (length cs))"
proof -
  obtain c' where c': "insert_item lt x m c = Ok (list_get lt (inorder c) x, c')" "inorder c' = list_ins lt x (inorder c)"
    "shape d h c'" "length (items c) \<le> length (items c')" "length (items c') \<le> Suc (length (items c))"
    using assms(7) by (auto simp: inserted_def)
  have i: "inorder (BNode (is @ is') (cs @ b # cs')) = lefts (map inorder cs) is @ inorder b @ rights is' (map inorder cs')" for b
    using assms(1,2) by (intro inorder_at_child) simp_all
  have "descend lt x m (BNode (is @ is') (cs @ c # cs')) (length cs) =
      Ok (list_get lt (inorder c) x, BNode (is @ is') (cs @ c' # cs'))"
    using slice_get_nat [of "length cs" "cs @ c # cs'"] by (simp add: descend_def c'(1))
  moreover have "shape d (Suc h) (BNode (is @ is') (cs @ c' # cs'))"
    using assms(5,6) c'(3-5) by auto
  moreover have "list_get lt (inorder (BNode (is @ is') (cs @ c # cs'))) x = list_get lt (inorder c) x"
    unfolding i by (simp only: list_get_left [OF assms(3)] list_get_right [OF assms(4)])
  moreover have "list_ins lt x (inorder (BNode (is @ is') (cs @ c # cs'))) = inorder (BNode (is @ is') (cs @ c' # cs'))"
    unfolding i c'(2) by (simp only: list_ins_left [OF assms(3)] list_ins_right [OF assms(4)])
  ultimately show ?thesis by (simp add: inserted_def del: inorder.simps shape.simps)
qed

lemma insert_found:
  assumes "shape d h n" and "sorted_wrt lt (inorder n)" and f: "find_item lt (items n) x = (i, True)"
  shows "inserted lt d h x (inorder n) (length (items n)) (Suc (length (items n))) (insert_item lt x m n)"
proof -
  have c: "children n = [] \<or> length (children n) = Suc (length (items n))" using assms(1) by (cases h) auto
  obtain A B where "\<And>x. inorder (BNode ((items n)[i := x]) (children n)) = A @ x # B" "i < length (items n)"
    "list_get lt (inorder n) x = Some (items n ! i)" "list_ins lt x (inorder n) = A @ x # B"
    using find_item_found_at [OF assms(2) c f] by metis
  moreover have "shape d h (BNode ((items n)[i := x]) (children n))" using assms(1) by (cases h) auto
  ultimately show ?thesis unfolding inserted_def using f by (subst insert_item.simps) simp
qed

lemma insert_leaf:
  assumes "children n = []" and "sorted_wrt lt (inorder n)" and f: "find_item lt (items n) x = (i, False)"
  shows "inserted lt d 0 x (inorder n) (length (items n)) (Suc (length (items n))) (insert_item lt x m n)"
proof -
  have i: "i \<le> length (items n)" "\<forall>y \<in> set (take i (items n)). lt y x" "\<forall>y \<in> set (drop i (items n)). lt x y"
    using find_item_not_found [OF _ f] assms by simp_all
  then have "list_get lt (take i (items n) @ [] @ drop i (items n)) x = None"
    "list_ins lt x (take i (items n) @ [] @ drop i (items n)) = take i (items n) @ [x] @ drop i (items n)"
    by (simp_all only: list_local list_get.simps list_ins.simps)
  moreover have "insert_item lt x m n = Ok (None, BNode (take i (items n) @ [x] @ drop i (items n)) [])"
    using f i(1) assms(1) by (subst insert_item.simps) (simp add: insertAt_def)
  ultimately show ?thesis using i(1) assms(1) by (simp add: inserted_def)
qed

text \<open>A full child is split before the insertion goes on in one of the halves.\<close>

lemma insert_split:
  assumes d: "2 \<le> d" and len: "length is = length cs" "length cs' = length is'"
    and lr: "\<forall>y \<in> set (lefts (map inorder cs) is). lt y x" "\<forall>y \<in> set (rights is' (map inorder cs')). lt x y"
    and s: "sorted_wrt lt (inorder c)" and n: "shape d (Suc h) (BNode (is @ is') (cs @ c # cs'))"
    and sp: "inorder c = inorder c1 @ y # inorder c2" "shape d h c1" "shape d h c2" "length (items c1) = d - 1" "length (items c2) = d - 1"
    and IH: "\<And>c. shape d h c \<Longrightarrow> sorted_wrt lt (inorder c) \<Longrightarrow> length (items c) < 2 * d - 1 \<Longrightarrow>
      inserted lt d h x (inorder c) (length (items c)) (Suc (length (items c))) (insert_item lt x m c)"
  shows "lt x y \<Longrightarrow> inserted lt d (Suc h) x (inorder (BNode (is @ is') (cs @ c # cs'))) (Suc (length (is @ is'))) (Suc (length (is @ is')))
      (descend lt x m (BNode (is @ y # is') (cs @ c1 # c2 # cs')) (length cs))"
    and "lt y x \<Longrightarrow> inserted lt d (Suc h) x (inorder (BNode (is @ is') (cs @ c # cs'))) (Suc (length (is @ is'))) (Suc (length (is @ is')))
      (descend lt x m (BNode (is @ y # is') (cs @ c1 # c2 # cs')) (Suc (length cs)))"
    and "\<not> lt x y \<Longrightarrow> \<not> lt y x \<Longrightarrow> inserted lt d (Suc h) x (inorder (BNode (is @ is') (cs @ c # cs'))) (Suc (length (is @ is')))
      (Suc (length (is @ is'))) (Ok (Some y, BNode (is @ x # is') (cs @ c1 # c2 # cs')))"
proof -
  have at: "inorder (BNode (is @ z # is') (cs @ c1 # c2 # cs')) =
      lefts (map inorder cs) is @ inorder c1 @ z # inorder c2 @ rights is' (map inorder cs')" for z
    using inorder_at_child [of cs "is" "c2 # cs'" "z # is'" c1] len by simp
  have same: "inorder (BNode (is @ is') (cs @ c # cs')) = inorder (BNode (is @ y # is') (cs @ c1 # c2 # cs'))"
    unfolding at using inorder_at_child [of cs "is" cs' is' c] len sp(1) by simp
  have sh: "shape d (Suc h) (BNode (is @ z # is') (cs @ c1 # c2 # cs'))" for z using n sp d by auto
  have small: "d - 1 < 2 * d - 1" using d by linarith
  have cs: "sorted_wrt lt (inorder c1)" "sorted_wrt lt (inorder c2)" "\<forall>z \<in> set (inorder c1). lt z y" "\<forall>z \<in> set (inorder c2). lt y z"
    using s sp(1) by (auto simp: sorted_wrt_append)
  {
    assume "lt x y"
    moreover have "\<forall>z \<in> set (inorder c2). lt x z" using cs(4) trans [OF \<open>lt x y\<close>] by blast
    ultimately have r: "\<forall>z \<in> set (rights (y # is') (map inorder (c2 # cs'))). lt x z" using lr(2) by auto
    have "inserted lt d (Suc h) x (inorder (BNode (is @ y # is') (cs @ c1 # c2 # cs'))) (length (is @ y # is')) (length (is @ y # is'))
        (descend lt x m (BNode (is @ y # is') (cs @ c1 # c2 # cs')) (length cs))"
      using len sp(2,4) small sh IH [OF sp(2) cs(1)] by (intro descend_inserted lr(1) r) simp_all
    then show "inserted lt d (Suc h) x (inorder (BNode (is @ is') (cs @ c # cs'))) (Suc (length (is @ is'))) (Suc (length (is @ is')))
        (descend lt x m (BNode (is @ y # is') (cs @ c1 # c2 # cs')) (length cs))" unfolding same by simp
  }
  {
    assume "lt y x"
    moreover have "\<forall>z \<in> set (inorder c1). lt z x" using cs(3) trans [OF _ \<open>lt y x\<close>] by blast
    ultimately have l: "\<forall>z \<in> set (lefts (map inorder (cs @ [c1])) (is @ [y])). lt z x"
      using lr(1) len lefts_snoc [of "map inorder cs" "is"] by auto
    have "inserted lt d (Suc h) x (inorder (BNode ((is @ [y]) @ is') ((cs @ [c1]) @ c2 # cs'))) (length ((is @ [y]) @ is')) (length ((is @ [y]) @ is'))
        (descend lt x m (BNode ((is @ [y]) @ is') ((cs @ [c1]) @ c2 # cs')) (length (cs @ [c1])))"
      using len sp(3,5) small sh IH [OF sp(3) cs(2)] by (intro descend_inserted lr(2) l) simp_all
    then show "inserted lt d (Suc h) x (inorder (BNode (is @ is') (cs @ c # cs'))) (Suc (length (is @ is'))) (Suc (length (is @ is')))
        (descend lt x m (BNode (is @ y # is') (cs @ c1 # c2 # cs')) (Suc (length cs)))" unfolding same by simp
  }
  {
    assume e: "\<not> lt x y" "\<not> lt y x"
    have "sorted_wrt lt (inorder c1 @ y # inorder c2)" using s sp(1) by simp
    note eq = list_equal_at [OF this e]
    have "list_get lt (inorder (BNode (is @ is') (cs @ c # cs'))) x = Some y"
      unfolding same at list_get_left [OF lr(1)] using list_get_right [OF lr(2), of "inorder c1 @ y # inorder c2"] eq(1) by simp
    moreover have "list_ins lt x (inorder (BNode (is @ is') (cs @ c # cs'))) = inorder (BNode (is @ x # is') (cs @ c1 # c2 # cs'))"
      unfolding same at list_ins_left [OF lr(1)] using list_ins_right [OF lr(2), of "inorder c1 @ y # inorder c2"] eq(2) by simp
    ultimately show "inserted lt d (Suc h) x (inorder (BNode (is @ is') (cs @ c # cs'))) (Suc (length (is @ is')))
        (Suc (length (is @ is'))) (Ok (Some y, BNode (is @ x # is') (cs @ c1 # c2 # cs')))"
      using sh by (simp add: inserted_def del: inorder.simps shape.simps)
  }
qed

lemma insert_item_inserted:
  assumes d: "2 \<le> d" and "shape d h n" and "sorted_wrt lt (inorder n)" and "length (items n) < 2 * d - 1"
  shows "inserted lt d h x (inorder n) (length (items n)) (Suc (length (items n))) (insert_item lt x (2 * d - 1) n)"
  using assms(2-)
proof (induction h arbitrary: n)
  case 0
  obtain i found where "find_item lt (items n) x = (i, found)" by force
  then show ?case using insert_found [OF 0(1,2)] insert_leaf [of n x i d] 0 by (cases found) auto
next
  case (Suc h)
  obtain i found where f: "find_item lt (items n) x = (i, found)" by force
  show ?case
  proof (cases found)
    case True
    then show ?thesis using insert_found [OF Suc(2,3)] f by simp
  next
    case False
    with f have f: "find_item lt (items n) x = (i, False)" by simp
    have len: "length (children n) = Suc (length (items n))" using Suc(2) by simp
    obtain "is" is' cs c cs' where n: "n = BNode (is @ is') (cs @ c # cs')" "length is = i" "length cs = i" "length cs' = length is'"
      and lr: "\<forall>y \<in> set (lefts (map inorder cs) is). lt y x" "\<forall>y \<in> set (rights is' (map inorder cs')). lt x y"
      and s: "sorted_wrt lt (inorder c)" by (rule node_at_search [OF Suc(3) len f])
    note step = insert_item_child [OF f, of "2 * d - 1"]
    have c: "shape d h c" "length (items c) \<le> 2 * d - 1" and ni: "slice_get (children n) (int i) = Ok c"
      using Suc(2) n slice_get_nat [of i "cs @ c # cs'"] by (simp_all add: nth_append)
    show ?thesis
    proof (cases "length (items c) < 2 * d - 1")
      case True
      have "insert_item lt x (2 * d - 1) n = descend lt x (2 * d - 1) n i"
        using step n(1) True ni by (simp add: insert_child_def maybeSplitChild_def)
      moreover have "inserted lt d (Suc h) x (inorder n) (length (items n)) (length (items n)) (descend lt x (2 * d - 1) n i)"
        using descend_inserted [OF _ n(4) lr _ True Suc(1) [OF c(1) s True]] Suc(2) n by simp
      ultimately show ?thesis unfolding inserted_def by fastforce
    next
      case False
      then obtain y c1 c2 where sp: "split_node c ((2 * d - 1) div 2) = Ok (y, c1, c2)"
        "inorder c = inorder c1 @ y # inorder c2" "shape d h c1" "shape d h c2" "length (items c1) = d - 1" "length (items c2) = d - 1"
        using split_node_shape [OF c(1) _ d] c(2) by (metis le_antisym not_less)
      let ?n = "BNode (is @ y # is') (cs @ c1 # c2 # cs')"
      have "maybeSplitChild n i (2 * d - 1) = Ok (True, ?n)"
        using False ni sp(1) n by (simp add: maybeSplitChild_def insertAt_def list_update_append)
      then have "insert_child lt x (2 * d - 1) n i = (if lt x y then Ok (?n, Inl i) else if lt y x then Ok (?n, Inl (i + 1))
          else Ok (BNode (is @ x # is') (cs @ c1 # c2 # cs'), Inr y))"
        using n slice_get_nat [of i "is @ y # is'"] by (simp add: insert_child_def nth_append list_update_append)
      then have "insert_item lt x (2 * d - 1) n = (if lt x y then descend lt x (2 * d - 1) ?n i
          else if lt y x then descend lt x (2 * d - 1) ?n (Suc i) else Ok (Some y, BNode (is @ x # is') (cs @ c1 # c2 # cs')))"
        using step n(1) by simp
      moreover have "inserted lt d (Suc h) x (inorder n) (Suc (length (items n))) (Suc (length (items n))) \<dots>"
      proof -
        have "shape d (Suc h) (BNode (is @ is') (cs @ c # cs'))" "length is = length cs" using Suc(2) n by simp_all
        note parts = insert_split [OF d this(2) n(4) lr s this(1) sp(2-6) Suc(1), simplified n(3)]
        show ?thesis using parts by (cases "lt x y"; cases "lt y x") (simp_all add: n(1) del: inorder.simps)
      qed
      ultimately show ?thesis unfolding inserted_def by fastforce
    qed
  qed
qed

text \<open>The iteration from a start on: the items that are not less than it, in order.\<close>

lemma dropWhile_greater:
  assumes "sorted_wrt lt (y # xs)" and "\<not> before_start lt start y"
  shows "dropWhile (before_start lt start) xs = xs"
proof -
  have "\<not> before_start lt start z" if "z \<in> set xs" for z
    using assms that trans by (auto simp: before_start_def split: option.splits)
  then show ?thesis by (cases xs) auto
qed

lemma start_index_at:
  assumes "sorted_wrt lt (items n)"
  shows "start_index lt start n \<le> length (items n)"
    and "\<forall>y \<in> set (take (start_index lt start n) (items n)). before_start lt start y"
    and "start_index lt start n < length (items n) \<Longrightarrow> \<not> before_start lt start (items n ! start_index lt start n)"
proof -
  have "start_index lt start n \<le> length (items n) \<and>
      (\<forall>y \<in> set (take (start_index lt start n) (items n)). before_start lt start y) \<and>
      (start_index lt start n < length (items n) \<longrightarrow> \<not> before_start lt start (items n ! start_index lt start n))"
  proof (cases start)
    case (Some q)
    obtain i found where f: "find_item lt (items n) q = (i, found)" by force
    show ?thesis
    proof (cases found)
      case True
      then have i: "i < length (items n)" "\<not> lt (items n ! i) q" "\<not> lt q (items n ! i)" using find_item_found [OF assms] f by auto
      then have "lt (items n ! k) q" if "k < i" for k
        using weak [OF sorted_wrt_nth_less [OF assms that i(1)], of q] by blast
      then show ?thesis using i f by (auto simp: Some start_index_def before_start_def in_set_conv_nth)
    next
      case False
      then have "i \<le> length (items n)" "\<forall>y \<in> set (take i (items n)). lt y q" "\<forall>y \<in> set (drop i (items n)). lt q y"
        using find_item_not_found [OF assms] f by auto
      moreover have "items n ! i \<in> set (drop i (items n))" if "i < length (items n)"
        using that by (metis Cons_nth_drop_Suc list.set_intros(1))
      ultimately show ?thesis using f asym by (auto simp: Some start_index_def before_start_def)
    qed
  qed (simp add: start_index_def before_start_def)
  then show "start_index lt start n \<le> length (items n)"
    "\<forall>y \<in> set (take (start_index lt start n) (items n)). before_start lt start y"
    "start_index lt start n < length (items n) \<Longrightarrow> \<not> before_start lt start (items n ! start_index lt start n)" by simp_all
qed

lemma drop_to_start:
  assumes "sorted_wrt lt (inorder n)" and "children n = [] \<or> length (children n) = Suc (length (items n))"
  shows "dropWhile (before_start lt start) (inorder n) = dropWhile (before_start lt start)
    (interleave (drop (start_index lt start n) (map inorder (children n))) (drop (start_index lt start n) (items n)))"
proof -
  let ?i = "start_index lt start n"
  have items: "sorted_wrt lt (items n)" using assms sorted_items_interleave [of "map inorder (children n)" "items n" lt] by (cases n) auto
  note i = start_index_at [OF this, of start]
  show ?thesis
  proof (cases "children n = []")
    case True
    then show ?thesis using dropWhile_append2 [of "take ?i (items n)" "before_start lt start" "drop ?i (items n)"] i(2) by simp
  next
    case False
    then have c: "length (children n) = Suc (length (items n))" using assms(2) by simp
    obtain "is" is' cs c cs' where n: "n = BNode (is @ is') (cs @ c # cs')" "length is = ?i" "length cs = ?i" "length cs' = length is'"
      by (rule node_at_child [OF c i(1)])
    have e: "inorder n = lefts (map inorder cs) is @ interleave (map inorder (c # cs')) is'"
      unfolding n(1) using n(2-4) by (simp add: interleave_append)
    have "sorted_wrt lt (lefts (map inorder cs) is)" using assms(1) unfolding e by (simp add: sorted_wrt_append)
    then have l: "\<forall>y \<in> set (lefts (map inorder cs) is). before_start lt start y"
      using lefts_less [of "map inorder cs" "is"] i(2) n by (cases start) (simp_all add: before_start_def)
    have d: "drop ?i (items n) = is'" "drop ?i (map inorder (children n)) = map inorder (c # cs')"
      using n(2,3) by (simp_all add: arg_cong [OF n(1), of items] arg_cong [OF n(1), of children])
    show ?thesis unfolding e d by (rule dropWhile_append2) (use l in blast)
  qed
qed

lemma ascend_loop:
  assumes "sorted_wrt lt (inorder n)" and n: "children n = [] \<or> length (children n) = Suc (length (items n))"
    and inc: "inc \<or> start = None"
    and child: "\<And>c hit s. c \<in> set (children n) \<Longrightarrow> outcome (ascend_from lt start None inc iter c (start_index lt start c) hit s) =
      iter_list iter (dropWhile (before_start lt start) (inorder c)) s"
    and "i \<le> length (items n)" and "i < length (items n) \<Longrightarrow> \<not> before_start lt start (items n ! i)"
  shows "outcome (ascend_from lt start None inc iter n i hit s) = iter_list iter
    (dropWhile (before_start lt start) (interleave (drop i (map inorder (children n))) (drop i (items n)))) s"
  using assms(5,6)
proof (induction "length (items n) - i" arbitrary: i hit s)
  case 0
  then have i: "i = length (items n)" by simp
  show ?case
  proof (cases "children n = []")
    case True
    then show ?thesis using i by (subst ascend_from.simps) (simp add: outcome_def)
  next
    case False
    then have c: "slice_get (children n) (int (length (items n))) = Ok (last (children n))" "length (children n) - 1 = length (items n)"
      using n i by (simp_all add: last_conv_nth)
    have "drop i (map inorder (children n)) = [inorder (last (children n))]"
      using n False i by (cases "children n" rule: rev_exhaust) auto
    then show ?thesis using child [of "last (children n)" hit s] False i c by (subst ascend_from.simps) simp
  qed
next
  case (Suc k)
  let ?x = "items n ! i" and ?T = "interleave (drop (Suc i) (map inorder (children n))) (drop (Suc i) (items n))"
  let ?b = "if children n = [] then [] else inorder (children n ! i)"
  let ?P = "before_start lt start"
  have i: "i < length (items n)" using Suc(2) by simp
  then have x: "\<not> ?P ?x" using Suc(4) by simp
  have split: "interleave (drop i (map inorder (children n))) (drop i (items n)) = ?b @ ?x # ?T"
    using n i Cons_nth_drop_Suc [OF i, symmetric] Cons_nth_drop_Suc [of i "map inorder (children n)", symmetric] by auto
  have "sorted_wrt lt (?b @ ?x # ?T)"
    using assms(1) inorder_suffix [OF n less_imp_le [OF i]] unfolding split by (auto simp: sorted_wrt_append)
  then have T: "sorted_wrt lt (?x # ?T)" by (simp add: sorted_wrt_append)
  then have dT: "dropWhile ?P ?T = ?T" using x by (rule dropWhile_greater)
  have next_item: "\<not> ?P (items n ! Suc i)" if "Suc i < length (items n)"
  proof -
    have "sorted_wrt lt (items n)" using assms(1) n sorted_items_interleave [of "map inorder (children n)" "items n" lt] by (cases n) auto
    then have "lt ?x (items n ! Suc i)" using that by (intro sorted_wrt_nth_less) auto
    then show ?thesis using x trans by (auto simp: before_start_def split: option.splits)
  qed
  have rest: "outcome (ascend_from lt start None inc iter n (Suc i) True s) = iter_list iter ?T s" for s
    using Suc(1) [of "Suc i" True s] Suc(2) i next_item dT by simp
  have first: "(if children n = [] then Ok (True, s)
      else result_bind (slice_get (children n) (int i)) (\<lambda>c. outcome (ascend_from lt start None inc iter c (start_index lt start c) hit s)))
    = iter_list iter (dropWhile ?P ?b) s"
    using n i child [of "children n ! i" hit s] by auto
  show ?case
    unfolding ascend_step [OF i inc] first rest split dropWhile_append3 [of ?P, OF x] iter_list_append iter_list.simps
    by (intro result_bind_cong refl) (auto intro!: result_bind_cong)
qed

lemma iterate_list:
  assumes "shape d h n" and "sorted_wrt lt (inorder n)" and "inc \<or> start = None"
  shows "outcome (ascend_from lt start None inc iter n (start_index lt start n) hit s) =
    iter_list iter (dropWhile (before_start lt start) (inorder n)) s"
  using assms(1,2)
proof (induction h arbitrary: n hit s)
  case 0
  then have "sorted_wrt lt (items n)" by simp
  from start_index_at [OF this, of start] show ?case
    using ascend_loop [OF 0(2) _ assms(3), of iter "start_index lt start n"] 0 drop_to_start [OF 0(2), of start] by simp
next
  case (Suc h)
  then have n: "length (children n) = Suc (length (items n))" by simp
  then have "sorted_wrt lt (items n)"
    using Suc(3) sorted_items_interleave [of "map inorder (children n)" "items n" lt] by (cases n) simp
  note i = start_index_at [OF this, of start]
  have "outcome (ascend_from lt start None inc iter n (start_index lt start n) hit s) = iter_list iter
      (dropWhile (before_start lt start) (interleave (drop (start_index lt start n) (map inorder (children n)))
        (drop (start_index lt start n) (items n)))) s"
  proof (rule ascend_loop [OF Suc(3) disjI2 [OF n] assms(3) _ i(1,3)])
    show "outcome (ascend_from lt start None inc iter c (start_index lt start c) hit s) =
        iter_list iter (dropWhile (before_start lt start) (inorder c)) s" if "c \<in> set (children n)" for c hit s
      using Suc(1) [of c hit s] Suc(2) that sorted_child [OF n that Suc(3)] by simp
  qed
  then show ?case using drop_to_start [OF Suc(3) disjI2 [OF n]] by simp
qed

section \<open>Trees behave like sorted lists\<close>

lemma New_ok: "1 < degree \<Longrightarrow> \<exists>t. New degree = Ok t \<and> bt_ok lt t \<and> bt_items t = []"
  by (auto simp: New_def bt_ok_def bt_items_def)

lemma BTree_Get_list: "bt_ok lt t \<Longrightarrow> BTree_Get lt t x = Ok (list_get lt (bt_items t) x)"
  by (auto simp: BTree_Get_def bt_ok_def bt_items_def get_item_list split: option.splits)

lemma root_split:
  assumes "2 \<le> d" and "shape d h r" and "1 \<le> length (items r)" and "length (items r) \<le> 2 * d - 1"
  obtains h' r' where "(if length (items r) < 2 * d - 1 then Ok r else result_bind (split_node r ((2 * d - 1) div 2))
      (\<lambda>(item2, first, second). Ok (BNode [item2] [first, second]))) = Ok r'"
    "inorder r' = inorder r" "shape d h' r'" "1 \<le> length (items r')" "length (items r') < 2 * d - 1"
proof (cases "length (items r) < 2 * d - 1")
  case True
  then show thesis using that [of r h] assms by simp
next
  case False
  then have "length (items r) = 2 * d - 1" using assms(4) by simp
  then obtain y c1 c2 where sp: "split_node r ((2 * d - 1) div 2) = Ok (y, c1, c2)"
    "inorder r = inorder c1 @ y # inorder c2" "shape d h c1" "shape d h c2" "length (items c1) = d - 1" "length (items c2) = d - 1"
    by (rule split_node_shape [OF assms(2) _ assms(1)])
  then show thesis using that [of "BNode [y] [c1, c2]" "Suc h"] assms(1) False by auto
qed

lemma BTree_insert_list:
  assumes "bt_ok lt t"
  shows "\<exists>t'. BTree_ReplaceOrInsert lt x t = Ok (list_get lt (bt_items t) x, t') \<and>
    bt_ok lt t' \<and> bt_items t' = list_ins lt x (bt_items t) \<and> bt_degree t' = bt_degree t"
proof (cases "bt_root t")
  case None
  then show ?thesis using assms by (auto simp: BTree_ReplaceOrInsert_def bt_ok_def bt_items_def intro!: exI [of _ 0])
next
  case (Some r)
  let ?d = "bt_degree t"
  obtain h where r: "2 \<le> ?d" "shape ?d h r" "1 \<le> length (items r)" "length (items r) \<le> 2 * ?d - 1"
    and s: "sorted_wrt lt (inorder r)" "bt_length t = of_nat (length (inorder r))"
    using assms Some by (auto simp: bt_ok_def bt_items_def)
  have m: "maxItems t = 2 * ?d - 1" by (simp add: maxItems_def mult.commute)
  obtain h' r' where r': "(if length (items r) < 2 * ?d - 1 then Ok r else result_bind (split_node r ((2 * ?d - 1) div 2))
      (\<lambda>(item2, first, second). Ok (BNode [item2] [first, second]))) = Ok r'"
    "inorder r' = inorder r" "shape ?d h' r'" "1 \<le> length (items r')" "length (items r') < 2 * ?d - 1"
    by (rule root_split [OF r])
  have "inserted lt ?d h' x (inorder r') (length (items r')) (Suc (length (items r'))) (insert_item lt x (2 * ?d - 1) r')"
    using r(1) r'(3,5) s(1) r'(2) by (intro insert_item_inserted) simp_all
  then obtain r'' where ins: "insert_item lt x (2 * ?d - 1) r' = Ok (list_get lt (inorder r) x, r'')"
    "inorder r'' = list_ins lt x (inorder r)" "shape ?d h' r''" "1 \<le> length (items r'')" "length (items r'') \<le> 2 * ?d - 1"
    using r'(2,4,5) by (fastforce simp: inserted_def)
  let ?t = "t\<lparr>bt_root := Some r'', bt_length := if list_get lt (inorder r) x = None then bt_length t + 1 else bt_length t\<rparr>"
  have "BTree_ReplaceOrInsert lt x t = Ok (list_get lt (inorder r) x, ?t)"
    unfolding BTree_ReplaceOrInsert_def Some option.case m r'(1) result_bind.simps ins(1) prod.case ..
  moreover have "bt_ok lt ?t"
    using r(1) ins s(2) length_list_ins [of x "inorder r"] sorted_list_ins [OF s(1)] by (auto simp: bt_ok_def bt_items_def)
  ultimately show ?thesis using ins(2) Some by (simp add: bt_items_def)
qed

lemma Ascend_list:
  assumes "bt_ok lt t"
  shows "Ascend lt iter t s = result_bind (iter_list iter (bt_items t) s) (\<lambda>(_, s). Ok s)"
    and "AscendGreaterOrEqual lt q iter t s = result_bind (iter_list iter (dropWhile (\<lambda>y. lt y q) (bt_items t)) s) (\<lambda>(_, s). Ok s)"
proof -
  have fin: "result_bind r (\<lambda>(_, _, s). Ok s) = result_bind (outcome r) (\<lambda>(_, s). Ok s)" for r :: "(bool \<times> bool \<times> 's) result"
    by (cases r) (auto simp: outcome_def)
  have b: "before_start lt None = (\<lambda>_. False)" "before_start lt (Some q) = (\<lambda>y. lt y q)" by (auto simp: before_start_def)
  have r: "sorted_wrt lt (inorder r) \<and> (\<exists>d h. shape d h r)" if "bt_root t = Some r" for r
    using assms that by (auto simp: bt_ok_def bt_items_def)
  have d: "dropWhile (\<lambda>_. False) xs = xs" for xs :: "'a list" by (cases xs) auto
  show "Ascend lt iter t s = result_bind (iter_list iter (bt_items t) s) (\<lambda>(_, s). Ok s)"
    using iterate_list [of _ _ _ False None iter False s] r
    by (auto simp: Ascend_def bt_items_def iterate_ascend_def fin b d split: option.splits)
  show "AscendGreaterOrEqual lt q iter t s = result_bind (iter_list iter (dropWhile (\<lambda>y. lt y q) (bt_items t)) s) (\<lambda>(_, s). Ok s)"
    using iterate_list [of _ _ _ True "Some q" iter False s] r
    by (auto simp: AscendGreaterOrEqual_def bt_items_def iterate_ascend_def fin b split: option.splits)
qed

end

text \<open>A tree of height \<open>h\<close> has many items, so that a search visits few nodes.\<close>

lemma shape_length:
  assumes "shape d h n" and "1 \<le> d"
  shows "Suc (length (items n)) * d ^ h \<le> Suc (length (inorder n))"
  using assms(1)
proof (induction h arbitrary: n)
  case (Suc h)
  have len: "Suc (length (interleave bs is)) = sum_list (map (\<lambda>b. Suc (length b)) bs)" if "length bs = Suc (length is)" for bs :: "'b list list" and "is"
    using that by (induction bs "is" rule: interleave.induct) auto
  have "d ^ Suc h \<le> Suc (length (inorder c))" if "c \<in> set (children n)" for c
  proof -
    have "d \<le> Suc (length (items c))" "shape d h c" using Suc(2) that by auto
    then have "d * d ^ h \<le> Suc (length (items c)) * d ^ h" by (intro mult_le_mono1)
    also have "\<dots> \<le> Suc (length (inorder c))" using \<open>shape d h c\<close> by (rule Suc(1))
    finally show ?thesis by simp
  qed
  then have "sum_list (map (\<lambda>_. d ^ Suc h) (children n)) \<le> sum_list (map (\<lambda>c. Suc (length (inorder c))) (children n))"
    by (rule sum_list_mono)
  moreover have "Suc (length (inorder n)) = sum_list (map (\<lambda>c. Suc (length (inorder c))) (children n))"
    using len [of "map inorder (children n)" "items n"] Suc(2) by (cases n) (simp add: comp_def)
  ultimately show ?case using Suc(2) by (simp add: sum_list_triv)
qed simp

end
