(* ===== verification/Index_B_Tree.thy ===== *)
theory Index_B_Tree
  imports Tree_Index B_Tree_List
begin

text \<open>
  The index on its B-tree: the operations of \<^verbatim>\<open>pkg/index/index.go\<close> written over the tree of
  \<open>B_Tree\<close>, with the iterators they pass to it, and the proof that they are the operations of \<open>Tree_Index\<close> on the
  list of the items. What the rest of the development shows of the index thus holds of the index as it is stored.
\<close>

section \<open>The operations\<close>

record btreeIndex =
  btree :: "keyIndex BTree"

definition ix_New :: "btreeIndex result" where
  "ix_New = result_bind (New 32) (\<lambda>t. Ok \<lparr>btree = t\<rparr>)"

text \<open>A change made through the pointer that \<^verbatim>\<open>Get\<close> returned: the one item of the tree with that key.\<close>

definition ix_mutate :: "keyIndex \<Rightarrow> btreeIndex \<Rightarrow> btreeIndex" where
  "ix_mutate q ti = ti\<lparr>btree := (btree ti)\<lparr>bt_root :=
     map_option (map_bnode (\<lambda>i. if ki_key i = ki_key q then q else i)) (bt_root (btree ti))\<rparr>\<rparr>"

definition ix_find :: "btreeIndex \<Rightarrow> bytes \<Rightarrow> keyIndex option result" where
  "ix_find ti key = BTree_Get ki_Less (btree ti) (newKeyIndex key)"

definition ix_insert :: "keyIndex \<Rightarrow> btreeIndex \<Rightarrow> btreeIndex result" where
  "ix_insert ki ti = result_bind (BTree_ReplaceOrInsert ki_Less ki (btree ti)) (\<lambda>(_, t). Ok (ti\<lparr>btree := t\<rparr>))"

definition ix_Put :: "btreeIndex \<Rightarrow> bytes \<Rightarrow> Revision \<Rightarrow> uint64 \<Rightarrow> (btreeIndex \<times> uint64) result" where
  "ix_Put ti key r c =
     result_bind (ix_find ti key) (\<lambda>item.
       case item of
         None \<Rightarrow>
           (let (ki, c') = put (newKeyIndex key) (main r) (sub r) (nodes r) c
            in result_bind (ix_insert ki ti) (\<lambda>ti'. Ok (ti', c')))
       | Some oki \<Rightarrow>
           (let (ki, c') = put oki (main r) (sub r) (nodes r) c in Ok (ix_mutate ki ti, c')))"

text \<open>The calls that return an error or panic in the key index give its result beside the changed index; a panic of
  the tree is a panic of the call.\<close>

definition ix_Restore :: "btreeIndex \<Rightarrow> bytes \<Rightarrow> Revision \<Rightarrow> Revision \<Rightarrow> int64 \<Rightarrow> uint64
    \<Rightarrow> (unit result \<times> btreeIndex \<times> uint64) result" where
  "ix_Restore ti key cr mo v c =
     result_bind (ix_find ti key) (\<lambda>item.
       case item of
         None \<Rightarrow>
           (case restore (newKeyIndex key) cr mo v of
              Ok ki \<Rightarrow> result_bind (ix_insert ki ti) (\<lambda>ti'. Ok (Ok (), ti', c))
            | Err e \<Rightarrow> Ok (Err e, ti, c)
            | Panic p \<Rightarrow> Ok (Panic p, ti, c))
       | Some oki \<Rightarrow>
           (let (ki, c') = put oki (main mo) (sub mo) (nodes mo) c in Ok (Ok (), ix_mutate ki ti, c')))"

definition ix_Get :: "btreeIndex \<Rightarrow> bytes \<Rightarrow> int64 \<Rightarrow> (Revision \<times> Revision \<times> int64) result" where
  "ix_Get ti key atRev =
     result_bind (ix_find ti key) (\<lambda>item.
       case item of
         None \<Rightarrow> Err ErrRevisionNotFound
       | Some ki \<Rightarrow> if atRev = 0 then get ki (main (modified ki)) else get ki atRev)"

definition range_iter :: "bytes \<Rightarrow> int64 \<Rightarrow> (keyIndex, (bytes \<times> Revision) list) item_iterator" where
  "range_iter e atRev i out =
     (if 0 < length e \<and> \<not> ki_Less i (newKeyIndex e) then Ok (False, out)
      else case get i atRev of
             Ok (r, _, _) \<Rightarrow> Ok (True, out @ [(ki_key i, r)])
           | Err _ \<Rightarrow> Ok (True, out)
           | Panic p \<Rightarrow> Panic p)"

definition ix_Range :: "btreeIndex \<Rightarrow> bytes \<Rightarrow> bytes option \<Rightarrow> int64 \<Rightarrow> (bytes \<times> Revision) list result" where
  "ix_Range ti key end_key atRev =
     (case end_key of
        None \<Rightarrow>
          (case ix_Get ti key atRev of
             Ok (r, _, _) \<Rightarrow> Ok [(key, r)] | Err _ \<Rightarrow> Ok [] | Panic p \<Rightarrow> Panic p)
      | Some e \<Rightarrow> AscendGreaterOrEqual ki_Less (newKeyIndex key) (range_iter e atRev) (btree ti) [])"

definition ix_Tombstone :: "btreeIndex \<Rightarrow> bytes \<Rightarrow> Revision \<Rightarrow> uint64 \<Rightarrow> (unit result \<times> btreeIndex \<times> uint64) result" where
  "ix_Tombstone ti key r c =
     result_bind (ix_find ti key) (\<lambda>item.
       case item of
         None \<Rightarrow> Ok (Err ErrRevisionNotFound, ti, c)
       | Some oki \<Rightarrow>
           (let (res, ki, c') = tombstone oki (main r) (sub r) c in Ok (res, ix_mutate ki ti, c')))"

definition since_iter :: "bytes \<Rightarrow> int64 \<Rightarrow> (keyIndex, Revision list) item_iterator" where
  "since_iter e rv i out =
     (if 0 < length e \<and> \<not> ki_Less i (newKeyIndex e) then Ok (False, out)
      else result_bind (since i rv) (\<lambda>rs. Ok (True, out @ rs)))"

definition ix_RangeSince :: "((Revision \<Rightarrow> Revision \<Rightarrow> bool) \<Rightarrow> Revision list \<Rightarrow> Revision list)
    \<Rightarrow> btreeIndex \<Rightarrow> bytes \<Rightarrow> bytes option \<Rightarrow> int64 \<Rightarrow> Revision list result" where
  "ix_RangeSince srt ti key end_key rv =
     (case end_key of
        None \<Rightarrow> result_bind (ix_find ti key) (\<lambda>item. case item of None \<Rightarrow> Ok [] | Some ki \<Rightarrow> since ki rv)
      | Some e \<Rightarrow>
          result_bind (AscendGreaterOrEqual ki_Less (newKeyIndex key) (since_iter e rv) (btree ti) [])
            (\<lambda>rs. Ok (srt (\<lambda>a b. GreaterThan b a) rs)))"

definition equal_iter :: "btreeIndex \<Rightarrow> (keyIndex, bool) item_iterator" where
  "equal_iter b i eq =
     result_bind (BTree_Get ki_Less (btree b) i) (\<lambda>item.
       case item of
         None \<Rightarrow> Panic InterfaceConversion
       | Some j \<Rightarrow> if \<not> ki_equal i j then Ok (False, False) else Ok (True, eq))"

definition ix_Equal :: "btreeIndex \<Rightarrow> btreeIndex \<Rightarrow> bool result" where
  "ix_Equal a b =
     (if Len (btree a) \<noteq> Len (btree b) then Ok False else Ascend ki_Less (equal_iter b) (btree a) True)"

definition ix_Update :: "btreeIndex \<Rightarrow> bytes \<Rightarrow> Revision \<Rightarrow> int64 \<Rightarrow> uint64 \<Rightarrow> (unit result \<times> btreeIndex \<times> uint64) result" where
  "ix_Update ti key r revAssumed c =
     result_bind (ix_find ti key) (\<lambda>item.
       case item of
         None \<Rightarrow> Ok (Err ErrRevisionNotFound, ti, c)
       | Some oki \<Rightarrow>
           (let (res, ki, c') = update oki (main r) (sub r) (nodes r) revAssumed c in Ok (res, ix_mutate ki ti, c')))"

section \<open>The index that a B-tree stands for\<close>

definition index_of :: "btreeIndex \<Rightarrow> treeIndex" where
  "index_of ti = \<lparr>tree = bt_items (btree ti)\<rparr>"

definition ix_ok :: "btreeIndex \<Rightarrow> bool" where
  "ix_ok ti \<longleftrightarrow> bt_ok ki_Less (btree ti) \<and> bt_degree (btree ti) = 32"

lemma ix_okD: "ix_ok ti \<Longrightarrow> bt_ok ki_Less (btree ti)"
  by (simp add: ix_ok_def)

interpretation ki: strict_weak_order ki_Less
  by unfold_locales (auto simp: ki_Less_def)

lemma list_get_tree: "list_get ki_Less xs q = tree_Get xs q"
  by (induction xs) auto

lemma list_ins_tree: "list_ins ki_Less q xs = tree_ReplaceOrInsert q xs"
  by (induction xs) auto

lemma sorted_ki_Less: "sorted_wrt ki_Less xs \<longleftrightarrow> tree_ok xs"
  by (simp add: tree_ok_def sorted_wrt_map ki_Less_def [abs_def])

lemma interleave_map: "interleave (map (map f) bs) (map f is) = map f (interleave bs is)"
  by (induction bs "is" rule: interleave.induct) auto

lemma inorder_map: "inorder (map_bnode f n) = map f (inorder n)"
proof (induction n)
  case (BNode "is" cs)
  then have "map inorder (map (map_bnode f) cs) = map (map f) (map inorder cs)" by simp
  then show ?case by (simp only: bnode.map inorder.simps interleave_map)
qed

lemma children_map: "children (map_bnode f n) = map (map_bnode f) (children n)" "length (items (map_bnode f n)) = length (items n)"
  by (cases n; simp)+

lemma shape_map: "shape d h (map_bnode f n) \<longleftrightarrow> shape d h n"
  by (induction h arbitrary: n) (auto simp: children_map)

lemma ix_find_tree: "ix_ok ti \<Longrightarrow> ix_find ti k = Ok (lookup (index_of ti) k)"
  by (simp add: ix_find_def ki.BTree_Get_list ix_okD list_get_tree index_of_def)

lemma ix_insert_tree:
  assumes "ix_ok ti"
  shows "\<exists>ti'. ix_insert q ti = Ok ti' \<and> ix_ok ti' \<and> index_of ti' = (index_of ti)\<lparr>tree := tree_ReplaceOrInsert q (tree (index_of ti))\<rparr>"
  using ki.BTree_insert_list [OF ix_okD [OF assms], of q] assms by (auto simp: ix_insert_def list_ins_tree index_of_def ix_ok_def)

lemma ix_mutate_tree:
  assumes "ix_ok ti"
  shows "ix_ok (ix_mutate q ti)" and "index_of (ix_mutate q ti) = (index_of ti)\<lparr>tree := tree_mutate q (tree (index_of ti))\<rparr>"
proof -
  have items: "bt_items (btree (ix_mutate q ti)) = tree_mutate q (bt_items (btree ti))"
    by (auto simp: bt_items_def ix_mutate_def inorder_map tree_mutate_def split: option.splits)
  then show "index_of (ix_mutate q ti) = (index_of ti)\<lparr>tree := tree_mutate q (tree (index_of ti))\<rparr>" by (simp add: index_of_def)
  have "tree_ok (tree_mutate q t) \<longleftrightarrow> tree_ok t" "length (tree_mutate q t) = length t" for t
    by (simp_all add: tree_ok_def) (simp add: tree_mutate_def)
  then show "ix_ok (ix_mutate q ti)"
    using assms unfolding ix_ok_def bt_ok_def items sorted_ki_Less by (auto simp: ix_mutate_def shape_map children_map)
qed

section \<open>The operations refine those on the list\<close>

lemma ix_Put_tree:
  assumes "ix_ok ti"
  shows "\<exists>ti'. ix_Put ti k r c = Ok (ti', snd (Put (index_of ti) k r c)) \<and> ix_ok ti' \<and> index_of ti' = fst (Put (index_of ti) k r c)"
proof (cases "lookup (index_of ti) k")
  case None
  obtain ki c' where p: "put (newKeyIndex k) (main r) (sub r) (nodes r) c = (ki, c')" by force
  then show ?thesis using ix_insert_tree [OF assms, of ki] None by (auto simp: ix_Put_def Put_def ix_find_tree [OF assms])
next
  case (Some oki)
  obtain ki c' where p: "put oki (main r) (sub r) (nodes r) c = (ki, c')" by force
  then show ?thesis using ix_mutate_tree [OF assms, of ki] Some by (simp add: ix_Put_def Put_def ix_find_tree [OF assms])
qed

lemma ix_Restore_tree:
  assumes "ix_ok ti" and "Restore (index_of ti) k cr mo v c = (res, t', c')"
  shows "\<exists>ti'. ix_Restore ti k cr mo v c = Ok (res, ti', c') \<and> ix_ok ti' \<and> index_of ti' = t'"
proof (cases "lookup (index_of ti) k")
  case None
  then show ?thesis using assms ix_insert_tree [OF assms(1)]
    by (cases "restore (newKeyIndex k) cr mo v") (fastforce simp: ix_Restore_def Restore_def ix_find_tree)+
next
  case (Some oki)
  then show ?thesis using assms ix_mutate_tree [OF assms(1)]
    by (auto simp: ix_Restore_def Restore_def ix_find_tree split: prod.splits)
qed

lemma ix_Tombstone_tree:
  assumes "ix_ok ti" and "Tombstone (index_of ti) k r c = (res, t', c')"
  shows "\<exists>ti'. ix_Tombstone ti k r c = Ok (res, ti', c') \<and> ix_ok ti' \<and> index_of ti' = t'"
  using assms ix_mutate_tree [OF assms(1)]
  by (auto simp: ix_Tombstone_def Tombstone_def ix_find_tree split: prod.splits option.splits)

lemma ix_Update_tree:
  assumes "ix_ok ti" and "Update (index_of ti) k r a c = (res, t', c')"
  shows "\<exists>ti'. ix_Update ti k r a c = Ok (res, ti', c') \<and> ix_ok ti' \<and> index_of ti' = t'"
  using assms ix_mutate_tree [OF assms(1)]
  by (auto simp: ix_Update_def Update_def ix_find_tree split: prod.splits option.splits)

lemma ix_Get_tree: "ix_ok ti \<Longrightarrow> ix_Get ti k rv = Get (index_of ti) k rv"
  by (simp add: ix_Get_def Get_def ix_find_tree)

text \<open>The iterators collect what the loops over the list return.\<close>

lemma range_iter_loop:
  "result_bind (iter_list (range_iter e rv) xs out) (\<lambda>(_, s). Ok s) = result_bind (Range_loop xs e rv) (\<lambda>rs. Ok (out @ rs))"
proof (induction xs arbitrary: out)
  case (Cons i xs)
  show ?case
  proof (cases "0 < length e \<and> \<not> ki_Less i (newKeyIndex e)")
    case True
    then show ?thesis by (simp add: range_iter_def)
  next
    case False
    then have "range_iter e rv i out = (case get i rv of Ok (r, _, _) \<Rightarrow> Ok (True, out @ [(ki_key i, r)]) | Err _ \<Rightarrow> Ok (True, out) | Panic p \<Rightarrow> Panic p)"
      "Range_loop (i # xs) e rv = (case get i rv of Ok (r, _, _) \<Rightarrow> result_bind (Range_loop xs e rv) (\<lambda>out. Ok ((ki_key i, r) # out))
         | Err _ \<Rightarrow> Range_loop xs e rv | Panic p \<Rightarrow> Panic p)" unfolding range_iter_def by auto
    then show ?thesis using Cons by (cases "get i rv") (auto simp: result_bind_assoc)
  qed
qed simp

lemma since_iter_loop:
  "result_bind (iter_list (since_iter e rv) xs out) (\<lambda>(_, s). Ok s) = result_bind (RangeSince_loop xs e rv) (\<lambda>rs. Ok (out @ rs))"
proof (induction xs arbitrary: out)
  case (Cons i xs)
  show ?case
  proof (cases "0 < length e \<and> \<not> ki_Less i (newKeyIndex e)")
    case True
    then show ?thesis by (simp add: since_iter_def)
  next
    case False
    then have "since_iter e rv i out = result_bind (since i rv) (\<lambda>rs. Ok (True, out @ rs))"
      "RangeSince_loop (i # xs) e rv = result_bind (since i rv) (\<lambda>rs. result_bind (RangeSince_loop xs e rv) (\<lambda>out. Ok (rs @ out)))"
      unfolding since_iter_def by auto
    then show ?thesis using Cons by (cases "since i rv") (auto simp: result_bind_assoc)
  qed
qed simp

lemma ix_Range_tree: "ix_ok ti \<Longrightarrow> ix_Range ti k e rv = Range (index_of ti) k e rv"
  by (auto simp: ix_Range_def Range_def ix_Get_tree ki.Ascend_list ix_okD range_iter_loop tree_from_def index_of_def split: option.splits)

lemma ix_RangeSince_tree: "ix_ok ti \<Longrightarrow> ix_RangeSince srt ti k e rv = RangeSince srt (index_of ti) k e rv"
  by (auto simp: ix_RangeSince_def RangeSince_def ix_find_tree ki.Ascend_list ix_okD since_iter_loop tree_from_def index_of_def split: option.splits)

lemma equal_iter_loop:
  assumes "ix_ok b"
  shows "result_bind (iter_list (equal_iter b) xs True) (\<lambda>(_, s). Ok s) = Equal_loop xs (tree (index_of b))"
proof (induction xs)
  case (Cons i xs)
  have "BTree_Get ki_Less (btree b) i = Ok (tree_Get (tree (index_of b)) i)"
    by (simp add: ki.BTree_Get_list [OF ix_okD [OF assms]] list_get_tree index_of_def)
  then show ?case using Cons by (auto simp: equal_iter_def split: option.splits)
qed simp

lemma ix_Equal_tree:
  assumes "ix_ok a" and "ix_ok b" and "length (tree (index_of a)) < 2 ^ 64" and "length (tree (index_of b)) < 2 ^ 64"
  shows "ix_Equal a b = Equal (index_of a) (index_of b)"
proof -
  have "Len (btree a) = Len (btree b) \<longleftrightarrow> length (tree (index_of a)) = length (tree (index_of b))"
  proof -
    have "unat (of_nat n :: int64) = n" if "n < 2 ^ 64" for n using that by (simp add: unat_of_nat)
    then show ?thesis using assms by (metis Len_def bt_ok_def ix_ok_def index_of_def treeIndex.select_convs(1))
  qed
  then show ?thesis using ki.Ascend_list(1) [OF ix_okD [OF assms(1)], of "equal_iter b" True] equal_iter_loop [OF assms(2)]
    by (simp add: ix_Equal_def Equal_def index_of_def)
qed

section \<open>The B-tree is an ordered tree\<close>

text \<open>The interface that the facts on the index rest on, with the operations of the B-tree where they do not panic.\<close>

definition bt_get :: "btreeIndex \<Rightarrow> keyIndex \<Rightarrow> keyIndex option" where
  "bt_get ti q = (case BTree_Get ki_Less (btree ti) q of Ok i \<Rightarrow> i | _ \<Rightarrow> None)"

definition bt_ins :: "keyIndex \<Rightarrow> btreeIndex \<Rightarrow> btreeIndex" where
  "bt_ins q ti = (case ix_insert q ti of Ok ti' \<Rightarrow> ti' | _ \<Rightarrow> ti)"

interpretation btree: ordered_tree bt_get bt_ins ix_mutate "\<lambda>ti. bt_items (btree ti)" ix_ok
proof
  fix ti q i
  assume ok: "ix_ok ti"
  have t: "tree_ok (bt_items (btree ti))" using ok by (simp add: ix_ok_def bt_ok_def sorted_ki_Less)
  have g: "bt_get ti q = tree_Get (bt_items (btree ti)) q" by (simp add: bt_get_def ki.BTree_Get_list [OF ix_okD [OF ok]] list_get_tree)
  obtain ti' where ins: "ix_insert q ti = Ok ti'" "ix_ok ti'" "bt_items (btree ti') = tree_ReplaceOrInsert q (bt_items (btree ti))"
    using ix_insert_tree [OF ok, of q] by (auto simp: index_of_def)
  have mut: "bt_items (btree (ix_mutate q ti)) = tree_mutate q (bt_items (btree ti))"
    using ix_mutate_tree(2) [OF ok, of q] by (simp add: index_of_def)
  show "sorted_wrt (<) (map ki_key (bt_items (btree ti)))" using t by (rule bt.items_sorted)
  show "bt_get ti q = Some i \<longleftrightarrow> i \<in> set (bt_items (btree ti)) \<and> ki_key i = ki_key q" unfolding g using t by (rule bt.get_iff)
  show "ix_ok (bt_ins q ti)" using ins by (simp add: bt_ins_def)
  show "set (bt_items (btree (bt_ins q ti))) = insert q {i \<in> set (bt_items (btree ti)). ki_key i \<noteq> ki_key q}"
    using bt.ins_items [OF t] ins by (simp add: bt_ins_def)
  show "ix_ok (ix_mutate q ti)" using ok by (rule ix_mutate_tree(1))
  show "set (bt_items (btree (ix_mutate q ti))) = insert q {j \<in> set (bt_items (btree ti)). ki_key j \<noteq> ki_key q}"
    if "bt_get ti q = Some i" unfolding mut using bt.mut_items [OF _ t, of q i] that g by simp
qed

section \<open>Runs of the index\<close>

primrec ix_run_op :: "index_op \<Rightarrow> btreeIndex \<times> uint64 \<Rightarrow> (unit result \<times> btreeIndex \<times> uint64) result" where
  "ix_run_op (IPut k r) tc = result_bind (ix_Put (fst tc) k r (snd tc)) (\<lambda>tc'. Ok (Ok (), tc'))"
| "ix_run_op (ITombstone k r) tc = ix_Tombstone (fst tc) k r (snd tc)"
| "ix_run_op (IUpdate k r a) tc = ix_Update (fst tc) k r a (snd tc)"
| "ix_run_op (IRestore k cr mo v) tc = ix_Restore (fst tc) k cr mo v (snd tc)"

fun run_index_ops :: "index_op list \<Rightarrow> treeIndex \<times> uint64 \<Rightarrow> unit result list \<times> treeIndex \<times> uint64" where
  "run_index_ops [] tc = ([], tc)"
| "run_index_ops (x # xs) tc =
     (let (res, tc') = run_index_op x tc; (ress, tc'') = run_index_ops xs tc' in (res # ress, tc''))"

fun ix_run_ops :: "index_op list \<Rightarrow> btreeIndex \<times> uint64 \<Rightarrow> (unit result list \<times> btreeIndex \<times> uint64) result" where
  "ix_run_ops [] tc = Ok ([], tc)"
| "ix_run_ops (x # xs) tc =
     result_bind (ix_run_op x tc) (\<lambda>(res, tc'). result_bind (ix_run_ops xs tc') (\<lambda>(ress, tc''). Ok (res # ress, tc'')))"

lemma ix_run_op_tree:
  assumes "ix_ok ti" and "run_index_op x (index_of ti, c) = (res, t', c')"
  shows "\<exists>ti'. ix_run_op x (ti, c) = Ok (res, ti', c') \<and> ix_ok ti' \<and> index_of ti' = t'"
proof (cases x)
  case (IPut k r)
  then show ?thesis using ix_Put_tree [OF assms(1), of k r c] assms(2) by (auto simp: prod_eq_iff)
qed (use assms ix_Tombstone_tree ix_Update_tree ix_Restore_tree in auto)

lemma ix_run_ops_tree:
  assumes "ix_ok ti" and "run_index_ops xs (index_of ti, c) = (ress, t', c')"
  shows "\<exists>ti'. ix_run_ops xs (ti, c) = Ok (ress, ti', c') \<and> ix_ok ti' \<and> index_of ti' = t'"
  using assms
proof (induction xs arbitrary: ti c ress)
  case (Cons x xs)
  obtain res t1 c1 where s: "run_index_op x (index_of ti, c) = (res, t1, c1)" by (metis prod_cases3)
  obtain ti1 where t1: "ix_run_op x (ti, c) = Ok (res, ti1, c1)" "ix_ok ti1" "index_of ti1 = t1"
    using ix_run_op_tree [OF Cons(2) s] by blast
  obtain rs where "run_index_ops xs (t1, c1) = (rs, t', c')" "ress = res # rs" using Cons(3) s by (auto split: prod.splits)
  then show ?case using Cons(1) [OF t1(2), of c1 rs] t1 by auto
qed auto

section \<open>Properties\<close>

lemma ix_New_tree: "\<exists>ti. ix_New = Ok ti \<and> ix_ok ti \<and> index_of ti = NewTreeIndex"
  by (auto simp: ix_ok_def ix_New_def New_def index_of_def NewTreeIndex_def bt_ok_def bt_items_def)

text \<open>C13: The index on its B-tree is the index on the sorted list of its key indexes: from the creation on, for every
  sequence of \<^verbatim>\<open>Put\<close>, \<^verbatim>\<open>Tombstone\<close>, \<^verbatim>\<open>Update\<close> and \<^verbatim>\<open>Restore\<close>, no access to a node is out of its bounds, every call returns the same
  result, and \<^verbatim>\<open>Get\<close>, \<^verbatim>\<open>Range\<close> and \<^verbatim>\<open>RangeSince\<close> answer the same afterwards.\<close>

theorem btree_index_refines_list:
  "\<exists>new ti res c'. ix_New = Ok new \<and> ix_run_ops xs (new, c) = Ok (res, ti, c') \<and>
     run_index_ops xs (NewTreeIndex, c) = (res, index_of ti, c') \<and>
     (\<forall>k rv. ix_Get ti k rv = Get (index_of ti) k rv) \<and>
     (\<forall>k e rv. ix_Range ti k e rv = Range (index_of ti) k e rv) \<and>
     (\<forall>srt k e rv. ix_RangeSince srt ti k e rv = RangeSince srt (index_of ti) k e rv)"
proof -
  obtain new where new: "ix_New = Ok new" "ix_ok new" "index_of new = NewTreeIndex" using ix_New_tree by blast
  obtain res t' c' where r: "run_index_ops xs (NewTreeIndex, c) = (res, t', c')" by (metis prod_cases3)
  then obtain ti where ti: "ix_run_ops xs (new, c) = Ok (res, ti, c')" "ix_ok ti" "index_of ti = t'"
    using ix_run_ops_tree [OF new(2), of xs c res t' c'] new(3) by auto
  show ?thesis using new(1) r ti ix_Get_tree [OF ti(2)] ix_Range_tree [OF ti(2)] ix_RangeSince_tree [OF ti(2)] by blast
qed

text \<open>C14: The B-tree of the index stays balanced: after any sequence of operations it counts its keys, its root has at
  most 63 items, every other node between 31 and 63, all leaves are at the same depth \<open>h\<close>, and with \<open>n\<close> keys
  \<open>2 * 32 ^ h \<le> n + 1\<close>, so that a search reads \<open>h + 1\<close> nodes at most.\<close>

theorem btree_index_balanced:
  "\<exists>new ti res c'. ix_New = Ok new \<and> ix_run_ops xs (new, c) = Ok (res, ti, c') \<and>
     Len (btree ti) = of_nat (length (tree (index_of ti))) \<and>
     (case bt_root (btree ti) of
        None \<Rightarrow> tree (index_of ti) = []
      | Some r \<Rightarrow> length (items r) \<le> 63 \<and> (\<exists>h. shape 32 h r \<and> 2 * 32 ^ h \<le> length (tree (index_of ti)) + 1))"
proof -
  obtain new where new: "ix_New = Ok new" "ix_ok new" using ix_New_tree by blast
  obtain res t' c' where "run_index_ops xs (index_of new, c) = (res, t', c')" by (metis prod_cases3)
  then obtain ti where ti: "ix_run_ops xs (new, c) = Ok (res, ti, c')" "ix_ok ti"
    using ix_run_ops_tree [OF new(2)] by blast
  have "\<exists>h. shape 32 h r \<and> 2 * 32 ^ h \<le> length (tree (index_of ti)) + 1" if r: "bt_root (btree ti) = Some r" for r
  proof -
    obtain h where h: "shape 32 h r" "1 \<le> length (items r)" using ti(2) r by (auto simp: ix_ok_def bt_ok_def)
    then have "2 * 32 ^ h \<le> Suc (length (items r)) * 32 ^ h" by (intro mult_le_mono1) simp
    also have "\<dots> \<le> Suc (length (inorder r))" using h(1) by (rule shape_length) simp
    finally show ?thesis using h(1) r by (auto simp: index_of_def bt_items_def)
  qed
  moreover have "length (items r) \<le> 63" if "bt_root (btree ti) = Some r" for r
    using ti(2) that by (auto simp: ix_ok_def bt_ok_def)
  moreover have "tree (index_of ti) = []" if "bt_root (btree ti) = None" using that by (simp add: index_of_def bt_items_def)
  ultimately have "case bt_root (btree ti) of
        None \<Rightarrow> tree (index_of ti) = []
      | Some r \<Rightarrow> length (items r) \<le> 63 \<and> (\<exists>h. shape 32 h r \<and> 2 * 32 ^ h \<le> length (tree (index_of ti)) + 1)"
    by (simp split: option.split)
  moreover have "Len (btree ti) = of_nat (length (tree (index_of ti)))"
    using ti(2) by (simp add: ix_ok_def bt_ok_def Len_def index_of_def)
  ultimately show ?thesis using new(1) ti(1) by blast
qed

end
