(* ===== verification/Latency.thy ===== *)
theory Latency
  imports Go_Strings
begin

text \<open>
  The measurement of a store's latency (\<^verbatim>\<open>pkg/network/latency\<close>). The outcome of a connection
  attempt, a duration and an error, comes from the network and is an argument, which the theory of
  the start computes from a dial (\<^verbatim>\<open>connectDuration\<close>); the workers append their samples under a mutex, in any order.
\<close>

record Sample =
  Success :: bool
  Duration :: int64

type_synonym Measurements = "Sample list"

definition Append :: "Measurements \<Rightarrow> Sample \<Rightarrow> Measurements" where
  "Append m s = m @ [s]"

fun InsuccessCount :: "Measurements \<Rightarrow> nat" where
  "InsuccessCount [] = 0"
| "InsuccessCount (s # m) = (if \<not> Success s then 1 else 0) + InsuccessCount m"

definition AllSeconds :: "Measurements \<Rightarrow> int64 list" where
  "AllSeconds m = map Duration m"

fun SuccessSeconds :: "Measurements \<Rightarrow> int64 list" where
  "SuccessSeconds [] = []"
| "SuccessSeconds (s # m) = (if Success s then Duration s # SuccessSeconds m else SuccessSeconds m)"

record distribution =
  Average :: int64

record summary =
  All :: distribution
  SuccessD :: "distribution option"

text \<open>The sum wraps around; \<^verbatim>\<open>/\<close> on signed integers truncates.\<close>

definition average :: "int64 list \<Rightarrow> distribution" where
  "average x =
     (if length x = 0 then \<lparr>Average = 0\<rparr>
      else let sum = foldl (+) 0 x in
           \<lparr>Average = word_of_int (trunc_div (sint sum) (int (length x)))\<rparr>)"

definition Summary :: "Measurements \<Rightarrow> summary \<times> error option" where
  "Summary m =
     (let out = \<lparr>All = average (AllSeconds m), SuccessD = None\<rparr>;
          insuccessCount = InsuccessCount m
      in if insuccessCount < 2 then (out\<lparr>SuccessD := Some (average (SuccessSeconds m))\<rparr>, None)
         else (out, Some (ErrorString (''failed to connect for '' @ FormatNat insuccessCount @ '' times''))))"

record latency_output =
  out_Measurements :: Measurements
  out_Summary :: "summary option"

type_synonym connect_outcome = "int64 \<times> error option"

definition worker :: "connect_outcome \<Rightarrow> latency_output \<Rightarrow> latency_output" where
  "worker oc out =
     (let (d, err) = oc;
          sample = \<lparr>Success = (err = None), Duration = d\<rparr>
      in out\<lparr>out_Measurements := Append (out_Measurements out) sample\<rparr>)"

text \<open>The outcomes are listed in the order in which the workers take the mutex.\<close>

definition GetLatency :: "connect_outcome list \<Rightarrow> latency_output result" where
  "GetLatency outcomes =
     (let out = fold worker outcomes \<lparr>out_Measurements = [], out_Summary = None\<rparr> in
      case Summary (out_Measurements out) of
        (s, None) \<Rightarrow> Ok (out\<lparr>out_Summary := Some s\<rparr>)
      | (s, Some err) \<Rightarrow> Err err)"

section \<open>The order of the samples does not matter\<close>

lemma SuccessSeconds_filter: "SuccessSeconds m = map Duration (filter Success m)"
  by (induction m) auto

lemma InsuccessCount_filter: "InsuccessCount m = length (filter (\<lambda>s. \<not> Success s) m)"
  by (induction m) auto

lemma foldl_plus: "foldl (+) a xs = a + sum_list xs" for a :: "64 word"
  by (induction xs arbitrary: a) (simp_all add: add.assoc)

lemma average_eq:
  "average x = \<lparr>Average = if x = [] then 0 else word_of_int (trunc_div (sint (sum_list x)) (int (length x)))\<rparr>"
  by (simp add: average_def foldl_plus)

lemma average_mset: "mset x = mset y \<Longrightarrow> average x = average y"
  using mset_eq_length [of x y] by (auto simp: average_eq dest: arg_cong [where f = sum_mset] simp flip: sum_mset_sum_list)

lemma Summary_mset:
  assumes "mset m = mset m'"
  shows "Summary m = Summary m'"
proof -
  have "mset (SuccessSeconds m) = mset (SuccessSeconds m')" "mset (AllSeconds m) = mset (AllSeconds m')"
    using assms by (simp_all add: SuccessSeconds_filter AllSeconds_def)
  moreover have "InsuccessCount m = InsuccessCount m'"
    unfolding InsuccessCount_filter by (metis assms mset_filter size_mset)
  ultimately show ?thesis using average_mset by (metis Summary_def)
qed

definition sample_of :: "connect_outcome \<Rightarrow> Sample" where
  "sample_of oc = \<lparr>Success = (snd oc = None), Duration = fst oc\<rparr>"

lemma fold_worker:
  "fold worker os out = out\<lparr>out_Measurements := out_Measurements out @ map sample_of os\<rparr>"
  by (induction os arbitrary: out) (simp_all add: worker_def Append_def sample_of_def split: prod.splits)

section \<open>The average\<close>

lemma sum_list_bounds:
  "\<forall>v \<in> set x. lo \<le> sint v \<and> sint v \<le> hi \<Longrightarrow> int (length x) * lo \<le> sum_list (map sint x) \<and> sum_list (map sint x) \<le> int (length x) * hi"
  by (induction x) (auto simp: algebra_simps)

lemma sint_sum_list:
  "\<forall>v \<in> set x. 0 \<le> sint v \<Longrightarrow> sum_list (map sint x) < 2 ^ 63 \<Longrightarrow> sint (sum_list x) = sum_list (map sint (x :: int64 list))"
proof (induction x)
  case (Cons v x)
  have nn: "0 \<le> sum_list (map sint x)" using Cons.prems(1) by (intro sum_list_nonneg) auto
  then have IH: "sint (sum_list x) = sum_list (map sint x)" using Cons by simp
  have "v + sum_list x = word_of_int (sint v + sint (sum_list x))" by simp
  moreover have "sint (word_of_int (sint v + sint (sum_list x)) :: int64) = sint v + sint (sum_list x)"
    using Cons.prems nn IH by (intro sint64_of_int) auto
  ultimately have "sint (v + sum_list x) = sint v + sint (sum_list x)" by (simp only:)
  with IH show ?case by simp
qed simp

text \<open>The average of durations between \<open>lo\<close> and \<open>hi\<close> lies between \<open>lo\<close> and \<open>hi\<close>, as long as their
  sum fits in 63 bits; the average of no durations is 0.\<close>

theorem average_bounds:
  assumes "x \<noteq> []" and "\<forall>v \<in> set x. lo \<le> sint v \<and> sint v \<le> hi" and "0 \<le> lo" and "sum_list (map sint x) < 2 ^ 63"
  shows "lo \<le> sint (Average (average x)) \<and> sint (Average (average x)) \<le> hi \<and> average [] = \<lparr>Average = 0\<rparr>"
proof -
  let ?n = "int (length x)" and ?s = "sum_list (map sint x)"
  have n: "0 < ?n" using assms(1) by simp
  have b: "?n * lo \<le> ?s" "?s \<le> ?n * hi" using sum_list_bounds [OF assms(2)] by auto
  have s0: "0 \<le> ?s" using b(1) assms(3) by (meson n less_imp_le mult_nonneg_nonneg order.trans)
  have "sint (sum_list x) = ?s" using assms(2,3,4) by (intro sint_sum_list) auto
  then have q: "trunc_div (sint (sum_list x)) ?n = ?s div ?n" using s0 n by (simp add: trunc_div_nonneg)
  have lo: "lo \<le> ?s div ?n" using zdiv_mono1 [OF b(1) n] n by simp
  have hi: "?s div ?n \<le> hi" using zdiv_mono1 [OF b(2) n] n by simp
  have "?s div ?n \<le> ?s" using zdiv_mono2 [of ?s 1 ?n] s0 n by simp
  then have "sint (word_of_int (?s div ?n) :: int64) = ?s div ?n"
    using lo assms(3,4) by (intro sint64_of_int) auto
  then show ?thesis using q lo hi assms(1) by (simp add: average_eq)
qed

theorem average_bounds_witness:
  "1 \<le> sint (Average (average [1, 5, 6])) \<and> sint (Average (average [1, 5, 6])) \<le> 6 \<and> average [] = \<lparr>Average = 0\<rparr>"
  by (rule average_bounds) simp_all

definition success_average :: "latency_output \<Rightarrow> int64 option" where
  "success_average out = (case out_Summary out of None \<Rightarrow> None | Some s \<Rightarrow> map_option Average (SuccessD s))"

lemma GetLatency_eq:
  "GetLatency os = (let m = map sample_of os in case Summary m of
     (s, None) \<Rightarrow> Ok \<lparr>out_Measurements = m, out_Summary = Some s\<rparr> | (s, Some err) \<Rightarrow> Err err)"
  by (simp add: GetLatency_def fold_worker Let_def split: prod.splits option.splits)



end
