(* ===== verification/Consistent_Hashing.thy ===== *)
theory Consistent_Hashing
  imports Go_Strings "HOL-Library.AList"
begin

text \<open>
  The nodes and the interface of \<^verbatim>\<open>pkg/partition/consistent/hashing.go\<close>. The hash function of a
  \<^verbatim>\<open>Hasher\<close> is an argument of the operations (the program passes \<^verbatim>\<open>xxhash.Sum64\<close>, a vendored
  package). \<^verbatim>\<open>ConsistentHashing\<close> becomes the locale \<open>consistent_hashing\<close>: what its users rely on, for
  nodes whose names have different hashes. Go's \<^verbatim>\<open>int\<close> counts and indexes are integers; they never
  exceed the length of a slice, so they do not overflow.
\<close>

record RkvNode =
  Name :: string
  Latency :: int64
  IsRemote :: bool

definition Node_String :: "RkvNode \<Rightarrow> string" where
  "Node_String rn = Name rn"

type_synonym hasher = "bytes \<Rightarrow> uint64"

definition convertNodeArrToStringArr :: "RkvNode list \<Rightarrow> string list" where
  "convertNodeArrToStringArr ns = map Node_String ns"

lemma update_fresh: "k \<notin> fst ` set al \<Longrightarrow> AList.update k v al = al @ [(k, v)]"
  by (induction al) auto

locale consistent_hashing =
  fixes hash :: hasher
    and add :: "'h \<Rightarrow> RkvNode \<Rightarrow> 'h"
    and locate_key :: "'h \<Rightarrow> bytes \<Rightarrow> RkvNode option result"
    and locate_nodes :: "'h \<Rightarrow> bytes \<Rightarrow> int \<Rightarrow> RkvNode list result"
    and members :: "'h \<Rightarrow> RkvNode set"
    and inv :: "'h \<Rightarrow> bool"
  assumes members_finite: "inv h \<Longrightarrow> finite (members h)"
    and members_inj: "inv h \<Longrightarrow> inj_on (hash \<circ> Name) (members h)"
    and add_law: "inv h \<Longrightarrow> hash (Name n) \<notin> (hash \<circ> Name) ` members h \<Longrightarrow>
      inv (add h n) \<and> members (add h n) = insert n (members h)"
    and locate_law: "inv h \<Longrightarrow> 1 \<le> c \<Longrightarrow> c \<le> int (card (members h)) \<Longrightarrow>
      \<exists>ns. locate_nodes h key c = Ok ns \<and> int (length ns) = c \<and> distinct ns \<and> set ns \<subseteq> members h"
    and locate_prefix: "inv h \<Longrightarrow> 1 \<le> c \<Longrightarrow> c \<le> c' \<Longrightarrow> locate_nodes h key c' = Ok ns \<Longrightarrow> ns \<noteq> [] \<Longrightarrow>
      locate_nodes h key c = Ok (take (nat c) ns)"
    and locate_short: "inv h \<Longrightarrow> int (card (members h)) < c \<Longrightarrow> locate_nodes h key c = Ok []"
    and locate_key_law: "inv h \<Longrightarrow> members h \<noteq> {} \<Longrightarrow>
      \<exists>n. locate_nodes h key 1 = Ok [n] \<and> locate_key h key = Ok (Some n)"
    and locate_key_none: "inv h \<Longrightarrow> members h = {} \<Longrightarrow> locate_key h key = Ok None"
begin

text \<open>A collection built by adding nodes one after the other.\<close>

lemma add_all:
  assumes "inv h" and "distinct (map (hash \<circ> Name) ns)"
    and "(hash \<circ> Name) ` set ns \<inter> (hash \<circ> Name) ` members h = {}"
  shows "inv (foldl add h ns) \<and> members (foldl add h ns) = members h \<union> set ns"
  using assms
proof (induction ns arbitrary: h)
  case (Cons n ns)
  then have a: "inv (add h n)" "members (add h n) = insert n (members h)"
    using add_law [of h n] by auto
  have "inv (foldl add (add h n) ns) \<and> members (foldl add (add h n) ns) = members (add h n) \<union> set ns"
    by (rule Cons.IH) (use Cons.prems a in auto)
  with a show ?case by auto
qed simp

lemma locate_all_names:
  assumes "inv h" and "locate_nodes h key c = Ok ns" and "1 \<le> c" and "ns \<noteq> []"
  shows "int (length ns) = c \<and> distinct (map Name ns) \<and> set ns \<subseteq> members h"
proof -
  have c: "c \<le> int (card (members h))" using locate_short [OF assms(1), of c key] assms(2,4) by (cases "int (card (members h)) < c") auto
  then have *: "int (length ns) = c" "distinct ns" "set ns \<subseteq> members h"
    using locate_law [OF assms(1,3) c, of key] assms(2) by auto
  have "inj_on (hash \<circ> Name) (set ns)"
    using inj_on_subset [OF members_inj [OF assms(1)] *(3)] .
  then have "inj_on Name (set ns)" by (rule inj_on_imageI2)
  with * show ?thesis by (simp add: distinct_map)
qed

lemma locate_no_panic: "inv h \<Longrightarrow> 1 \<le> c \<Longrightarrow> locate_nodes h key c \<noteq> Panic p"
  using locate_law locate_short by (metis linorder_not_le result.distinct(3))

lemma locate_length: "inv h \<Longrightarrow> 1 \<le> c \<Longrightarrow>
    \<exists>ns. locate_nodes h key c = Ok ns \<and> (if c \<le> int (card (members h)) then int (length ns) = c else ns = [])"
  using locate_law locate_short by (metis linorder_not_le)

end

end
