(* ===== verification/Rendezvous.thy ===== *)
theory Rendezvous
  imports Consistent_Hashing
begin

unbundle bit_operations_syntax

text \<open>
  Rendezvous hashing (\<^verbatim>\<open>pkg/partition/consistent/rendezvous.go\<close>). The map from nodes to their
  index is an association list; only its size is read.
\<close>

record Rendezvous =
  rz_nodes :: "(RkvNode \<times> nat) list"
  nstr :: "RkvNode list"
  nhash :: "uint64 list"

definition xorshiftMult64 :: "uint64 \<Rightarrow> uint64" where
  "xorshiftMult64 x0 =
     (let x1 = x0 XOR drop_bit 12 x0;
          x2 = x1 XOR push_bit 25 x1;
          x3 = x2 XOR drop_bit 27 x2
      in x3 * 2685821657736338717)"

definition NewRendezvous :: "hasher \<Rightarrow> RkvNode list \<Rightarrow> Rendezvous" where
  "NewRendezvous hash ns =
     \<lparr>rz_nodes = fold (\<lambda>(i, n) m. AList.update n i m) (enumerate 0 ns) [],
      nstr = ns,
      nhash = map (\<lambda>n. hash (Node_String n)) ns\<rparr>"

text \<open>The scan for the largest weight, over \<^verbatim>\<open>r.nhash[1:]\<close>; the first of equal weights stays.\<close>

fun rz_scan :: "uint64 \<Rightarrow> uint64 list \<Rightarrow> nat \<Rightarrow> nat \<Rightarrow> uint64 \<Rightarrow> nat" where
  "rz_scan khash [] i midx mhash = midx"
| "rz_scan khash (nh # hs) i midx mhash =
     (let h = xorshiftMult64 (khash XOR nh) in
      if mhash < h then rz_scan khash hs (i + 1) (i + 1) h else rz_scan khash hs (i + 1) midx mhash)"

definition rz_best :: "uint64 \<Rightarrow> uint64 list \<Rightarrow> nat result" where
  "rz_best khash hs =
     (case hs of [] \<Rightarrow> Panic IndexOutOfRange
      | h # t \<Rightarrow> Ok (rz_scan khash t 0 0 (xorshiftMult64 (khash XOR h))))"

definition rz_LocateKey :: "hasher \<Rightarrow> Rendezvous \<Rightarrow> bytes \<Rightarrow> RkvNode option result" where
  "rz_LocateKey hash r key =
     (if length (rz_nodes r) = 0 then Ok None
      else result_bind (rz_best (hash key) (nhash r)) (\<lambda>midx.
           result_bind (slice_get (nstr r) (int midx)) (\<lambda>n. Ok (Some n))))"

definition rz_AddNode :: "hasher \<Rightarrow> Rendezvous \<Rightarrow> RkvNode \<Rightarrow> Rendezvous" where
  "rz_AddNode hash r n =
     \<lparr>rz_nodes = AList.update n (length (nstr r)) (rz_nodes r),
      nstr = nstr r @ [n],
      nhash = nhash r @ [hash (Node_String n)]\<rparr>"

definition rz_GetNodes :: "Rendezvous \<Rightarrow> RkvNode list" where
  "rz_GetNodes r = nstr r"

text \<open>\<^verbatim>\<open>res[i] = r.nstr[(midx+i)%len(r.nodes)]\<close>, for \<open>i\<close> from 0.\<close>

fun rz_fill :: "Rendezvous \<Rightarrow> nat \<Rightarrow> nat \<Rightarrow> nat \<Rightarrow> RkvNode list result" where
  "rz_fill r midx i 0 = Ok []"
| "rz_fill r midx i (Suc k) =
     (if length (rz_nodes r) = 0 then Panic DivideByZero
      else result_bind (slice_get (nstr r) (int ((midx + i) mod length (rz_nodes r)))) (\<lambda>n.
           result_bind (rz_fill r midx (i + 1) k) (\<lambda>ns. Ok (n # ns))))"

definition rz_LocateNodes :: "hasher \<Rightarrow> Rendezvous \<Rightarrow> bytes \<Rightarrow> int \<Rightarrow> RkvNode list result" where
  "rz_LocateNodes hash r key cnt =
     (if int (length (rz_nodes r)) < cnt then Ok []
      else result_bind (rz_best (hash key) (nhash r)) (\<lambda>midx.
           if cnt < 0 then Panic MakeSliceLen else rz_fill r midx 0 (nat cnt)))"

section \<open>The weight function\<close>

lemma xorshift_right_inj:
  assumes "0 < n" and "x XOR drop_bit n x = y XOR drop_bit n (y :: 64 word)"
  shows "x = y"
proof -
  let ?z = "x XOR y"
  have "?z = drop_bit n ?z"
    using assms(2) by (metis (no_types, lifting) drop_bit_xor xor.assoc xor.left_commute xor.commute xor_self_eq xor.right_neutral)
  then have z: "bit ?z i = bit ?z (n + i)" for i by (metis bit_drop_bit_eq comp_apply)
  have "\<not> bit ?z i" for i
  proof (induction "64 - i" arbitrary: i rule: less_induct)
    case less
    show ?case
    proof (cases "i < 64")
      case True
      then show ?thesis using less [of "n + i"] assms(1) z by simp
    next
      case False
      then show ?thesis using bit_imp_le_length by fastforce
    qed
  qed
  then show ?thesis by (intro bit_eqI) (simp add: bit_xor_iff)
qed

lemma xorshift_left_inj:
  assumes "0 < n" and "x XOR push_bit n x = y XOR push_bit n (y :: 64 word)"
  shows "x = y"
proof -
  let ?z = "x XOR y"
  have "?z = push_bit n ?z"
    using assms(2) by (metis (no_types, lifting) push_bit_xor xor.assoc xor.left_commute xor.commute xor_self_eq xor.right_neutral)
  then have z: "bit ?z i \<Longrightarrow> n \<le> i \<and> bit ?z (i - n)" for i by (metis bit_push_bit_iff)
  have "\<not> bit ?z i" for i
  proof (induction i rule: less_induct)
    case (less i)
    show ?case using z [of i] less [of "i - n"] assms(1) by auto
  qed
  then show ?thesis by (intro bit_eqI) (simp add: bit_xor_iff)
qed

lemma mult_const_inj:
  assumes "x * 2685821657736338717 = y * (2685821657736338717 :: 64 word)"
  shows "x = y"
proof -
  have i: "(2685821657736338717 :: 64 word) * 6415128727920758069 = 1" by simp
  have "x * 2685821657736338717 * 6415128727920758069 = y * 2685821657736338717 * 6415128727920758069"
    using assms by simp
  then show ?thesis by (simp only: mult.assoc i mult_1_right)
qed

lemma xorshiftMult64_inj: "xorshiftMult64 x = xorshiftMult64 y \<Longrightarrow> x = y"
  unfolding xorshiftMult64_def Let_def
  by (drule mult_const_inj, drule xorshift_right_inj [rotated], simp,
      drule xorshift_left_inj [rotated], simp, drule xorshift_right_inj [rotated]) simp_all

section \<open>The scan returns the first maximum\<close>

abbreviation weight :: "uint64 \<Rightarrow> uint64 \<Rightarrow> uint64" where
  "weight khash nh \<equiv> xorshiftMult64 (khash XOR nh)"

definition first_max :: "('a \<Rightarrow> uint64) \<Rightarrow> 'a list \<Rightarrow> nat \<Rightarrow> bool" where
  "first_max f xs m \<longleftrightarrow> m < length xs \<and> (\<forall>j < length xs. f (xs ! j) \<le> f (xs ! m)) \<and>
     (\<forall>j < m. f (xs ! j) < f (xs ! m))"

lemma first_max_snoc:
  assumes "first_max f p m"
  shows "f (p ! m) < f x \<Longrightarrow> first_max f (p @ [x]) (length p)"
    and "\<not> f (p ! m) < f x \<Longrightarrow> first_max f (p @ [x]) m"
  using assms by (fastforce simp: first_max_def nth_append less_Suc_eq)+

lemma rz_scan_first_max:
  "first_max (weight khash) p midx \<Longrightarrow> mhash = weight khash (p ! midx) \<Longrightarrow> i + 1 = length p \<Longrightarrow>
   first_max (weight khash) (p @ hs) (rz_scan khash hs i midx mhash)"
proof (induction hs arbitrary: p i midx mhash)
  case (Cons h hs)
  have len: "i + 1 + 1 = length (p @ [h])" using Cons.prems(3) by simp
  show ?case
  proof (cases "mhash < weight khash h")
    case True
    have "first_max (weight khash) (p @ [h]) (i + 1)"
      using first_max_snoc(1) [OF Cons.prems(1), of h] True unfolding Cons.prems(2,3) by simp
    moreover have "weight khash h = weight khash ((p @ [h]) ! (i + 1))" unfolding Cons.prems(3) by simp
    ultimately have "first_max (weight khash) ((p @ [h]) @ hs) (rz_scan khash hs (i + 1) (i + 1) (weight khash h))"
      using len by (rule Cons.IH)
    with True show ?thesis by simp
  next
    case False
    have "first_max (weight khash) (p @ [h]) midx"
      using first_max_snoc(2) [OF Cons.prems(1), of h] False unfolding Cons.prems(2) by simp
    moreover have "mhash = weight khash ((p @ [h]) ! midx)"
      using Cons.prems(1) unfolding Cons.prems(2) by (simp add: first_max_def nth_append)
    ultimately have "first_max (weight khash) ((p @ [h]) @ hs) (rz_scan khash hs (i + 1) midx mhash)"
      using len by (rule Cons.IH)
    with False show ?thesis by simp
  qed
qed simp

lemma rz_best_first_max: "rz_best khash hs = Ok m \<Longrightarrow> first_max (weight khash) hs m"
  using rz_scan_first_max [of khash "[hd hs]" 0 "weight khash (hd hs)" 0 "tl hs"]
  by (cases hs) (auto simp: rz_best_def first_max_def)

lemma rz_best_Ok: "hs \<noteq> [] \<Longrightarrow> \<exists>m. rz_best khash hs = Ok m \<and> m < length hs"
  using rz_best_first_max [of khash hs] by (cases hs) (auto simp: rz_best_def first_max_def)

lemma first_max_unique: "first_max f xs m \<Longrightarrow> first_max f xs m' \<Longrightarrow> m = m'"
  unfolding first_max_def by (metis linorder_neqE_nat not_less)


section \<open>Any sequence of additions\<close>

text \<open>What holds after any additions, of repeated nodes too.\<close>

definition rz_ok :: "hasher \<Rightarrow> Rendezvous \<Rightarrow> bool" where
  "rz_ok hash r \<longleftrightarrow> nhash r = map (hash \<circ> Name) (nstr r) \<and>
     distinct (map fst (rz_nodes r)) \<and> fst ` set (rz_nodes r) = set (nstr r)"

text \<open>No node repeated and no two names with the same hash.\<close>

definition rz_inv :: "hasher \<Rightarrow> Rendezvous \<Rightarrow> bool" where
  "rz_inv hash r \<longleftrightarrow> rz_ok hash r \<and> distinct (map (hash \<circ> Name) (nstr r))"

lemma rz_ok_length: "rz_ok hash r \<Longrightarrow> length (rz_nodes r) = card (set (nstr r))"
  by (metis rz_ok_def distinct_card length_map set_map)

lemma rz_ok_le: "rz_ok hash r \<Longrightarrow> length (rz_nodes r) \<le> length (nstr r)"
  by (simp add: rz_ok_length card_length)

lemma rz_ok_empty_iff: "rz_ok hash r \<Longrightarrow> rz_nodes r = [] \<longleftrightarrow> nstr r = []"
  using rz_ok_length by fastforce

lemma rz_AddNode_ok [keeps_inv]: "rz_ok hash r \<Longrightarrow> rz_ok hash (rz_AddNode hash r n)"
  by (auto simp: rz_ok_def rz_AddNode_def Node_String_def distinct_update dom_update)

lemma rz_New_ok: "rz_ok hash (NewRendezvous hash [])"
  by (simp add: rz_ok_def NewRendezvous_def)

lemma NewRendezvous_snoc: "NewRendezvous hash (ns @ [n]) = rz_AddNode hash (NewRendezvous hash ns) n"
  by (simp add: NewRendezvous_def rz_AddNode_def enumerate_append_eq)

lemma NewRendezvous_foldl: "NewRendezvous hash ns = foldl (rz_AddNode hash) (NewRendezvous hash []) ns"
  by (induction ns rule: rev_induct) (simp_all add: NewRendezvous_snoc)

lemma NewRendezvous_ok: "rz_ok hash (NewRendezvous hash ns)"
  by (induction ns rule: rev_induct) (simp_all add: rz_New_ok NewRendezvous_snoc rz_AddNode_ok)

lemma nstr_New [simp]: "nstr (NewRendezvous hash ns) = ns"
  by (simp add: NewRendezvous_def)

lemma rz_best_Some:
  assumes "rz_ok hash r" and "nstr r \<noteq> []"
  obtains m where "rz_best (hash key) (nhash r) = Ok m" and "m < length (nstr r)"
    and "first_max (\<lambda>n. weight (hash key) (hash (Name n))) (nstr r) m"
proof -
  have h: "nhash r = map (hash \<circ> Name) (nstr r)" using assms(1) by (simp add: rz_ok_def)
  then obtain m where m: "rz_best (hash key) (nhash r) = Ok m" using rz_best_Ok [of "nhash r"] assms(2) by auto
  from rz_best_first_max [OF m] have "first_max (\<lambda>n. weight (hash key) (hash (Name n))) (nstr r) m"
    by (auto simp: first_max_def h)
  with m that show thesis by (simp add: first_max_def)
qed

lemma rz_fill_Ok:
  assumes "length (rz_nodes r) \<le> length (nstr r)" and "rz_nodes r \<noteq> []"
  shows "rz_fill r m i k = Ok (map (\<lambda>j. nstr r ! ((m + j) mod length (rz_nodes r))) [i..<i + k])"
proof (induction k arbitrary: i)
  case (Suc k)
  have "(m + i) mod length (rz_nodes r) < length (nstr r)"
    using assms by (meson length_greater_0_conv mod_less_divisor order.strict_trans2)
  then show ?case using Suc [of "i + 1"] assms(2) by (simp add: upt_rec [of i])
qed simp

lemma rz_LocateNodes_Ok:
  assumes "rz_ok hash r" and "0 < length (rz_nodes r)" and "0 \<le> c" and "c \<le> int (length (rz_nodes r))"
    and "rz_best (hash key) (nhash r) = Ok m"
  shows "rz_LocateNodes hash r key c =
    Ok (map (\<lambda>j. nstr r ! ((m + j) mod length (rz_nodes r))) [0..<nat c])"
  using assms rz_ok_le [OF assms(1)] rz_fill_Ok [of r m 0 "nat c"] by (simp add: rz_LocateNodes_def)

lemma rz_LocateKey_Ok:
  assumes "rz_ok hash r" and "nstr r \<noteq> []" and "rz_best (hash key) (nhash r) = Ok m" and "m < length (nstr r)"
  shows "rz_LocateKey hash r key = Ok (Some (nstr r ! m))"
  using assms rz_ok_empty_iff by (simp add: rz_LocateKey_def)

section \<open>The contract\<close>

lemma rz_inv_length: "rz_inv hash r \<Longrightarrow> length (rz_nodes r) = length (nstr r)"
  by (metis rz_inv_def rz_ok_length distinct_card distinct_map)

lemma add_mod_inj: "(m + x) mod n = (m + y) mod n \<Longrightarrow> x \<le> y \<Longrightarrow> y < n \<Longrightarrow> x = y" for m n x y :: nat
  using mod_eq_dvd_iff_nat [of "m + x" "m + y" n] nat_dvd_not_less [of "y - x" n] by (cases "x = y") auto

lemma inj_on_add_mod: "k \<le> n \<Longrightarrow> inj_on (\<lambda>j. (m + j) mod n) {0..<k}" for m n k :: nat
  unfolding inj_on_def by (metis add_mod_inj atLeastLessThan_iff nat_le_linear order.strict_trans2)

lemma rz_locate_cyclic:
  assumes "rz_inv hash r" and "nstr r \<noteq> []"
  obtains m where "rz_best (hash key) (nhash r) = Ok m" and "m < length (nstr r)"
    and "\<And>c. 1 \<le> c \<Longrightarrow> c \<le> int (length (nstr r)) \<Longrightarrow>
      rz_LocateNodes hash r key c = Ok (map (\<lambda>j. nstr r ! ((m + j) mod length (nstr r))) [0..<nat c])"
proof -
  have ok: "rz_ok hash r" and l: "length (rz_nodes r) = length (nstr r)"
    using assms(1) by (auto simp: rz_inv_def rz_inv_length)
  obtain m where m: "rz_best (hash key) (nhash r) = Ok m" "m < length (nstr r)" using rz_best_Some [OF ok assms(2)] by metis
  then show thesis using rz_LocateNodes_Ok [OF ok, of _ key m] l assms(2) by (intro that) auto
qed

lemma rz_locate_law:
  assumes "rz_inv hash r" and "1 \<le> c" and "c \<le> int (length (nstr r))"
  shows "\<exists>ns. rz_LocateNodes hash r key c = Ok ns \<and> int (length ns) = c \<and> distinct ns \<and> set ns \<subseteq> set (nstr r)"
proof -
  have ne: "nstr r \<noteq> []" using assms(2,3) by auto
  have dn: "distinct (nstr r)" using assms(1) by (auto simp: rz_inv_def distinct_map)
  obtain m where m: "rz_LocateNodes hash r key c = Ok (map (\<lambda>j. nstr r ! ((m + j) mod length (nstr r))) [0..<nat c])"
    using rz_locate_cyclic [OF assms(1) ne] assms(2,3) by metis
  have "inj_on (\<lambda>j. nstr r ! ((m + j) mod length (nstr r))) {0..<nat c}"
    using inj_on_add_mod [of "nat c" "length (nstr r)" m] assms(3) dn ne
    by (auto simp: inj_on_def nth_eq_iff_index_eq)
  then show ?thesis using m assms(2) ne by (auto simp: distinct_map)
qed

interpretation rz: consistent_hashing hash "rz_AddNode hash" "rz_LocateKey hash" "rz_LocateNodes hash"
  "\<lambda>r. set (nstr r)" "rz_inv hash" for hash
proof
  fix r n key c c' ns
  assume inv: "rz_inv hash r"
  then have ok: "rz_ok hash r" and d: "distinct (map (hash \<circ> Name) (nstr r))"
    and l: "length (rz_nodes r) = length (nstr r)" and dn: "distinct (nstr r)"
    by (auto simp: rz_inv_def rz_inv_length distinct_map)
  have card: "card (set (nstr r)) = length (nstr r)" using dn by (rule distinct_card)
  show "finite (set (nstr r))" by simp
  show "inj_on (hash \<circ> Name) (set (nstr r))" using d by (simp add: distinct_map)
  show "rz_inv hash (rz_AddNode hash r n) \<and> set (nstr (rz_AddNode hash r n)) = insert n (set (nstr r))"
    if "hash (Name n) \<notin> (hash \<circ> Name) ` set (nstr r)"
    using that inv rz_AddNode_ok [OF ok] by (auto simp: rz_inv_def rz_AddNode_def)
  show short: "rz_LocateNodes hash r key c = Ok []" if "int (card (set (nstr r))) < c" for c
    using that card l by (simp add: rz_LocateNodes_def)
  show "rz_LocateKey hash r key = Ok None" if "set (nstr r) = {}"
    using that l by (simp add: rz_LocateKey_def)
  show "\<exists>ns. rz_LocateNodes hash r key c = Ok ns \<and> int (length ns) = c \<and> distinct ns \<and> set ns \<subseteq> set (nstr r)"
    if "1 \<le> c" "c \<le> int (card (set (nstr r)))"
    using rz_locate_law [OF inv that(1)] that(2) card by simp
  show "rz_LocateNodes hash r key c = Ok (take (nat c) ns)"
    if "1 \<le> c" "c \<le> c'" "rz_LocateNodes hash r key c' = Ok ns" "ns \<noteq> []"
  proof -
    have c': "c' \<le> int (length (nstr r))" using short [of c'] that(3,4) card by force
    then have ne: "nstr r \<noteq> []" using that(1,2) by auto
    obtain m where m: "\<And>c. 1 \<le> c \<Longrightarrow> c \<le> int (length (nstr r)) \<Longrightarrow>
        rz_LocateNodes hash r key c = Ok (map (\<lambda>j. nstr r ! ((m + j) mod length (nstr r))) [0..<nat c])"
      using rz_locate_cyclic [OF inv ne] by metis
    have "ns = map (\<lambda>j. nstr r ! ((m + j) mod length (nstr r))) [0..<nat c']"
      using m [of c'] that c' by simp
    then show ?thesis using m [of c] that c' by (simp add: take_map nat_mono)
  qed
  show "\<exists>n. rz_LocateNodes hash r key 1 = Ok [n] \<and> rz_LocateKey hash r key = Ok (Some n)" if "set (nstr r) \<noteq> {}"
  proof -
    have ne: "nstr r \<noteq> []" using that by simp
    obtain m where m: "rz_best (hash key) (nhash r) = Ok m" "m < length (nstr r)"
      and n: "\<And>c. 1 \<le> c \<Longrightarrow> c \<le> int (length (nstr r)) \<Longrightarrow>
        rz_LocateNodes hash r key c = Ok (map (\<lambda>j. nstr r ! ((m + j) mod length (nstr r))) [0..<nat c])"
      using rz_locate_cyclic [OF inv ne] by metis
    from n [of 1] m(2) have "rz_LocateNodes hash r key 1 = Ok [nstr r ! m]" by simp
    then show ?thesis using rz_LocateKey_Ok [OF ok ne m(1,2)] by simp
  qed
qed


section \<open>Properties\<close>

text \<open>The weight function \<^verbatim>\<open>xorshiftMult64\<close> is a permutation of the 64-bit integers, so nodes with
  different name hashes never have the same weight for a key.\<close>

theorem xorshiftMult64_bij: "bij xorshiftMult64"
proof -
  have "inj xorshiftMult64" using xorshiftMult64_inj by (rule injI)
  then show ?thesis by (simp add: bij_def finite_UNIV_inj_surj)
qed

text \<open>The winner among the nodes \<open>ns\<close> for a key, and the state built by adding them in turn.\<close>

abbreviation node_weight :: "hasher \<Rightarrow> bytes \<Rightarrow> RkvNode \<Rightarrow> uint64" where
  "node_weight hash key n \<equiv> xorshiftMult64 (hash key XOR hash (Name n))"

lemma LocateKey_New:
  assumes "ns \<noteq> []"
  shows "\<exists>m. rz_LocateKey hash (NewRendezvous hash ns) key = Ok (Some (ns ! m)) \<and> first_max (node_weight hash key) ns m"
proof -
  have ne: "nstr (NewRendezvous hash ns) \<noteq> []" using assms by simp
  obtain m where m: "rz_best (hash key) (nhash (NewRendezvous hash ns)) = Ok m"
      "m < length (nstr (NewRendezvous hash ns))" "first_max (node_weight hash key) (nstr (NewRendezvous hash ns)) m"
    using rz_best_Some [OF NewRendezvous_ok ne] by blast
  then show ?thesis using rz_LocateKey_Ok [OF NewRendezvous_ok ne m(1,2)] by auto
qed

lemma node_weight_inj:
  assumes "distinct (map (hash \<circ> Name) ns)"
  shows "inj_on (node_weight hash key) (set ns)"
proof (rule inj_onI)
  fix x y assume *: "x \<in> set ns" "y \<in> set ns" "node_weight hash key x = node_weight hash key y"
  from xorshiftMult64_inj [OF *(3)] have "hash key XOR (hash key XOR hash (Name x)) = hash key XOR (hash key XOR hash (Name y))"
    by (rule arg_cong)
  then have "hash (Name x) = hash (Name y)" by (simp only: xor.assoc [symmetric] xor_self_eq xor.left_neutral)
  with assms * show "x = y" by (simp add: distinct_map inj_on_def)
qed

lemma first_max_set:
  assumes "first_max f xs m" and "first_max f ys k" and "set xs = set ys" and "inj_on f (set ys)"
  shows "xs ! m = ys ! k"
proof -
  have *: "first_max f zs i \<Longrightarrow> zs ! i \<in> set zs \<and> (\<forall>z \<in> set zs. f z \<le> f (zs ! i))" for zs i
    by (auto simp: first_max_def in_set_conv_nth)
  have "f (xs ! m) = f (ys ! k)"
    using * [OF assms(1)] * [OF assms(2)] assms(3) by (intro order.antisym) auto
  then show ?thesis using assms(3,4) * [OF assms(1)] * [OF assms(2)] by (auto dest: inj_onD)
qed

text \<open>C20: \<^verbatim>\<open>LocateKey\<close> on the nodes added in any order, repeated or not, returns the first node of
  largest weight; when the names have different hashes it is the only one, so the answer does
  not depend on the order in which the nodes were added. Without nodes it is nil.\<close>

theorem rendezvous_LocateKey_argmax:
  "(if ns = [] then rz_LocateKey hash (foldl (rz_AddNode hash) (NewRendezvous hash []) ns) key = Ok None
    else \<exists>m. rz_LocateKey hash (foldl (rz_AddNode hash) (NewRendezvous hash []) ns) key = Ok (Some (ns ! m)) \<and>
             first_max (node_weight hash key) ns m) \<and>
   (distinct (map (hash \<circ> Name) ns) \<longrightarrow> mset ns' = mset ns \<longrightarrow>
    rz_LocateKey hash (foldl (rz_AddNode hash) (NewRendezvous hash []) ns') key =
    rz_LocateKey hash (foldl (rz_AddNode hash) (NewRendezvous hash []) ns) key)"
proof -
  have same: "rz_LocateKey hash (NewRendezvous hash ns') key = rz_LocateKey hash (NewRendezvous hash ns) key"
    if d: "distinct (map (hash \<circ> Name) ns)" and p: "mset ns' = mset ns" and ne: "ns \<noteq> []"
  proof -
    have s: "set ns' = set ns" and ne': "ns' \<noteq> []" using p ne by (metis set_mset_mset, auto)
    obtain m where m: "rz_LocateKey hash (NewRendezvous hash ns) key = Ok (Some (ns ! m))"
      "first_max (node_weight hash key) ns m" using LocateKey_New [OF ne] by metis
    obtain m' where m': "rz_LocateKey hash (NewRendezvous hash ns') key = Ok (Some (ns' ! m'))"
      "first_max (node_weight hash key) ns' m'" using LocateKey_New [OF ne'] by metis
    have "ns' ! m' = ns ! m" using m'(2) m(2) s node_weight_inj [OF d] by (rule first_max_set)
    with m(1) m'(1) show ?thesis by simp
  qed
  show ?thesis
    unfolding NewRendezvous_foldl [symmetric]
    using LocateKey_New [of ns hash key] same by (cases "ns = []") (auto simp: rz_LocateKey_def NewRendezvous_def)
qed

definition node :: "string \<Rightarrow> RkvNode" where
  "node s = \<lparr>Name = s, Latency = 0, IsRemote = False\<rparr>"

definition length_hash :: hasher where
  "length_hash s = of_nat (length s)"

theorem rendezvous_LocateKey_argmax_witness:
  "rz_LocateKey length_hash (foldl (rz_AddNode length_hash) (NewRendezvous length_hash []) [node ''bb'', node ''a'']) ''key'' =
   rz_LocateKey length_hash (foldl (rz_AddNode length_hash) (NewRendezvous length_hash []) [node ''a'', node ''bb'']) ''key''"
proof -
  have "distinct (map (length_hash \<circ> Name) [node ''a'', node ''bb''])" by (simp add: node_def length_hash_def)
  moreover have "mset [node ''bb'', node ''a''] = mset [node ''a'', node ''bb'']" by simp
  ultimately show ?thesis
    using rendezvous_LocateKey_argmax [of "[node ''a'', node ''bb'']" length_hash "''key''" "[node ''bb'', node ''a'']"] by blast
qed

text \<open>C26: Adding a node moves keys to that node only: after \<^verbatim>\<open>AddNode\<close> every key is located where it
  was before or at the new node.\<close>

theorem rendezvous_minimal_disruption:
  "rz_LocateKey hash (rz_AddNode hash (NewRendezvous hash ns) n) key
     \<in> {rz_LocateKey hash (NewRendezvous hash ns) key, Ok (Some n)}"
proof (cases "ns = []")
  case True
  then show ?thesis using LocateKey_New [of "ns @ [n]" hash key]
    by (auto simp: NewRendezvous_snoc [symmetric] first_max_def)
next
  case False
  obtain m where m: "rz_LocateKey hash (NewRendezvous hash ns) key = Ok (Some (ns ! m))"
    "first_max (node_weight hash key) ns m" using LocateKey_New [OF False] by metis
  obtain m' where m': "rz_LocateKey hash (NewRendezvous hash (ns @ [n])) key = Ok (Some ((ns @ [n]) ! m'))"
    "first_max (node_weight hash key) (ns @ [n]) m'" using LocateKey_New [of "ns @ [n]"] by auto
  have "m' = length ns \<or> m' = m"
    using first_max_snoc [OF m(2), of n] first_max_unique [OF m'(2)] by blast
  then show ?thesis using m m'(1) by (auto simp: NewRendezvous_snoc first_max_def nth_append)
qed

text \<open>\<^verbatim>\<open>LocateNodes\<close> takes the nodes that follow the winner in the order of addition, so unlike
  \<^verbatim>\<open>LocateKey\<close> it depends on that order; and a node added twice is returned as two replicas.\<close>

theorem rendezvous_LocateNodes_order_dependent:
  "rz_LocateNodes length_hash (NewRendezvous length_hash [node ''a'', node ''bb'', node ''ccc'']) [] 2
     \<noteq> rz_LocateNodes length_hash (NewRendezvous length_hash [node ''a'', node ''ccc'', node ''bb'']) [] 2 \<and>
   rz_LocateNodes length_hash (NewRendezvous length_hash [node ''a'', node ''a'', node ''bb'']) [] 2 = Ok [node ''a'', node ''a'']"
  by code_simp

end
