(* ===== verification/Ring.thy ===== *)
theory Ring
  imports Rendezvous
begin

text \<open>
  Ring hashing (\<^verbatim>\<open>pkg/partition/consistent/ring.go\<close>): the maps are association lists, the lock
  makes each method one step. \<^verbatim>\<open>sort.Slice\<close> sorts integers, so its result is determined.
\<close>

record RingHashing =
  rh_nodes :: "(string \<times> RkvNode) list"
  sortedSet :: "uint64 list"
  ring :: "(uint64 \<times> RkvNode) list"

definition NewRingHashing :: RingHashing where
  "NewRingHashing = \<lparr>rh_nodes = [], sortedSet = [], ring = []\<rparr>"

definition rh_addNode :: "hasher \<Rightarrow> RingHashing \<Rightarrow> RkvNode \<Rightarrow> RingHashing" where
  "rh_addNode hash rh n =
     (let hKey = hash (Node_String n) in
      rh\<lparr>ring := AList.update hKey n (ring rh),
         sortedSet := sort_Slice (<) (sortedSet rh @ [hKey]),
         rh_nodes := AList.update (Node_String n) n (rh_nodes rh)\<rparr>)"

definition rh_AddNode :: "hasher \<Rightarrow> RingHashing \<Rightarrow> RkvNode \<Rightarrow> RingHashing" where
  "rh_AddNode hash rh n =
     (case map_of (rh_nodes rh) (Node_String n) of Some _ \<Rightarrow> rh | None \<Rightarrow> rh_addNode hash rh n)"

definition FindPartitionID :: "hasher \<Rightarrow> RingHashing \<Rightarrow> bytes \<Rightarrow> int" where
  "FindPartitionID hash rh key =
     (if length (rh_nodes rh) = 0 then - 1
      else int (unat (hash key) mod length (rh_nodes rh)))"

definition GetPartitionOwner :: "RingHashing \<Rightarrow> int \<Rightarrow> RkvNode option result" where
  "GetPartitionOwner rh partID =
     (if partID < 0 then Ok None
      else result_bind (slice_get (sortedSet rh) partID) (\<lambda>h. Ok (map_of (ring rh) h)))"

definition rh_LocateKey :: "hasher \<Rightarrow> RingHashing \<Rightarrow> bytes \<Rightarrow> RkvNode option result" where
  "rh_LocateKey hash rh key = GetPartitionOwner rh (FindPartitionID hash rh key)"

text \<open>The iteration order of the map is not specified; the model returns the order of insertion.\<close>

definition rh_GetNodes :: "RingHashing \<Rightarrow> RkvNode list" where
  "rh_GetNodes rh = map snd (rh_nodes rh)"

text \<open>The loop of \<^verbatim>\<open>LocateNodes\<close>; \<open>None\<close> is the nil it returns when a hash is not in the map.\<close>

fun rh_fill :: "RingHashing \<Rightarrow> int \<Rightarrow> nat \<Rightarrow> nat \<Rightarrow> RkvNode list option result" where
  "rh_fill rh partID i 0 = Ok (Some [])"
| "rh_fill rh partID i (Suc k) =
     result_bind (slice_get (sortedSet rh) ((partID + int i) mod int (length (rh_nodes rh)))) (\<lambda>h.
       case map_of (ring rh) h of
         None \<Rightarrow> Ok None
       | Some n \<Rightarrow> result_bind (rh_fill rh partID (i + 1) k) (\<lambda>ns. Ok (map_option ((#) n) ns)))"

definition rh_LocateNodes :: "hasher \<Rightarrow> RingHashing \<Rightarrow> bytes \<Rightarrow> int \<Rightarrow> RkvNode list result" where
  "rh_LocateNodes hash rh key cnt =
     (if int (length (rh_nodes rh)) < cnt then Ok []
      else let partID = FindPartitionID hash rh key in
           if partID < 0 then Ok []
           else if cnt < 0 then Panic MakeSliceLen
           else result_bind (rh_fill rh partID 0 (nat cnt)) (\<lambda>ns.
                Ok (case ns of None \<Rightarrow> [] | Some res \<Rightarrow> res)))"

section \<open>The invariant\<close>

text \<open>The sorted hashes are those of the node names, each has an entry in the map, and the entry is
  a node with that hash. This holds with colliding hashes too.\<close>

definition rh_ok :: "hasher \<Rightarrow> RingHashing \<Rightarrow> bool" where
  "rh_ok hash rh \<longleftrightarrow> distinct (map fst (rh_nodes rh)) \<and> (\<forall>(s, n) \<in> set (rh_nodes rh). s = Name n) \<and>
     sorted (sortedSet rh) \<and> mset (sortedSet rh) = mset (map (hash \<circ> fst) (rh_nodes rh)) \<and>
     dom (map_of (ring rh)) = set (sortedSet rh) \<and>
     (\<forall>h n. map_of (ring rh) h = Some n \<longrightarrow> h = hash (Name n) \<and> n \<in> snd ` set (rh_nodes rh))"

definition rh_inv :: "hasher \<Rightarrow> RingHashing \<Rightarrow> bool" where
  "rh_inv hash rh \<longleftrightarrow> rh_ok hash rh \<and> distinct (map (hash \<circ> fst) (rh_nodes rh))"

lemma sort_Slice_less: "sort_Slice (<) xs = sort (xs :: uint64 list)"
  using go_sort_Slice.srt_sorted_key [of "\<lambda>x. x" xs] go_sort_Slice.srt_mset [of "(<)" xs]
  by (intro properties_for_sort [symmetric]) simp_all

lemma New_rh_inv: "rh_inv hash NewRingHashing"
  by (simp add: rh_inv_def rh_ok_def NewRingHashing_def)

lemma rh_AddNode_known: "rh_ok hash rh \<Longrightarrow> Name n \<in> fst ` set (rh_nodes rh) \<Longrightarrow> rh_AddNode hash rh n = rh"
  by (auto simp: rh_AddNode_def Node_String_def dom_map_of_conv_image_fst [symmetric] split: option.splits)

lemma rh_AddNode_fresh:
  assumes "Name n \<notin> fst ` set (rh_nodes rh)"
  shows "rh_AddNode hash rh n = rh\<lparr>ring := AList.update (hash (Name n)) n (ring rh),
    sortedSet := sort (sortedSet rh @ [hash (Name n)]), rh_nodes := rh_nodes rh @ [(Name n, n)]\<rparr>"
proof -
  have "map_of (rh_nodes rh) (Name n) = None" using assms by (simp add: map_of_eq_None_iff)
  then show ?thesis using assms
    by (simp add: update_fresh rh_AddNode_def rh_addNode_def Node_String_def Let_def sort_Slice_less)
qed


lemma rh_AddNode_ok [keeps_inv]:
  assumes "rh_ok hash rh"
  shows "rh_ok hash (rh_AddNode hash rh n)"
proof (cases "Name n \<in> fst ` set (rh_nodes rh)")
  case True
  with rh_AddNode_known [OF assms] assms show ?thesis by simp
next
  case False
  have old: "map_of (ring rh) h = Some m \<Longrightarrow> h = hash (Name m) \<and> m \<in> snd ` set (rh_nodes rh)" for h m
    using assms by (simp add: rh_ok_def)
  have "sorted (sort (sortedSet rh @ [hash (Name n)]))" by simp
  moreover have "map_of (AList.update (hash (Name n)) n (ring rh)) = (map_of (ring rh))(hash (Name n) \<mapsto> n)"
    by (rule update_conv')
  ultimately show ?thesis
    using False assms old unfolding rh_AddNode_fresh [OF False] rh_ok_def
    by (simp add: image_iff split: if_splits)
qed

definition owner :: "RingHashing \<Rightarrow> nat \<Rightarrow> RkvNode" where
  "owner rh i = the (map_of (ring rh) (sortedSet rh ! i))"

lemma rh_ok_length: "rh_ok hash rh \<Longrightarrow> length (sortedSet rh) = length (rh_nodes rh)"
  by (metis rh_ok_def length_map size_mset)

lemma owner_lookup:
  assumes "rh_ok hash rh" and "i < length (rh_nodes rh)"
  shows "map_of (ring rh) (sortedSet rh ! i) = Some (owner rh i)"
    and "hash (Name (owner rh i)) = sortedSet rh ! i" and "owner rh i \<in> snd ` set (rh_nodes rh)"
proof -
  have "sortedSet rh ! i \<in> dom (map_of (ring rh))"
    using assms rh_ok_length [OF assms(1)] by (simp add: rh_ok_def)
  then show o: "map_of (ring rh) (sortedSet rh ! i) = Some (owner rh i)" by (auto simp: owner_def)
  from o assms(1) show "hash (Name (owner rh i)) = sortedSet rh ! i" and "owner rh i \<in> snd ` set (rh_nodes rh)"
    by (auto simp: rh_ok_def)
qed

lemma rh_fill_Ok:
  assumes "rh_ok hash rh" and "rh_nodes rh \<noteq> []"
  shows "rh_fill rh (int p) i k = Ok (Some (map (\<lambda>j. owner rh ((p + j) mod length (rh_nodes rh))) [i..<i + k]))"
proof (induction k arbitrary: i)
  case (Suc k)
  let ?x = "(p + i) mod length (rh_nodes rh)"
  have x: "?x < length (rh_nodes rh)" using assms(2) by simp
  have "(int p + int i) mod int (length (rh_nodes rh)) = int ?x" by (simp add: zmod_int)
  then show ?case
    using Suc [of "i + 1"] x rh_ok_length [OF assms(1)] owner_lookup(1) [OF assms(1) x] by (simp add: upt_rec [of i])
qed simp

lemma rh_LocateNodes_Ok:
  assumes "rh_ok hash rh" and "rh_nodes rh \<noteq> []" and "0 \<le> c" and "c \<le> int (length (rh_nodes rh))"
  shows "rh_LocateNodes hash rh key c =
    Ok (map (\<lambda>j. owner rh ((unat (hash key) mod length (rh_nodes rh) + j) mod length (rh_nodes rh))) [0..<nat c])"
  using assms rh_fill_Ok [OF assms(1,2), of "unat (hash key) mod length (rh_nodes rh)" 0 "nat c"]
  by (simp add: rh_LocateNodes_def FindPartitionID_def)

lemma rh_LocateKey_Ok:
  assumes "rh_ok hash rh" and "rh_nodes rh \<noteq> []"
  shows "rh_LocateKey hash rh key = Ok (Some (owner rh (unat (hash key) mod length (rh_nodes rh))))"
proof -
  have x: "unat (hash key) mod length (rh_nodes rh) < length (rh_nodes rh)" using assms(2) by simp
  then have "slice_get (sortedSet rh) (int (unat (hash key) mod length (rh_nodes rh))) =
      Ok (sortedSet rh ! (unat (hash key) mod length (rh_nodes rh)))"
    using rh_ok_length [OF assms(1)] by (metis slice_get_nat)
  then show ?thesis using assms(2) owner_lookup(1) [OF assms(1) x]
    by (simp add: rh_LocateKey_def FindPartitionID_def GetPartitionOwner_def)
qed

lemma rh_inv_members:
  assumes "rh_inv hash rh"
  shows "card (snd ` set (rh_nodes rh)) = length (rh_nodes rh)" and "inj_on (hash \<circ> Name) (snd ` set (rh_nodes rh))"
    and "inj_on (owner rh) {0..<length (rh_nodes rh)}"
proof -
  have ok: "rh_ok hash rh" and d: "distinct (map (hash \<circ> fst) (rh_nodes rh))" using assms by (simp_all add: rh_inv_def)
  have "map (hash \<circ> fst) (rh_nodes rh) = map (hash \<circ> Name) (map snd (rh_nodes rh))"
    using ok by (auto simp: rh_ok_def)
  with d have d': "distinct (map (hash \<circ> Name) (map snd (rh_nodes rh)))" by simp
  then show "inj_on (hash \<circ> Name) (snd ` set (rh_nodes rh))"
    by (auto simp: distinct_map comp_assoc intro: inj_on_imageI)
  have "distinct (map snd (rh_nodes rh))" using d' by (simp only: distinct_map)
  then show "card (snd ` set (rh_nodes rh)) = length (rh_nodes rh)" by (metis distinct_card length_map set_map)
  have "distinct (sortedSet rh)" using d ok by (metis rh_ok_def mset_eq_imp_distinct_iff)
  then show "inj_on (owner rh) {0..<length (rh_nodes rh)}"
    using owner_lookup(2) [OF ok] rh_ok_length [OF ok]
    by (intro inj_onI) (metis atLeastLessThan_iff nth_eq_iff_index_eq)
qed

lemma rh_locate_law:
  assumes "rh_inv hash rh" and "1 \<le> c" and "c \<le> int (card (snd ` set (rh_nodes rh)))"
  shows "\<exists>ns. rh_LocateNodes hash rh key c = Ok ns \<and> int (length ns) = c \<and> distinct ns \<and> set ns \<subseteq> snd ` set (rh_nodes rh)"
proof -
  let ?N = "length (rh_nodes rh)" and ?p = "unat (hash key) mod length (rh_nodes rh)"
  have ok: "rh_ok hash rh" using assms(1) by (simp add: rh_inv_def)
  note m = rh_inv_members [OF assms(1)]
  have ne: "rh_nodes rh \<noteq> []" using assms(2,3) by auto
  have l: "rh_LocateNodes hash rh key c = Ok (map (\<lambda>j. owner rh ((?p + j) mod ?N)) [0..<nat c])"
    by (rule rh_LocateNodes_Ok [OF ok ne]) (use assms(2,3) m(1) in auto)
  have "inj_on (owner rh \<circ> (\<lambda>j. (?p + j) mod ?N)) {0..<nat c}"
  proof (rule comp_inj_on)
    show "inj_on (\<lambda>j. (?p + j) mod ?N) {0..<nat c}" using assms(3) m(1) by (intro inj_on_add_mod) simp
    show "inj_on (owner rh) ((\<lambda>j. (?p + j) mod ?N) ` {0..<nat c})"
      by (rule inj_on_subset [OF m(3)]) (use ne in auto)
  qed
  then have "distinct (map (\<lambda>j. owner rh ((?p + j) mod ?N)) [0..<nat c])" by (simp add: distinct_map comp_def)
  moreover have "owner rh ((?p + j) mod ?N) \<in> snd ` set (rh_nodes rh)" for j
    using owner_lookup(3) [OF ok] ne by simp
  ultimately show ?thesis using l assms(2) by auto
qed

interpretation rh: consistent_hashing hash "rh_AddNode hash" "rh_LocateKey hash" "rh_LocateNodes hash"
  "\<lambda>rh. snd ` set (rh_nodes rh)" "rh_inv hash" for hash
proof
  fix rh n key c c' ns
  assume inv: "rh_inv hash rh"
  then have ok: "rh_ok hash rh" by (simp add: rh_inv_def)
  let ?N = "length (rh_nodes rh)"
  note m = rh_inv_members [OF inv]
  show "finite (snd ` set (rh_nodes rh))" by simp
  show "inj_on (hash \<circ> Name) (snd ` set (rh_nodes rh))" by (rule m(2))
  have names: "fst x = Name (snd x)" if "x \<in> set (rh_nodes rh)" for x using ok that by (auto simp: rh_ok_def)
  show "rh_inv hash (rh_AddNode hash rh n) \<and> snd ` set (rh_nodes (rh_AddNode hash rh n)) = insert n (snd ` set (rh_nodes rh))"
    if "hash (Name n) \<notin> (hash \<circ> Name) ` snd ` set (rh_nodes rh)"
  proof -
    have "hash (Name n) \<notin> (hash \<circ> fst) ` set (rh_nodes rh)" using that names by force
    moreover from this have "Name n \<notin> fst ` set (rh_nodes rh)" by force
    ultimately show ?thesis
      using rh_AddNode_ok [OF ok, of n] inv by (simp add: rh_inv_def rh_AddNode_fresh)
  qed
  show short: "rh_LocateNodes hash rh key c = Ok []" if "int (card (snd ` set (rh_nodes rh))) < c" for c
    using that m(1) by (simp add: rh_LocateNodes_def)
  show "rh_LocateKey hash rh key = Ok None" if "snd ` set (rh_nodes rh) = {}"
    using that by (simp add: rh_LocateKey_def FindPartitionID_def GetPartitionOwner_def)
  show "\<exists>ns. rh_LocateNodes hash rh key c = Ok ns \<and> int (length ns) = c \<and> distinct ns \<and> set ns \<subseteq> snd ` set (rh_nodes rh)"
    if "1 \<le> c" "c \<le> int (card (snd ` set (rh_nodes rh)))"
    using rh_locate_law [OF inv that] .
  show "rh_LocateNodes hash rh key c = Ok (take (nat c) ns)"
    if "1 \<le> c" "c \<le> c'" "rh_LocateNodes hash rh key c' = Ok ns" "ns \<noteq> []"
  proof -
    have c': "c' \<le> int ?N" using short [of c'] that(3,4) m(1) by force
    then have ne: "rh_nodes rh \<noteq> []" using that(1,2) by auto
    show ?thesis
      using rh_LocateNodes_Ok [OF ok ne, of c key] rh_LocateNodes_Ok [OF ok ne, of c' key] that c'
      by (auto simp: take_map nat_mono)
  qed
  show "\<exists>n. rh_LocateNodes hash rh key 1 = Ok [n] \<and> rh_LocateKey hash rh key = Ok (Some n)"
    if "snd ` set (rh_nodes rh) \<noteq> {}"
  proof -
    have ne: "rh_nodes rh \<noteq> []" using that by auto
    then have "1 \<le> int ?N" by (simp add: Suc_leI)
    then show ?thesis using rh_LocateNodes_Ok [OF ok ne, of 1 key] rh_LocateKey_Ok [OF ok ne, of key] by simp
  qed
qed


section \<open>Properties\<close>

lemma ring_built:
  assumes "distinct (map (hash \<circ> Name) ns)"
  shows "rh_inv hash (foldl (rh_AddNode hash) NewRingHashing ns)"
    and "snd ` set (rh_nodes (foldl (rh_AddNode hash) NewRingHashing ns)) = set ns"
  using rh.add_all [OF New_rh_inv assms] by (simp_all add: NewRingHashing_def)

lemma rh_inv_sortedSet:
  assumes "rh_inv hash rh"
  shows "sortedSet rh = sorted_list_of_set ((hash \<circ> Name) ` snd ` set (rh_nodes rh))"
proof -
  have ok: "rh_ok hash rh" and d: "distinct (map (hash \<circ> fst) (rh_nodes rh))"
    using assms by (simp_all add: rh_inv_def)
  have s: "sorted (sortedSet rh)" and e: "mset (sortedSet rh) = mset (map (hash \<circ> fst) (rh_nodes rh))"
    using ok by (simp_all add: rh_ok_def)
  have "set (sortedSet rh) = (hash \<circ> fst) ` set (rh_nodes rh)" using e by (metis set_mset_mset set_map)
  also have "\<dots> = (hash \<circ> Name \<circ> snd) ` set (rh_nodes rh)"
    using ok by (intro image_cong) (auto simp: rh_ok_def)
  finally have set: "set (sortedSet rh) = (hash \<circ> Name) ` snd ` set (rh_nodes rh)" by (simp only: image_comp)
  have "distinct (sortedSet rh)" using mset_eq_imp_distinct_iff [OF e] d by blast
  then show ?thesis unfolding set [symmetric] using s by (simp add: sorted_list_of_set.idem_if_sorted_distinct)
qed

lemma rh_same_members:
  assumes "rh_inv hash a" and "rh_inv hash b" and "snd ` set (rh_nodes a) = snd ` set (rh_nodes b)"
  shows "rh_LocateNodes hash a key c = rh_LocateNodes hash b key c"
proof -
  have l: "length (rh_nodes a) = length (rh_nodes b)"
    using rh_inv_members(1) [OF assms(1)] rh_inv_members(1) [OF assms(2)] assms(3) by simp
  have s: "sortedSet a = sortedSet b"
    using rh_inv_sortedSet [OF assms(1)] rh_inv_sortedSet [OF assms(2)] assms(3) by simp
  have ok: "rh_ok hash a" "rh_ok hash b" using assms(1,2) by (simp_all add: rh_inv_def)
  have o: "owner a i = owner b i" if "i < length (rh_nodes b)" for i
  proof (rule inj_onD [OF rh_inv_members(2) [OF assms(2)]])
    have i: "i < length (rh_nodes a)" using that l by simp
    show "(hash \<circ> Name) (owner a i) = (hash \<circ> Name) (owner b i)"
      using owner_lookup(2) [OF ok(1) i] owner_lookup(2) [OF ok(2) that] s by simp
    show "owner a i \<in> snd ` set (rh_nodes b)" and "owner b i \<in> snd ` set (rh_nodes b)"
      using owner_lookup(3) [OF ok(1) i] owner_lookup(3) [OF ok(2) that] assms(3) by simp_all
  qed
  show ?thesis
  proof (cases "rh_nodes b = [] \<or> c < 0 \<or> int (length (rh_nodes b)) < c")
    case True
    then show ?thesis using l by (auto simp: rh_LocateNodes_def FindPartitionID_def)
  next
    case False
    then have "rh_nodes a \<noteq> []" using l by auto
    with False show ?thesis
      using rh_LocateNodes_Ok [OF ok(1), of c key] rh_LocateNodes_Ok [OF ok(2), of c key] l o by simp
  qed
qed

text \<open>C31: The replicas the ring chooses for a key depend only on the set of nodes, not on the order in
  which they were added, when the names of the nodes have different hashes.\<close>

theorem ring_LocateNodes_order_independent:
  assumes "distinct (map (hash \<circ> Name) ns)" and "mset ns' = mset ns"
  shows "rh_LocateNodes hash (foldl (rh_AddNode hash) NewRingHashing ns') key c =
    rh_LocateNodes hash (foldl (rh_AddNode hash) NewRingHashing ns) key c"
proof -
  have "distinct (map (hash \<circ> Name) ns')" using assms by (metis mset_eq_imp_distinct_iff mset_map)
  moreover have "set ns' = set ns" using assms(2) by (metis set_mset_mset)
  ultimately show ?thesis using ring_built assms(1) by (intro rh_same_members) auto
qed

theorem ring_LocateNodes_order_independent_witness:
  "rh_LocateNodes length_hash (foldl (rh_AddNode length_hash) NewRingHashing [node ''bb'', node ''a'', node ''ccc'']) ''key'' 2 =
   rh_LocateNodes length_hash (foldl (rh_AddNode length_hash) NewRingHashing [node ''a'', node ''bb'', node ''ccc'']) ''key'' 2"
  by (rule ring_LocateNodes_order_independent) (simp_all add: node_def length_hash_def)

text \<open>The ring takes the key's hash modulo the number of nodes: a third node moves the key of
  hash 3 from the second node to the first, so keys move between nodes that were there before.\<close>

theorem ring_not_minimal_disruption:
  "rh_LocateKey length_hash (foldl (rh_AddNode length_hash) NewRingHashing [node ''a'', node ''bb'']) ''key'' = Ok (Some (node ''bb'')) \<and>
   rh_LocateKey length_hash (foldl (rh_AddNode length_hash) NewRingHashing [node ''a'', node ''bb'', node ''ccc'']) ''key'' = Ok (Some (node ''a''))"
  by code_simp

text \<open>Whatever nodes were added, with repeated names and with colliding hashes too, \<^verbatim>\<open>LocateKey\<close>
  and \<^verbatim>\<open>LocateNodes\<close> for a non-negative count never panic: every index is within the sorted hashes and
  every hash has its node; and adding a node whose name is known changes nothing.\<close>

theorem ring_never_panics:
  assumes "0 \<le> c" and "rh = foldl (rh_AddNode hash) NewRingHashing ns"
  shows "rh_ok hash rh \<and> (\<exists>n. rh_LocateKey hash rh key = Ok n) \<and>
    (\<exists>res. rh_LocateNodes hash rh key c = Ok res \<and>
       (if rh_nodes rh \<noteq> [] \<and> c \<le> int (length (rh_nodes rh)) then int (length res) = c else res = [])) \<and>
    (\<forall>n. Name n \<in> fst ` set (rh_nodes rh) \<longrightarrow> rh_AddNode hash rh n = rh)"
proof -
  have ok: "rh_ok hash rh" unfolding assms(2)
    by (induction ns rule: rev_induct) (use New_rh_inv rh_inv_def in \<open>auto simp: rh_AddNode_ok\<close>)
  have "(\<exists>n. rh_LocateKey hash rh key = Ok n) \<and> (\<exists>res. rh_LocateNodes hash rh key c = Ok res \<and>
       (if rh_nodes rh \<noteq> [] \<and> c \<le> int (length (rh_nodes rh)) then int (length res) = c else res = []))"
  proof (cases "rh_nodes rh = []")
    case True
    then show ?thesis by (simp add: rh_LocateKey_def rh_LocateNodes_def FindPartitionID_def GetPartitionOwner_def)
  next
    case False
    then show ?thesis
      using rh_LocateKey_Ok [OF ok False, of key] rh_LocateNodes_Ok [OF ok False assms(1), of key] assms(1)
      by (auto simp: rh_LocateNodes_def)
  qed
  then show ?thesis using ok rh_AddNode_known [OF ok] by blast
qed

theorem ring_never_panics_witness:
  "\<exists>res. rh_LocateNodes (\<lambda>_. 7) (foldl (rh_AddNode (\<lambda>_. 7)) NewRingHashing [node ''a'', node ''b'', node ''a'']) ''k'' 2 = Ok res"
  using ring_never_panics [of 2 "foldl (rh_AddNode (\<lambda>_. 7)) NewRingHashing [node ''a'', node ''b'', node ''a'']" "\<lambda>_. 7"
      "[node ''a'', node ''b'', node ''a'']" "''k''"] by auto

end
