(* ===== verification/Constants.thy ===== *)
theory Constants
  imports Go_Prelude
begin

text \<open>
  The named constants of \<^verbatim>\<open>pkg/constants\<close>. The Go types are strings with a \<^verbatim>\<open>Name\<close> method, so a
  configuration file may hold any string: the code that switches on them has a default branch.
\<close>

type_synonym AvailabilityZone = string
type_synonym Region = string
type_synonym ConsistentHashingType = string
type_synonym HashingManagerType = string
type_synonym PipingType = string
type_synonym StoreType = string

definition az_Name :: "AvailabilityZone \<Rightarrow> string" where
  "az_Name az = az"

definition US_zones :: "AvailabilityZone list" where
  "US_zones =
     [''us-east-1a'', ''us-east-1b'', ''us-east-1c'', ''us-east-1d'', ''us-east-1e'',
      ''us-east-2a'', ''us-east-2b'', ''us-east-2c'',
      ''us-west-1a'', ''us-west-1b'', ''us-west-1c'',
      ''us-west-2a'', ''us-west-2b'', ''us-west-2c'']"

definition DEFAULT_AZ :: AvailabilityZone where
  "DEFAULT_AZ = ''us-west-1a''"

definition US_regions :: "Region list" where
  "US_regions = [''us-east-1'', ''us-east-2'', ''us-west-1'', ''us-west-2'']"

definition DEFAULT_REGION :: Region where
  "DEFAULT_REGION = ''us-west-1''"

definition RendezvousType :: ConsistentHashingType where
  "RendezvousType = ''rendezvous''"

definition RingType :: ConsistentHashingType where
  "RingType = ''ring''"

definition SyncAsync :: HashingManagerType where
  "SyncAsync = ''syncAsync''"

definition Sync :: HashingManagerType where
  "Sync = ''sync''"

definition ChainType :: PipingType where
  "ChainType = ''chain''"

definition LocalSyncRemoteAsync :: PipingType where
  "LocalSyncRemoteAsync = ''localSyncRemoteAsync''"

definition Memory :: StoreType where
  "Memory = ''mem''"

definition Redis :: StoreType where
  "Redis = ''redis''"

definition DummyLatency :: StoreType where
  "DummyLatency = ''dummy+latency''"

definition RedisRetryCount :: nat where
  "RedisRetryCount = 5"

text \<open>\<^verbatim>\<open>10 * time.Millisecond\<close>, in nanoseconds.\<close>

definition RedisRetryInterval :: int64 where
  "RedisRetryInterval = 10 * 1000000"

lemmas store_types = Memory_def Redis_def DummyLatency_def

end
