(* ===== verification/Hashing_Manager.thy ===== *)
theory Hashing_Manager
  imports Ring Constants
begin

text \<open>
  The choice of replicas (\<^verbatim>\<open>pkg/partition/consistent/hashing.go\<close>): the factory and the two hashing
  managers. The vendored hash function is the argument \<open>hash\<close>, the library's \<^verbatim>\<open>sort.Slice\<close> the
  argument \<open>srt\<close> of which the contract \<open>go_sort\<close> is known (it is not a stable sort). A Go map that is
  iterated over, \<^verbatim>\<open>localStores\<close>, is given as the list of its entries in the order of the iteration.
\<close>

datatype ConsistentHashing = RendezvousH Rendezvous | RingH RingHashing

definition Factory :: "hasher \<Rightarrow> ConsistentHashingType \<Rightarrow> ConsistentHashing" where
  "Factory hash hashingType =
     (if hashingType = RendezvousType then RendezvousH (NewRendezvous hash [])
      else if hashingType = RingType then RingH NewRingHashing
      else RendezvousH (NewRendezvous hash []))"

fun AddNode :: "hasher \<Rightarrow> ConsistentHashing \<Rightarrow> RkvNode \<Rightarrow> ConsistentHashing" where
  "AddNode hash (RendezvousH r) n = RendezvousH (rz_AddNode hash r n)"
| "AddNode hash (RingH r) n = RingH (rh_AddNode hash r n)"

fun LocateKey :: "hasher \<Rightarrow> ConsistentHashing \<Rightarrow> bytes \<Rightarrow> RkvNode option result" where
  "LocateKey hash (RendezvousH r) key = rz_LocateKey hash r key"
| "LocateKey hash (RingH r) key = rh_LocateKey hash r key"

fun LocateNodes :: "hasher \<Rightarrow> ConsistentHashing \<Rightarrow> bytes \<Rightarrow> int \<Rightarrow> RkvNode list result" where
  "LocateNodes hash (RendezvousH r) key cnt = rz_LocateNodes hash r key cnt"
| "LocateNodes hash (RingH r) key cnt = rh_LocateNodes hash r key cnt"

section \<open>The synchronous manager\<close>

record SyncHashingManager =
  hasing :: ConsistentHashing
  shm_count :: int

definition NewSyncHashingManager :: "hasher \<Rightarrow> ConsistentHashingType \<Rightarrow> RkvNode list \<Rightarrow> int \<Rightarrow> SyncHashingManager" where
  "NewSyncHashingManager hash hashingType ns cnt =
     \<lparr>hasing = foldl (AddNode hash) (Factory hash hashingType) ns, shm_count = cnt\<rparr>"

definition shm_GetSyncNodes :: "hasher \<Rightarrow> SyncHashingManager \<Rightarrow> bytes \<Rightarrow> RkvNode list result" where
  "shm_GetSyncNodes hash shm key = LocateNodes hash (hasing shm) key (shm_count shm)"

definition shm_GetAsyncNodes :: "SyncHashingManager \<Rightarrow> bytes \<Rightarrow> RkvNode list result" where
  "shm_GetAsyncNodes shm key = Ok []"

definition shm_GetNodes :: "hasher \<Rightarrow> SyncHashingManager \<Rightarrow> bytes \<Rightarrow> string list result" where
  "shm_GetNodes hash shm key =
     result_bind (shm_GetSyncNodes hash shm key) (\<lambda>syncNodes.
       Ok [Join (convertNodeArrToStringArr syncNodes) '',''])"

section \<open>The manager of local zones and remote stores\<close>

record SyncByZoneAsyncHashingManager =
  AzHashing :: ConsistentHashing
  LocalHashing :: "(AvailabilityZone \<times> ConsistentHashing) list"
  RemoteHasing :: ConsistentHashing
  LatencyMap :: "(string \<times> int64) list"
  LocalCount :: int
  RemoteCount :: int

text \<open>The loops of \<^verbatim>\<open>NewSyncAsyncHashingManager\<close> over the zones and over the stores of a zone.\<close>

definition az_node :: "AvailabilityZone \<Rightarrow> RkvNode" where
  "az_node az = \<lparr>Name = az_Name az, Latency = 0, IsRemote = False\<rparr>"

fun add_stores :: "hasher \<Rightarrow> RkvNode list \<Rightarrow> ConsistentHashing \<times> (string \<times> int64) list
    \<Rightarrow> ConsistentHashing \<times> (string \<times> int64) list" where
  "add_stores hash [] (h, lm) = (h, lm)"
| "add_stores hash (s # ss) (h, lm) =
     add_stores hash ss (AddNode hash h s, AList.update (Name s) (Latency s) lm)"

fun add_zones :: "hasher \<Rightarrow> ConsistentHashingType \<Rightarrow> (AvailabilityZone \<times> RkvNode list) list
    \<Rightarrow> ConsistentHashing \<times> (AvailabilityZone \<times> ConsistentHashing) list \<times> (string \<times> int64) list
    \<Rightarrow> ConsistentHashing \<times> (AvailabilityZone \<times> ConsistentHashing) list \<times> (string \<times> int64) list" where
  "add_zones hash ty [] st = st"
| "add_zones hash ty ((az, stores) # zs) (azRing, localRing, latencyMap) =
     (let localRing1 = (case map_of localRing az of
                          None \<Rightarrow> AList.update az (Factory hash ty) localRing | Some _ \<Rightarrow> localRing);
          (h, lm) = add_stores hash stores (the (map_of localRing1 az), latencyMap)
      in add_zones hash ty zs
           (AddNode hash azRing (az_node az), AList.update az h localRing1, lm))"

definition NewSyncAsyncHashingManager :: "hasher \<Rightarrow> ConsistentHashingType
    \<Rightarrow> (AvailabilityZone \<times> RkvNode list) list \<Rightarrow> int \<Rightarrow> RkvNode list \<Rightarrow> int \<Rightarrow> SyncByZoneAsyncHashingManager" where
  "NewSyncAsyncHashingManager hash hashingType localStores localCount remoteStores remoteCount =
     (let (azRing, localRing, latencyMap) = add_zones hash hashingType localStores (Factory hash hashingType, [], []);
          (remoteRing, latencyMap') = add_stores hash remoteStores (Factory hash hashingType, latencyMap)
      in \<lparr>AzHashing = azRing, LocalHashing = localRing, RemoteHasing = remoteRing,
          LatencyMap = latencyMap', LocalCount = localCount, RemoteCount = remoteCount\<rparr>)"

text \<open>The loop over the zones: one node of each. A zone without an entry is a nil interface, on which
  the call panics; a store without an entry in the latency map has latency 0.\<close>

definition latency_of :: "(string \<times> int64) list \<Rightarrow> string \<Rightarrow> int64" where
  "latency_of lm s = (case map_of lm s of None \<Rightarrow> 0 | Some d \<Rightarrow> d)"

fun zone_nodes :: "hasher \<Rightarrow> SyncByZoneAsyncHashingManager \<Rightarrow> bytes \<Rightarrow> RkvNode list \<Rightarrow> RkvNode list result" where
  "zone_nodes hash sahm key [] = Ok []"
| "zone_nodes hash sahm key (az # azs) =
     (case map_of (LocalHashing sahm) (Node_String az) of
        None \<Rightarrow> Panic NilDereference
      | Some h \<Rightarrow>
          result_bind (LocateNodes hash h key 1) (\<lambda>lnodes.
            case lnodes of
              [n] \<Rightarrow> result_bind (zone_nodes hash sahm key azs) (\<lambda>ns.
                       Ok (\<lparr>Name = Node_String n, Latency = latency_of (LatencyMap sahm) (Node_String n),
                            IsRemote = False\<rparr> # ns))
            | _ \<Rightarrow> Err (ErrorString (''failed to get 1 local node. The return number is '' @
                         FormatNat (length lnodes)))))"

definition sahm_GetSyncNodes :: "hasher \<Rightarrow> ((RkvNode \<Rightarrow> RkvNode \<Rightarrow> bool) \<Rightarrow> RkvNode list \<Rightarrow> RkvNode list)
    \<Rightarrow> SyncByZoneAsyncHashingManager \<Rightarrow> bytes \<Rightarrow> RkvNode list result" where
  "sahm_GetSyncNodes hash srt sahm key =
     (if LocalCount sahm < 1 then Ok []
      else result_bind (LocateNodes hash (AzHashing sahm) key (LocalCount sahm)) (\<lambda>azs.
        if int (length azs) \<noteq> LocalCount sahm
        then Err (ErrorString (''failed to get '' @ FormatInt (LocalCount sahm) @
                    '' zones. The return number is '' @ FormatNat (length azs)))
        else result_bind (zone_nodes hash sahm key azs) (\<lambda>nodesWithLatency.
          Ok (srt (\<lambda>a b. sint (Latency a) < sint (Latency b)) nodesWithLatency))))"

definition sahm_GetAsyncNodes :: "hasher \<Rightarrow> SyncByZoneAsyncHashingManager \<Rightarrow> bytes \<Rightarrow> RkvNode list result" where
  "sahm_GetAsyncNodes hash sahm key =
     (if RemoteCount sahm < 1 then Ok []
      else result_bind (LocateNodes hash (RemoteHasing sahm) key (RemoteCount sahm)) (\<lambda>rnodes.
        if int (length rnodes) \<noteq> RemoteCount sahm
        then Err (ErrorString (''failed to get '' @ FormatInt (RemoteCount sahm) @
                    '' remote nodes. The return number is '' @ FormatNat (length rnodes)))
        else Ok rnodes))"

definition sahm_GetNodes :: "hasher \<Rightarrow> ((RkvNode \<Rightarrow> RkvNode \<Rightarrow> bool) \<Rightarrow> RkvNode list \<Rightarrow> RkvNode list)
    \<Rightarrow> SyncByZoneAsyncHashingManager \<Rightarrow> bytes \<Rightarrow> string list result" where
  "sahm_GetNodes hash srt sahm key =
     result_bind (sahm_GetSyncNodes hash srt sahm key) (\<lambda>syncNodes.
     result_bind (sahm_GetAsyncNodes hash sahm key) (\<lambda>asyncNodes.
       Ok [Join (convertNodeArrToStringArr syncNodes) '','', Join (convertNodeArrToStringArr asyncNodes) '','']))"

text \<open>The interface \<^verbatim>\<open>HashingManager\<close>, as the handler holds it.\<close>

datatype HashingManager = SyncHM SyncHashingManager | SyncAsyncHM SyncByZoneAsyncHashingManager

fun hm_GetNodes :: "hasher \<Rightarrow> ((RkvNode \<Rightarrow> RkvNode \<Rightarrow> bool) \<Rightarrow> RkvNode list \<Rightarrow> RkvNode list)
    \<Rightarrow> HashingManager \<Rightarrow> bytes \<Rightarrow> string list result" where
  "hm_GetNodes hash srt (SyncHM m) key = shm_GetNodes hash m key"
| "hm_GetNodes hash srt (SyncAsyncHM m) key = sahm_GetNodes hash srt m key"


section \<open>Both kinds of hashing keep the contract\<close>

fun ch_members :: "ConsistentHashing \<Rightarrow> RkvNode set" where
  "ch_members (RendezvousH r) = set (nstr r)"
| "ch_members (RingH r) = snd ` set (rh_nodes r)"

fun ch_inv :: "hasher \<Rightarrow> ConsistentHashing \<Rightarrow> bool" where
  "ch_inv hash (RendezvousH r) = rz_inv hash r"
| "ch_inv hash (RingH r) = rh_inv hash r"

interpretation ch: consistent_hashing hash "AddNode hash" "LocateKey hash" "LocateNodes hash"
  ch_members "ch_inv hash" for hash
proof
  fix h n key c c' ns
  assume inv: "ch_inv hash h"
  show "finite (ch_members h)" by (cases h) simp_all
  show "inj_on (hash \<circ> Name) (ch_members h)"
    using inv rz.members_inj rh.members_inj by (cases h) simp_all
  show "ch_inv hash (AddNode hash h n) \<and> ch_members (AddNode hash h n) = insert n (ch_members h)"
    if "hash (Name n) \<notin> (hash \<circ> Name) ` ch_members h"
    using inv that rz.add_law rh.add_law by (cases h) simp_all
  show "\<exists>ns. LocateNodes hash h key c = Ok ns \<and> int (length ns) = c \<and> distinct ns \<and> set ns \<subseteq> ch_members h"
    if "1 \<le> c" "c \<le> int (card (ch_members h))"
    using inv that rz.locate_law rh.locate_law by (cases h) simp_all
  show "LocateNodes hash h key c = Ok (take (nat c) ns)"
    if "1 \<le> c" "c \<le> c'" "LocateNodes hash h key c' = Ok ns" "ns \<noteq> []"
    using inv that rz.locate_prefix rh.locate_prefix by (cases h) fastforce+
  show "LocateNodes hash h key c = Ok []" if "int (card (ch_members h)) < c"
    using inv that rz.locate_short rh.locate_short by (cases h) simp_all
  show "\<exists>n. LocateNodes hash h key 1 = Ok [n] \<and> LocateKey hash h key = Ok (Some n)" if "ch_members h \<noteq> {}"
    using inv that rz.locate_key_law rh.locate_key_law by (cases h) simp_all
  show "LocateKey hash h key = Ok None" if "ch_members h = {}"
    using inv that rz.locate_key_none rh.locate_key_none by (cases h) simp_all
qed

lemma Factory_inv: "ch_inv hash (Factory hash ty)" "ch_members (Factory hash ty) = {}"
  using New_rh_inv rz_New_ok by (simp_all add: Factory_def rz_inv_def NewRingHashing_def)

definition built :: "hasher \<Rightarrow> ConsistentHashingType \<Rightarrow> RkvNode list \<Rightarrow> ConsistentHashing" where
  "built hash ty ns = foldl (AddNode hash) (Factory hash ty) ns"

lemma built_inv:
  assumes "distinct (map (hash \<circ> Name) ns)"
  shows "ch_inv hash (built hash ty ns)" and "ch_members (built hash ty ns) = set ns"
  using ch.add_all [OF Factory_inv(1) assms, of ty] by (simp_all add: Factory_inv(2) built_def)

lemma card_built: "distinct (map (hash \<circ> Name) ns) \<Longrightarrow> card (ch_members (built hash ty ns)) = length ns"
  by (simp add: built_inv distinct_map distinct_card)

section \<open>The state the constructor builds\<close>

abbreviation record_latency :: "RkvNode \<Rightarrow> (string \<times> int64) list \<Rightarrow> (string \<times> int64) list" where
  "record_latency s \<equiv> AList.update (Name s) (Latency s)"

lemma add_stores_eq: "add_stores hash ss (h, lm) = (foldl (AddNode hash) h ss, fold record_latency ss lm)"
  by (induction ss arbitrary: h lm) simp_all

lemma update_last_entry: "k \<notin> fst ` set al \<Longrightarrow> AList.update k v (al @ [(k, w)]) = al @ [(k, v)]"
  by (induction al) auto

lemma add_zones_eq:
  assumes "distinct (map fst zs)" and "fst ` set zs \<inter> fst ` set lR = {}"
  shows "add_zones hash ty zs (azR, lR, lm) =
    (foldl (AddNode hash) azR (map (az_node \<circ> fst) zs), lR @ map (\<lambda>(az, ss). (az, built hash ty ss)) zs,
     fold record_latency (concat (map snd zs)) lm)"
  using assms
proof (induction zs arbitrary: azR lR lm)
  case (Cons z zs)
  obtain az ss where z: "z = (az, ss)" by (cases z)
  have fresh: "az \<notin> fst ` set lR" using Cons.prems z by auto
  then have none: "map_of lR az = None" by (simp add: map_of_eq_None_iff)
  have "add_zones hash ty (z # zs) (azR, lR, lm) =
      add_zones hash ty zs (AddNode hash azR (az_node az), lR @ [(az, built hash ty ss)], fold record_latency ss lm)"
    using fresh none by (simp add: z add_stores_eq update_fresh update_last_entry map_add_def built_def)
  also have "\<dots> = (foldl (AddNode hash) (AddNode hash azR (az_node az)) (map (az_node \<circ> fst) zs),
      (lR @ [(az, built hash ty ss)]) @ map (\<lambda>(az, ss). (az, built hash ty ss)) zs,
      fold record_latency (concat (map snd zs)) (fold record_latency ss lm))"
    by (rule Cons.IH) (use Cons.prems z in auto)
  finally show ?case by (simp add: z comp_def)
qed simp

lemma latency_other: "s \<notin> Name ` set ss \<Longrightarrow> latency_of (fold record_latency ss lm) s = latency_of lm s"
  by (induction ss arbitrary: lm) (auto simp: latency_of_def update_conv')

lemma latency_recorded:
  "distinct (map Name ss) \<Longrightarrow> n \<in> set ss \<Longrightarrow> latency_of (fold record_latency ss lm) (Name n) = Latency n"
proof (induction ss arbitrary: lm)
  case (Cons s ss)
  then show ?case
    by (cases "n = s") (auto simp: latency_other, simp add: latency_of_def update_conv')
qed simp

text \<open>Zones and stores as a sensible configuration has them.\<close>

definition placement_ok :: "hasher \<Rightarrow> (AvailabilityZone \<times> RkvNode list) list \<Rightarrow> RkvNode list \<Rightarrow> bool" where
  "placement_ok hash localStores remoteStores \<longleftrightarrow>
     distinct (map (hash \<circ> fst) localStores) \<and>
     (\<forall>(az, ss) \<in> set localStores. ss \<noteq> [] \<and> distinct (map (hash \<circ> Name) ss)) \<and>
     distinct (map (hash \<circ> Name) remoteStores) \<and>
     distinct (map Name (concat (map snd localStores) @ remoteStores))"

lemma NewSyncAsync_sel:
  fixes hash ty ls lc rs rc
  defines "m \<equiv> NewSyncAsyncHashingManager hash ty ls lc rs rc"
  assumes "placement_ok hash ls rs"
  shows "AzHashing m = built hash ty (map (az_node \<circ> fst) ls)"
    and "LocalHashing m = map (\<lambda>(az, ss). (az, built hash ty ss)) ls"
    and "RemoteHasing m = built hash ty rs" and "LocalCount m = lc" and "RemoteCount m = rc"
    and "LatencyMap m = fold record_latency (concat (map snd ls) @ rs) []"
proof -
  have "distinct (map (hash \<circ> fst) ls)" using assms(2) by (simp add: placement_ok_def)
  then have "distinct (map fst ls)" by (metis distinct_map map_map)
  from add_zones_eq [OF this, of "[]" hash ty]
  show "AzHashing m = built hash ty (map (az_node \<circ> fst) ls)"
    and "LocalHashing m = map (\<lambda>(az, ss). (az, built hash ty ss)) ls"
    and "RemoteHasing m = built hash ty rs" and "LocalCount m = lc" and "RemoteCount m = rc"
    and "LatencyMap m = fold record_latency (concat (map snd ls) @ rs) []"
    by (simp_all add: m_def NewSyncAsyncHashingManager_def add_stores_eq built_def)
qed


section \<open>The nodes of a key\<close>

text \<open>A node as \<^verbatim>\<open>GetSyncNodes\<close> rebuilds it, from a store of the zone.\<close>

definition of_zone :: "(AvailabilityZone \<times> RkvNode list) list \<Rightarrow> AvailabilityZone \<Rightarrow> RkvNode \<Rightarrow> bool" where
  "of_zone ls az n \<longleftrightarrow> (\<exists>ss. map_of ls az = Some ss \<and> (\<exists>s \<in> set ss. Name n = Name s \<and> Latency n = Latency s)) \<and> \<not> IsRemote n"

lemma zone_nodes_Ok:
  fixes hash ty ls lc rs rc
  defines "m \<equiv> NewSyncAsyncHashingManager hash ty ls lc rs rc"
  assumes "placement_ok hash ls rs" and "set azs \<subseteq> fst ` set ls"
  shows "\<exists>ns. zone_nodes hash m key (map az_node azs) = Ok ns \<and> list_all2 (of_zone ls) azs ns"
  using assms(3)
proof (induction azs)
  case (Cons az azs)
  then obtain ns where ns: "zone_nodes hash m key (map az_node azs) = Ok ns" "list_all2 (of_zone ls) azs ns" by auto
  obtain ss where ss: "map_of ls az = Some ss" using Cons.prems by (auto dest: weak_map_of_SomeI)
  then have in_ls: "(az, ss) \<in> set ls" by (rule map_of_SomeD)
  then have ne: "ss \<noteq> []" and d: "distinct (map (hash \<circ> Name) ss)" using assms(2) by (auto simp: placement_ok_def)
  have h: "map_of (LocalHashing m) az = Some (built hash ty ss)"
    using ss unfolding m_def NewSyncAsync_sel [OF assms(2)] by (simp add: map_of_map)
  obtain n where n: "LocateNodes hash (built hash ty ss) key 1 = Ok [n]"
    using ch.locate_key_law [OF built_inv(1) [OF d]] built_inv(2) [OF d] ne by (metis set_empty2)
  have "n \<in> set ss"
    using ch.locate_all_names [OF built_inv(1) [OF d] n] built_inv(2) [OF d] by simp
  moreover have "latency_of (LatencyMap m) (Name n) = Latency n"
    unfolding m_def NewSyncAsync_sel [OF assms(2)]
    by (rule latency_recorded) (use assms(2) in_ls \<open>n \<in> set ss\<close> in \<open>force simp: placement_ok_def\<close>)+
  moreover have "Node_String (az_node az) = az" by (simp add: Node_String_def az_node_def az_Name_def)
  moreover from \<open>n \<in> set ss\<close> have "of_zone ls az \<lparr>Name = Name n, Latency = Latency n, IsRemote = False\<rparr>"
    using ss by (auto simp: of_zone_def)
  ultimately show ?case using h n ns
    by (intro exI [of _ "\<lparr>Name = Name n, Latency = Latency n, IsRemote = False\<rparr> # ns"]) (simp add: Node_String_def [of n])
qed simp

lemma list_in_image: "set zs \<subseteq> f ` A \<Longrightarrow> \<exists>xs. zs = map f xs \<and> set xs \<subseteq> A"
proof (induction zs)
  case (Cons z zs)
  then obtain xs where "zs = map f xs \<and> set xs \<subseteq> A" by auto
  moreover obtain x where "x \<in> A" "z = f x" using Cons.prems by auto
  ultimately show ?case by (intro exI [of _ "x # xs"]) simp
qed simp

lemma az_nodes_distinct:
  assumes "placement_ok hash ls rs"
  shows "distinct (map (hash \<circ> Name) (map (az_node \<circ> fst) ls))"
  using assms by (simp add: placement_ok_def az_node_def az_Name_def comp_def)

lemma GetSyncNodes_Ok:
  assumes "placement_ok hash ls rs" and "go_sort srt" and "1 \<le> lc" and "lc \<le> int (length ls)"
    and "m = NewSyncAsyncHashingManager hash ty ls lc rs rc"
  shows "\<exists>ns azs ns0. sahm_GetSyncNodes hash srt m key = Ok ns \<and> int (length ns) = lc \<and>
      sorted (map (sint \<circ> Latency) ns) \<and> mset ns = mset ns0 \<and>
      distinct azs \<and> set azs \<subseteq> fst ` set ls \<and> list_all2 (of_zone ls) azs ns0"
proof -
  note sel = NewSyncAsync_sel [OF assms(1), of ty lc rc, folded assms(5)]
  note d = az_nodes_distinct [OF assms(1)]
  have card: "card (ch_members (AzHashing m)) = length ls" using card_built [OF d] by (simp add: sel)
  have inv: "ch_inv hash (AzHashing m)" using built_inv(1) [OF d] by (simp add: sel)
  obtain zs where zs: "LocateNodes hash (AzHashing m) key lc = Ok zs" "int (length zs) = lc" "distinct zs"
      "set zs \<subseteq> ch_members (AzHashing m)"
    using ch.locate_law [OF inv assms(3), of key] card assms(4) by auto
  have "set zs \<subseteq> az_node ` fst ` set ls" using zs(4) built_inv(2) [OF d] by (simp add: sel image_comp)
  then obtain azs where azs: "zs = map az_node azs" "set azs \<subseteq> fst ` set ls"
    using list_in_image by blast
  obtain ns0 where ns0: "zone_nodes hash m key zs = Ok ns0" "list_all2 (of_zone ls) azs ns0"
    using zone_nodes_Ok [OF assms(1) azs(2), of ty lc rc key] azs(1) assms(5) by blast
  let ?ns = "srt (\<lambda>a b. sint (Latency a) < sint (Latency b)) ns0"
  have "sahm_GetSyncNodes hash srt m key = Ok ?ns"
    using zs ns0(1) assms(3) by (simp add: sahm_GetSyncNodes_def sel)
  moreover have "int (length ?ns) = lc"
    using go_sort.srt_length [OF assms(2)] ns0(2) zs(2) azs(1) by (simp add: list_all2_lengthD)
  moreover have "sorted (map (sint \<circ> Latency) ?ns)"
    using go_sort.srt_sorted_key [OF assms(2), of "sint \<circ> Latency"] by simp
  moreover have "mset ?ns = mset ns0" by (rule go_sort.srt_mset [OF assms(2)])
  moreover have "distinct azs" using zs(3) azs(1) by (simp add: distinct_map)
  ultimately show ?thesis using ns0(2) azs(2) by auto
qed

lemma GetAsyncNodes_Ok:
  assumes "placement_ok hash ls rs" and "m = NewSyncAsyncHashingManager hash ty ls lc rs"
    and "1 \<le> rc" and "rc \<le> int (length rs)"
  shows "\<exists>ns. sahm_GetAsyncNodes hash (m rc) key = Ok ns \<and> int (length ns) = rc \<and> distinct (map Name ns) \<and>
    set ns \<subseteq> set rs \<and> (\<forall>c. 1 \<le> c \<and> c \<le> rc \<longrightarrow> sahm_GetAsyncNodes hash (m c) key = Ok (take (nat c) ns))"
proof -
  have d: "distinct (map (hash \<circ> Name) rs)" using assms(1) by (simp add: placement_ok_def)
  note inv = built_inv(1) [OF d, of ty] and card = card_built [OF d, of ty]
  have sel: "RemoteHasing (m c) = built hash ty rs" "RemoteCount (m c) = c" for c
    using NewSyncAsync_sel [OF assms(1), of ty lc c] by (simp_all add: assms(2))
  obtain ns where ns: "LocateNodes hash (built hash ty rs) key rc = Ok ns" "int (length ns) = rc"
    using ch.locate_law [OF inv assms(3)] assms(4) card by auto
  have ne: "ns \<noteq> []" using ns(2) assms(3) by auto
  note all = ch.locate_all_names [OF inv ns(1) assms(3) ne]
  have "sahm_GetAsyncNodes hash (m c) key = Ok (take (nat c) ns)" if "1 \<le> c" "c \<le> rc" for c
    using ch.locate_prefix [OF inv that ns(1) ne] that ns(2) by (auto simp: sahm_GetAsyncNodes_def sel min_def)
  from this [OF assms(3) order.refl] this show ?thesis using all built_inv(2) [OF d] ns(2) by auto
qed

text \<open>C15: With the zone manager, for every hashing type and every key: when there are at least
  \<^verbatim>\<open>LocalCount\<close> zones, \<^verbatim>\<open>GetSyncNodes\<close> returns \<^verbatim>\<open>LocalCount\<close> stores of different zones, one of
  each, in the order of their latencies; otherwise it returns the error. It never panics.\<close>

theorem sync_nodes_one_per_zone:
  assumes "placement_ok hash ls rs" and "go_sort srt" and "1 \<le> lc"
    and "m = NewSyncAsyncHashingManager hash ty ls lc rs rc"
  shows "if lc \<le> int (length ls)
    then \<exists>ns azs ns0. sahm_GetSyncNodes hash srt m key = Ok ns \<and> int (length ns) = lc \<and>
      sorted (map (sint \<circ> Latency) ns) \<and> mset ns = mset ns0 \<and>
      distinct azs \<and> set azs \<subseteq> fst ` set ls \<and> list_all2 (of_zone ls) azs ns0
    else sahm_GetSyncNodes hash srt m key =
      Err (ErrorString (''failed to get '' @ FormatInt lc @ '' zones. The return number is 0''))"
proof (cases "lc \<le> int (length ls)")
  case True
  then show ?thesis using GetSyncNodes_Ok [OF assms(1-3) _ assms(4)] by simp
next
  case False
  note sel = NewSyncAsync_sel [OF assms(1), of ty lc rc, folded assms(4)]
  note d = az_nodes_distinct [OF assms(1)]
  have "LocateNodes hash (AzHashing m) key lc = Ok []"
    using False ch.locate_short [OF built_inv(1) [OF d], of ty lc key] card_built [OF d] by (simp add: sel)
  then show ?thesis using False assms(3) by (auto simp: sahm_GetSyncNodes_def sel)
qed


definition two_zones :: "(AvailabilityZone \<times> RkvNode list) list" where
  "two_zones = [(''z'', [node ''a'']), (''zz'', [node ''bb'', node ''ccc''])]"

lemma two_zones_ok: "placement_ok length_hash two_zones [node ''dddd'']"
  by (simp add: placement_ok_def two_zones_def node_def length_hash_def)

theorem sync_nodes_one_per_zone_witness:
  "\<exists>ns azs ns0. sahm_GetSyncNodes length_hash sort_Slice
      (NewSyncAsyncHashingManager length_hash RingType two_zones 2 [node ''dddd''] 1) ''k'' = Ok ns \<and> int (length ns) = 2 \<and>
      sorted (map (sint \<circ> Latency) ns) \<and> mset ns = mset ns0 \<and>
      distinct azs \<and> set azs \<subseteq> {''z'', ''zz''} \<and> list_all2 (of_zone two_zones) azs ns0"
  using sync_nodes_one_per_zone [OF two_zones_ok go_sort_Slice.go_sort_axioms, of 2 _ RingType 1 "''k''"]
  by (simp add: two_zones_def)

text \<open>C30: The asynchronous replicas of a key are \<^verbatim>\<open>RemoteCount\<close> different remote stores, the first of
  which do not change when the count is raised; with fewer stores than that the call returns the
  error, and a count below 1 gives none. It never panics.\<close>

theorem async_nodes_distinct:
  assumes "placement_ok hash ls rs" and "m = NewSyncAsyncHashingManager hash ty ls lc rs"
  shows "(rc < 1 \<longrightarrow> sahm_GetAsyncNodes hash (m rc) key = Ok []) \<and>
    (1 \<le> rc \<and> rc \<le> int (length rs) \<longrightarrow>
       (\<exists>ns. sahm_GetAsyncNodes hash (m rc) key = Ok ns \<and> int (length ns) = rc \<and> distinct (map Name ns) \<and>
          set ns \<subseteq> set rs \<and> (\<forall>c. 1 \<le> c \<and> c \<le> rc \<longrightarrow> sahm_GetAsyncNodes hash (m c) key = Ok (take (nat c) ns)))) \<and>
    (1 \<le> rc \<and> int (length rs) < rc \<longrightarrow> sahm_GetAsyncNodes hash (m rc) key =
       Err (ErrorString (''failed to get '' @ FormatInt rc @ '' remote nodes. The return number is 0'')))"
proof -
  have d: "distinct (map (hash \<circ> Name) rs)" using assms(1) by (simp add: placement_ok_def)
  note inv = built_inv(1) [OF d, of ty] and card = card_built [OF d, of ty]
  have sel: "RemoteHasing (m c) = built hash ty rs" "RemoteCount (m c) = c" for c
    using NewSyncAsync_sel [OF assms(1), of ty lc c] by (simp_all add: assms(2))
  note enough = GetAsyncNodes_Ok [OF assms(1,2)]
  show ?thesis
    using enough ch.locate_short [OF inv, of rc key] card
    by (cases "rc < 1"; cases "rc \<le> int (length rs)") (simp_all add: sahm_GetAsyncNodes_def sel)
qed

theorem async_nodes_distinct_witness:
  "\<exists>ns. sahm_GetAsyncNodes length_hash (NewSyncAsyncHashingManager length_hash RingType two_zones 2 [node ''dddd''] 1) ''k'' = Ok ns \<and>
     set ns \<subseteq> {node ''dddd''}"
  using async_nodes_distinct [OF two_zones_ok refl, of 1 RingType 2 "''k''"] by auto

text \<open>\<^verbatim>\<open>GetNodes\<close> of the zone manager joins the synchronous and the asynchronous replicas into two
  strings; that of the synchronous manager returns one string, whatever the number of nodes and
  also when there are too few.\<close>

theorem hashing_manager_GetNodes_shape:
  "(hm_GetNodes hash srt (SyncHM sm) key = Ok ss \<longrightarrow> length ss = 1) \<and>
   (hm_GetNodes hash srt (SyncAsyncHM am) key = Ok ss \<longrightarrow>
     (\<exists>sn an. sahm_GetSyncNodes hash srt am key = Ok sn \<and> sahm_GetAsyncNodes hash am key = Ok an \<and>
        ss = [Join (map Name sn) '','', Join (map Name an) '','']))"
  by (auto simp: shm_GetNodes_def sahm_GetNodes_def convertNodeArrToStringArr_def Node_String_def [abs_def])

theorem hashing_manager_GetNodes_shape_witness:
  "\<exists>s. hm_GetNodes length_hash sort_Slice (SyncHM (NewSyncHashingManager length_hash RendezvousType [] 3)) ''k'' = Ok [s]"
proof -
  let ?sm = "NewSyncHashingManager length_hash RendezvousType [] 3"
  have s: "hm_GetNodes length_hash sort_Slice (SyncHM ?sm) ''k'' = Ok [[]]" by code_simp
  then have "length [[] :: string] = 1"
    using hashing_manager_GetNodes_shape [of length_hash sort_Slice ?sm "''k''" "[[]]"] by blast
  with s show ?thesis by blast
qed

end
