(* ===== verification/Config.thy ===== *)
theory Config
  imports Latency Hashing_Manager
begin

text \<open>
  The configuration and the division of the stores into local and remote ones
  (\<^verbatim>\<open>pkg/config/config.go\<close>). A configuration is any value of the
  record; how it is read (\<^verbatim>\<open>NewKVConfiguration\<close>) is in the theory of the start. The outcomes of the connections that
  \<^verbatim>\<open>GetReplications\<close> makes for its i-th store are the argument \<open>probe i\<close>.
\<close>

record KVStore =
  store_Region :: Region
  store_AvailabilityZone :: AvailabilityZone
  store_Name :: string
  store_Host :: string
  store_Port :: int64
  ArtificialLatencyInMs :: int64

record KVConfiguration =
  ConsistentHash :: ConsistentHashingType
  conf_StoreType :: StoreType
  conf_HashingManagerType :: HashingManagerType
  conf_PipingType :: PipingType
  Stores :: "KVStore list"
  BucketSize :: int64
  Concurrent :: bool
  RemoteStoreLatencyThresholdInMilliSec :: int64
  LocalReplicaNum :: int
  RemoteReplicaNum :: int

text \<open>\<^verbatim>\<open>fmt.Sprintf("%s:%d", store.Host, store.Port)\<close>\<close>

definition store_url :: "KVStore \<Rightarrow> string" where
  "store_url s = store_Host s @ '':'' @ FormatInt (sint (store_Port s))"

definition Millisecond :: int64 where
  "Millisecond = 1000000"

text \<open>The latency of a store in milliseconds; \<^verbatim>\<open>latencyResult.Summary.Success\<close> is not nil when there is
  no error.\<close>

definition store_latency :: "KVConfiguration \<Rightarrow> KVStore \<Rightarrow> connect_outcome list \<Rightarrow> int64 result" where
  "store_latency c store outcomes =
     (if conf_StoreType c = DummyLatency then Ok (ArtificialLatencyInMs store)
      else case GetLatency outcomes of
             Ok out \<Rightarrow>
               (case success_average out of
                  None \<Rightarrow> Panic NilDereference
                | Some av \<Rightarrow> Ok (word_of_int (trunc_div (sint av) 1000000)))
           | Err _ \<Rightarrow> Err (ErrorString (''failed to get latency from '' @ store_url store))
           | Panic p \<Rightarrow> Panic p)"

definition store_node :: "KVConfiguration \<Rightarrow> KVStore \<Rightarrow> int64 \<Rightarrow> bool \<Rightarrow> RkvNode" where
  "store_node c store lat remote =
     \<lparr>Name = (if conf_StoreType c \<noteq> Redis then store_Name store else store_url store),
      Latency = lat * Millisecond, IsRemote = remote\<rparr>"

definition append_local :: "AvailabilityZone \<Rightarrow> RkvNode \<Rightarrow> (AvailabilityZone \<times> RkvNode list) list
    \<Rightarrow> (AvailabilityZone \<times> RkvNode list) list" where
  "append_local az n ls =
     (let ls1 = (case map_of ls az of None \<Rightarrow> AList.update az [] ls | Some _ \<Rightarrow> ls)
      in AList.update az (the (map_of ls1 az) @ [n]) ls1)"

text \<open>The loop over the stores; the second argument is the position of the store.\<close>

fun GetReplications_loop :: "KVConfiguration \<Rightarrow> (nat \<Rightarrow> connect_outcome list) \<Rightarrow> nat \<Rightarrow> KVStore list
    \<Rightarrow> (AvailabilityZone \<times> RkvNode list) list \<times> RkvNode list
    \<Rightarrow> ((AvailabilityZone \<times> RkvNode list) list \<times> RkvNode list) result" where
  "GetReplications_loop c probe i [] st = Ok st"
| "GetReplications_loop c probe i (store # stores) (localStores, remoteStores) =
     result_bind (store_latency c store (probe i)) (\<lambda>storeLatency.
       if sint storeLatency < sint (RemoteStoreLatencyThresholdInMilliSec c)
       then GetReplications_loop c probe (i + 1) stores
              (append_local (store_AvailabilityZone store) (store_node c store storeLatency False) localStores, remoteStores)
       else GetReplications_loop c probe (i + 1) stores
              (localStores, remoteStores @ [store_node c store storeLatency True]))"

definition GetReplications :: "KVConfiguration \<Rightarrow> (nat \<Rightarrow> connect_outcome list)
    \<Rightarrow> ((AvailabilityZone \<times> RkvNode list) list \<times> RkvNode list) result" where
  "GetReplications c probe = GetReplications_loop c probe 0 (Stores c) ([], [])"

section \<open>The division of the stores\<close>

text \<open>The specification: the nodes of a list of stores with their latencies.\<close>

definition is_local :: "KVConfiguration \<Rightarrow> KVStore \<times> int64 \<Rightarrow> bool" where
  "is_local c sl \<longleftrightarrow> sint (snd sl) < sint (RemoteStoreLatencyThresholdInMilliSec c)"

definition zone_of :: "KVConfiguration \<Rightarrow> (KVStore \<times> int64) list \<Rightarrow> AvailabilityZone \<Rightarrow> RkvNode list" where
  "zone_of c sls az = map (\<lambda>(s, l). store_node c s l False)
     (filter (\<lambda>sl. is_local c sl \<and> store_AvailabilityZone (fst sl) = az) sls)"

definition remotes_of :: "KVConfiguration \<Rightarrow> (KVStore \<times> int64) list \<Rightarrow> RkvNode list" where
  "remotes_of c sls = map (\<lambda>(s, l). store_node c s l True) (filter (\<lambda>sl. \<not> is_local c sl) sls)"

definition zones_match :: "KVConfiguration \<Rightarrow> (KVStore \<times> int64) list \<Rightarrow> (AvailabilityZone \<times> RkvNode list) list \<Rightarrow> bool" where
  "zones_match c sls ls \<longleftrightarrow> distinct (map fst ls) \<and>
     (\<forall>az. map_of ls az = (if zone_of c sls az = [] then None else Some (zone_of c sls az)))"

lemma store_latency_no_panic: "store_latency c s os \<noteq> Panic p"
proof -
  have "GetLatency os \<noteq> Panic p" for p by (simp add: GetLatency_eq Let_def split: prod.splits option.splits)
  moreover have "success_average out \<noteq> None" if "GetLatency os = Ok out" for out
    using that by (auto simp: GetLatency_eq Summary_def Let_def success_average_def split: if_splits)
  ultimately show ?thesis by (auto simp: store_latency_def split: result.splits option.splits)
qed

lemma append_local_sel:
  "map_of (append_local az n ls) = (map_of ls)(az \<mapsto> (case map_of ls az of None \<Rightarrow> [] | Some ns \<Rightarrow> ns) @ [n])"
  "distinct (map fst ls) \<Longrightarrow> distinct (map fst (append_local az n ls))"
  by (auto simp: append_local_def Let_def update_conv' distinct_update split: option.splits)

lemma zones_match_snoc:
  assumes "zones_match c sls ls"
  shows "is_local c (s, l) \<Longrightarrow>
      zones_match c (sls @ [(s, l)]) (append_local (store_AvailabilityZone s) (store_node c s l False) ls)"
    and "\<not> is_local c (s, l) \<Longrightarrow> zones_match c (sls @ [(s, l)]) ls"
  using assms by (auto simp: zones_match_def append_local_sel zone_of_def split: option.splits)

lemma GetReplications_loop_spec:
  assumes "zones_match c sls ls"
  shows "(\<forall>l < length stores. \<exists>x. store_latency c (stores ! l) (probe (i + l)) = Ok x) \<Longrightarrow>
     \<exists>ls' lats. length lats = length stores \<and>
       (\<forall>l < length stores. store_latency c (stores ! l) (probe (i + l)) = Ok (lats ! l)) \<and>
       GetReplications_loop c probe i stores (ls, remotes_of c sls) =
         Ok (ls', remotes_of c (sls @ zip stores lats)) \<and> zones_match c (sls @ zip stores lats) ls'"
  using assms
proof (induction stores arbitrary: i sls ls)
  case Nil
  then show ?case by simp
next
  case (Cons s stores)
  obtain x where x: "store_latency c s (probe i) = Ok x" using Cons.prems(1) by (auto dest: spec [of _ 0])
  define ls1 where "ls1 = (if is_local c (s, x) then append_local (store_AvailabilityZone s) (store_node c s x False) ls else ls)"
  have m: "zones_match c (sls @ [(s, x)]) ls1"
    using zones_match_snoc [OF Cons.prems(2)] by (simp add: ls1_def)
  have "\<forall>l < length stores. \<exists>x. store_latency c (stores ! l) (probe (i + 1 + l)) = Ok x"
    using Cons.prems(1) by (metis Suc_less_eq add.assoc length_Cons nth_Cons_Suc plus_1_eq_Suc)
  from Cons.IH [OF this m] obtain ls' lats where r: "length lats = length stores"
      "\<forall>l < length stores. store_latency c (stores ! l) (probe (i + 1 + l)) = Ok (lats ! l)"
      "GetReplications_loop c probe (i + 1) stores (ls1, remotes_of c (sls @ [(s, x)])) =
         Ok (ls', remotes_of c ((sls @ [(s, x)]) @ zip stores lats))"
      "zones_match c ((sls @ [(s, x)]) @ zip stores lats) ls'" by blast
  have "GetReplications_loop c probe i (s # stores) (ls, remotes_of c sls) =
      GetReplications_loop c probe (i + 1) stores (ls1, remotes_of c (sls @ [(s, x)]))"
    using x by (simp add: ls1_def is_local_def remotes_of_def)
  moreover have "store_latency c ((s # stores) ! l) (probe (i + l)) = Ok ((x # lats) ! l)" if "l < Suc (length stores)" for l
    using that x r(2) by (cases l) auto
  ultimately show ?case using r by (intro exI [of _ ls'] exI [of _ "x # lats"]) simp
qed


lemma GetReplications_loop_Err:
  assumes "l < length stores" and "\<forall>j < l. \<exists>x. store_latency c (stores ! j) (probe (i + j)) = Ok x"
    and "store_latency c (stores ! l) (probe (i + l)) = Err e"
  shows "GetReplications_loop c probe i stores st = Err e"
  using assms
proof (induction stores arbitrary: i l st)
  case (Cons s stores)
  obtain ls rs where st: "st = (ls, rs)" by (cases st)
  show ?case
  proof (cases l)
    case 0
    then show ?thesis using Cons.prems(3) by (simp add: st)
  next
    case (Suc k)
    obtain x where x: "store_latency c s (probe i) = Ok x" using Cons.prems(2) Suc by (auto dest: spec [of _ 0])
    have "\<forall>j < k. \<exists>x. store_latency c (stores ! j) (probe (i + 1 + j)) = Ok x"
      using Cons.prems(2) Suc by (metis Suc_less_eq add.assoc nth_Cons_Suc plus_1_eq_Suc)
    then have "GetReplications_loop c probe (i + 1) stores st' = Err e" for st'
      using Cons.IH [of k "i + 1" st'] Cons.prems Suc by simp
    with x show ?thesis by (simp add: st)
  qed
qed simp

text \<open>C37: When the latency of every store is known, \<^verbatim>\<open>GetReplications\<close> puts each store in exactly one
  place: in its zone's list when its latency is below the threshold, else in the remote list,
  in the order of the configuration; a zone has an entry exactly when it has a local store. The
  first store whose latency cannot be measured makes the whole call fail.\<close>

theorem GetReplications_partition:
  "((\<forall>l < length (Stores c). \<exists>x. store_latency c (Stores c ! l) (probe l) = Ok x) \<longrightarrow>
     (\<exists>ls lats. length lats = length (Stores c) \<and>
       (\<forall>l < length (Stores c). store_latency c (Stores c ! l) (probe l) = Ok (lats ! l)) \<and>
       GetReplications c probe = Ok (ls, remotes_of c (zip (Stores c) lats)) \<and>
       zones_match c (zip (Stores c) lats) ls)) \<and>
   (l < length (Stores c) \<and> (\<forall>j < l. \<exists>x. store_latency c (Stores c ! j) (probe j) = Ok x) \<and>
     store_latency c (Stores c ! l) (probe l) = Err e \<longrightarrow> GetReplications c probe = Err e)"
proof -
  have "zones_match c [] []" by (simp add: zones_match_def zone_of_def)
  from GetReplications_loop_spec [OF this, of "Stores c" probe 0]
    GetReplications_loop_Err [of l "Stores c" c probe 0 e "([], [])"]
  show ?thesis by (simp add: GetReplications_def remotes_of_def)
qed

definition demo_store :: "string \<Rightarrow> string \<Rightarrow> int64 \<Rightarrow> KVStore" where
  "demo_store az nm lat = \<lparr>store_Region = ''us-west-1'', store_AvailabilityZone = az, store_Name = nm,
     store_Host = ''localhost'', store_Port = 6379, ArtificialLatencyInMs = lat\<rparr>"

definition demo_conf :: KVConfiguration where
  "demo_conf = \<lparr>ConsistentHash = RingType, conf_StoreType = DummyLatency, conf_HashingManagerType = SyncAsync,
     conf_PipingType = LocalSyncRemoteAsync,
     Stores = [demo_store ''z'' ''a'' 1, demo_store ''zz'' ''bb'' 2, demo_store ''z'' ''ccc'' 90],
     BucketSize = 10, Concurrent = False, RemoteStoreLatencyThresholdInMilliSec = 50,
     LocalReplicaNum = 2, RemoteReplicaNum = 1\<rparr>"

theorem GetReplications_partition_witness:
  "\<exists>ls lats. GetReplications demo_conf (\<lambda>_. []) = Ok (ls, remotes_of demo_conf (zip (Stores demo_conf) lats)) \<and>
     zones_match demo_conf (zip (Stores demo_conf) lats) ls"
proof -
  have "\<forall>l < length (Stores demo_conf). \<exists>x. store_latency demo_conf (Stores demo_conf ! l) [] = Ok x"
    by (simp add: demo_conf_def store_latency_def)
  then show ?thesis using GetReplications_partition [of demo_conf "\<lambda>_. []"] by blast
qed

section \<open>Local zones for the hashing manager\<close>

definition node_name :: "KVConfiguration \<Rightarrow> KVStore \<Rightarrow> string" where
  "node_name c s = (if conf_StoreType c \<noteq> Redis then store_Name s else store_url s)"

text \<open>Stores whose node names and whose zones have different hashes.\<close>

definition conf_names_ok :: "hasher \<Rightarrow> KVConfiguration \<Rightarrow> bool" where
  "conf_names_ok hash c \<longleftrightarrow> distinct (map (hash \<circ> node_name c) (Stores c)) \<and>
     inj_on hash (store_AvailabilityZone ` set (Stores c))"

lemma Name_store_node [simp]: "Name (store_node c s l r) = node_name c s"
  by (simp add: store_node_def node_name_def)

lemma set_zone_of_D:
  "n \<in> set (zone_of c sls az) \<Longrightarrow> \<exists>s l. (s, l) \<in> set sls \<and> is_local c (s, l) \<and> store_AvailabilityZone s = az \<and> Name n = node_name c s"
  unfolding zone_of_def by fastforce

lemma distinct_filter_map: "distinct (map f xs) \<Longrightarrow> distinct (map f (filter P xs))"
  by (induction xs) auto

lemma zone_names_distinct:
  assumes "distinct (map (f \<circ> node_name c \<circ> fst) sls)"
  shows "distinct (map (f \<circ> Name) (zone_of c sls az))" and "distinct (map (f \<circ> Name) (remotes_of c sls))"
  using distinct_filter_map [OF assms]
  by (simp_all add: zone_of_def remotes_of_def comp_def split_def)

lemma all_names_distinct:
  assumes "distinct (map (node_name c \<circ> fst) sls)" and "distinct azs"
  shows "distinct (map Name (concat (map (zone_of c sls) azs) @ remotes_of c sls))"
  using assms(2)
proof (induction azs)
  case Nil
  then show ?case using zone_names_distinct(2) [of "\<lambda>x. x" c sls] assms(1) by (simp add: comp_def)
next
  case (Cons az azs)
  have same: "x = y" if "x \<in> set sls" "y \<in> set sls" "node_name c (fst x) = node_name c (fst y)" for x y
    using assms(1) that by (auto simp: distinct_map inj_on_def)
  have "Name n \<noteq> Name m" if n: "n \<in> set (zone_of c sls az)"
    and m: "m \<in> set (concat (map (zone_of c sls) azs) @ remotes_of c sls)" for n m
  proof
    assume eq: "Name n = Name m"
    obtain s l where s: "(s, l) \<in> set sls" "is_local c (s, l)" "store_AvailabilityZone s = az" "Name n = node_name c s"
      using set_zone_of_D [OF n] by blast
    obtain s' l' where s': "(s', l') \<in> set sls" "Name m = node_name c s'"
        "store_AvailabilityZone s' \<in> set azs \<or> \<not> is_local c (s', l')"
      using m by (auto simp: zone_of_def remotes_of_def)
    have "(s, l) = (s', l')" using same s(1,4) s'(1,2) eq by force
    with s s'(3) Cons.prems show False by auto
  qed
  moreover have "distinct (map Name (zone_of c sls az))"
    using zone_names_distinct(1) [of "\<lambda>x. x" c sls] assms(1) by (simp add: comp_def)
  ultimately show ?case using Cons by (auto simp: distinct_map)
qed

lemma GetReplications_Ok:
  assumes "GetReplications c probe = Ok (ls, rs)"
  obtains lats where "length lats = length (Stores c)" and "rs = remotes_of c (zip (Stores c) lats)"
    and "zones_match c (zip (Stores c) lats) ls"
proof -
  have ok: "\<forall>l < length (Stores c). \<exists>x. store_latency c (Stores c ! l) (probe l) = Ok x"
  proof (rule ccontr)
    let ?P = "\<lambda>l. l < length (Stores c) \<and> \<not> (\<exists>x. store_latency c (Stores c ! l) (probe l) = Ok x)"
    assume "\<not> ?thesis"
    then obtain l where l: "?P l" "\<forall>j < l. \<not> ?P j" using exists_least_iff [of ?P] by blast
    then obtain e where "store_latency c (Stores c ! l) (probe l) = Err e"
      using store_latency_no_panic by (metis result.exhaust)
    with l have "GetReplications_loop c probe 0 (Stores c) ([], []) = Err e"
      by (intro GetReplications_loop_Err [of l]) (auto dest: order.strict_trans)
    with assms show False by (simp add: GetReplications_def)
  qed
  have "zones_match c [] []" by (simp add: zones_match_def zone_of_def)
  from GetReplications_loop_spec [OF this, of "Stores c" probe 0] ok that show thesis
    using assms by (auto simp: GetReplications_def remotes_of_def)
qed

lemma GetReplications_names:
  assumes "GetReplications c probe = Ok (ls, rs)" and "n \<in> set rs \<or> (\<exists>az ss. (az, ss) \<in> set ls \<and> n \<in> set ss)"
  shows "Name n \<in> node_name c ` set (Stores c)"
proof -
  obtain lats where r: "rs = remotes_of c (zip (Stores c) lats)" "zones_match c (zip (Stores c) lats) ls"
    using GetReplications_Ok [OF assms(1)] .
  have "distinct (map fst ls)" using r(2) by (simp add: zones_match_def)
  then have "ss = zone_of c (zip (Stores c) lats) az" if "(az, ss) \<in> set ls" for az ss
    using r(2) that map_of_is_SomeI [of ls az ss] by (auto simp: zones_match_def split: if_splits)
  then consider "n \<in> set (remotes_of c (zip (Stores c) lats))" | az where "n \<in> set (zone_of c (zip (Stores c) lats) az)"
    using assms(2) r(1) by blast
  then show ?thesis
  proof cases
    case 1
    then show ?thesis by (auto simp: remotes_of_def dest: set_zip_leftD)
  next
    case 2
    then show ?thesis using set_zone_of_D by (blast dest: set_zip_leftD)
  qed
qed

text \<open>The local zones and remote stores that \<^verbatim>\<open>GetReplications\<close> returns satisfy what the zone
  manager needs, in whatever order its map of zones is iterated over, when the names of the
  stores and of the zones have different hashes: no zone is empty and no store is in two places.\<close>

theorem GetReplications_placement:
  assumes "conf_names_ok hash c" and "GetReplications c probe = Ok (ls, rs)" and "mset ls' = mset ls"
  shows "placement_ok hash ls' rs"
proof -
  obtain lats where lats: "length lats = length (Stores c)"
    and r: "rs = remotes_of c (zip (Stores c) lats)" "zones_match c (zip (Stores c) lats) ls"
    using GetReplications_Ok [OF assms(2)] .
  let ?sls = "zip (Stores c) lats"
  have fst: "map (f \<circ> fst) ?sls = map f (Stores c)" for f :: "KVStore \<Rightarrow> 'x"
    using lats by (metis map_fst_zip map_map)
  have d: "distinct (map (hash \<circ> node_name c \<circ> fst) ?sls)"
    using assms(1) unfolding fst by (simp add: conf_names_ok_def)
  have s: "set ls' = set ls" using assms(3) by (metis set_mset_mset)
  have keys: "distinct (map fst ls')" using r(2) assms(3) by (metis zones_match_def mset_eq_imp_distinct_iff mset_map)
  have zone: "ss = zone_of c ?sls az \<and> ss \<noteq> []" if "(az, ss) \<in> set ls'" for az ss
  proof -
    have "distinct (map fst ls)" using r(2) by (simp add: zones_match_def)
    then have "map_of ls az = Some ss" using that s by (intro map_of_is_SomeI) auto
    with r(2) show ?thesis by (auto simp: zones_match_def split: if_splits)
  qed
  have zones: "fst ` set ls' \<subseteq> store_AvailabilityZone ` set (Stores c)"
  proof clarify
    fix az ss assume "(az, ss) \<in> set ls'"
    with zone obtain n where "n \<in> set (zone_of c ?sls az)" by (metis list.set_intros(1) neq_Nil_conv)
    then show "fst (az, ss) \<in> store_AvailabilityZone ` set (Stores c)"
      by (auto dest!: set_zone_of_D set_zip_leftD)
  qed
  have e: "map snd ls' = map (zone_of c ?sls) (map fst ls')" using zone by auto
  have "distinct (map (node_name c \<circ> fst) ?sls)" using d by (metis distinct_map map_map o_assoc)
  then have "distinct (map Name (concat (map snd ls') @ rs))"
    unfolding e r(1) using keys by (rule all_names_distinct)
  moreover have "distinct (map (hash \<circ> fst) ls')"
  proof -
    have "inj_on hash (fst ` set ls')" using assms(1) zones by (auto simp: conf_names_ok_def intro: inj_on_subset)
    with keys show ?thesis by (simp add: distinct_map comp_inj_on)
  qed
  moreover have "distinct (map (hash \<circ> Name) rs)" "\<forall>(az, ss) \<in> set ls'. ss \<noteq> [] \<and> distinct (map (hash \<circ> Name) ss)"
    using zone zone_names_distinct [OF d] r(1) by auto
  ultimately show ?thesis by (simp add: placement_ok_def)
qed


theorem GetReplications_placement_witness:
  "\<exists>ls rs. GetReplications demo_conf (\<lambda>_. []) = Ok (ls, rs) \<and> placement_ok length_hash (List.rev ls) rs"
proof -
  have "conf_names_ok length_hash demo_conf"
    by (auto simp: conf_names_ok_def demo_conf_def demo_store_def node_name_def length_hash_def store_types)
  moreover have "case GetReplications demo_conf (\<lambda>_. []) of Ok _ \<Rightarrow> True | _ \<Rightarrow> False" by code_simp
  then obtain ls rs where "GetReplications demo_conf (\<lambda>_. []) = Ok (ls, rs)"
    by (auto split: result.splits)
  ultimately show ?thesis using GetReplications_placement [of length_hash demo_conf "\<lambda>_. []" ls rs "List.rev ls"] by simp
qed

end
