(* ===== verification/Database.thy ===== *)
theory Database
  imports Config
begin

text \<open>
  The storage back ends (\<^verbatim>\<open>pkg/database\<close>). A \<^verbatim>\<open>Database\<close> value is a handle: the in-memory
  databases live in the global \<^verbatim>\<open>memDatabases\<close> and are shared by all handles of the same name, the
  handles of the configured stores in \<^verbatim>\<open>Storages\<close>, the Redis pools in \<^verbatim>\<open>pools\<close>; the four form the
  world that the operations thread. The Redis client is a library and the server a service:
  connecting, a command and closing a pool are the argument \<open>api\<close>, on a state of their own. The
  time that \<^verbatim>\<open>time.Sleep\<close> takes is not part of the world; the delays of the retry loop are returned
  by it.
\<close>

datatype redis_cmd = RSet string string | RGet string | RDel string | RPing

datatype redis_reply = RStatus string | RBulk string | RInt int | RNil

record 's redis_api =
  redis_Dial :: "string \<Rightarrow> 's \<Rightarrow> error option \<times> 's"
  redis_Do :: "string \<Rightarrow> redis_cmd \<Rightarrow> 's \<Rightarrow> (error + redis_reply) \<times> 's"
  redis_Close :: "string \<Rightarrow> 's \<Rightarrow> error option \<times> 's"

text \<open>The databases: in memory, the dummy, the decorator that adds a latency, and Redis with the url of
  its pool (\<open>None\<close> for a nil pool) and its latency.\<close>

datatype Database =
    MemDatabase string
  | dummyDatabase
  | latencyDatabase Database int64
  | RedisDatabase "string option" int64

record 's world =
  memDatabases :: "(string \<times> (string \<times> string) list) list"
  Storages :: "(string \<times> Database) list"
  pools :: "string list option"
  redis :: 's

type_synonym ('s, 'a) op = "'s world \<Rightarrow> 'a result \<times> 's world"

section \<open>The in-memory database\<close>

definition NewMemDatabase :: "string \<Rightarrow> 's world \<Rightarrow> Database \<times> 's world" where
  "NewMemDatabase name w =
     (case map_of (memDatabases w) name of
        Some _ \<Rightarrow> (MemDatabase name, w)
      | None \<Rightarrow> (MemDatabase name, w\<lparr>memDatabases := AList.update name [] (memDatabases w)\<rparr>))"

text \<open>The map of a database, which the handle refers to.\<close>

definition mem_db :: "string \<Rightarrow> 's world \<Rightarrow> (string \<times> string) list" where
  "mem_db name w = (case map_of (memDatabases w) name of None \<Rightarrow> [] | Some db \<Rightarrow> db)"

definition mem_Put :: "string \<Rightarrow> string \<Rightarrow> string \<Rightarrow> ('s, string) op" where
  "mem_Put name key val w =
     (Ok [], w\<lparr>memDatabases := AList.update name (AList.update key val (mem_db name w)) (memDatabases w)\<rparr>)"

definition mem_Get :: "string \<Rightarrow> string \<Rightarrow> ('s, string) op" where
  "mem_Get name key w =
     (case map_of (mem_db name w) key of
        Some val \<Rightarrow> (Ok val, w)
      | None \<Rightarrow> (Err (ErrorString ''key not found''), w))"

definition mem_Delete :: "string \<Rightarrow> string \<Rightarrow> ('s, unit) op" where
  "mem_Delete name key w =
     (Ok (), w\<lparr>memDatabases := AList.update name (AList.delete key (mem_db name w)) (memDatabases w)\<rparr>)"

section \<open>Redis\<close>

text \<open>\<^verbatim>\<open>fmt.Sprintf("%s", reply)\<close>: the formats of a nil and of an integer are Go's error formats.\<close>

primrec Sprintf_s :: "redis_reply \<Rightarrow> string" where
  "Sprintf_s (RStatus s) = s"
| "Sprintf_s (RBulk s) = s"
| "Sprintf_s (RInt i) = ''%!s(int64='' @ FormatInt i @ '')''"
| "Sprintf_s RNil = ''%!s(<nil>)''"

text \<open>The retry loop of the pool's \<^verbatim>\<open>Dial\<close>: the arguments are the number of retries made, the number
  left, the last error and the state; the results are the last error, the delays and the state.\<close>

fun dial_loop :: "'s redis_api \<Rightarrow> string \<Rightarrow> nat \<Rightarrow> nat \<Rightarrow> error option \<Rightarrow> 's
    \<Rightarrow> error option \<times> int64 list \<times> 's" where
  "dial_loop api url retries 0 err s = (err, [], s)"
| "dial_loop api url retries (Suc left) None s = (None, [], s)"
| "dial_loop api url retries (Suc left) (Some e) s =
     (let (err1, s1) = redis_Dial api url s;
          (err2, s2) = (case err1 of
             None \<Rightarrow> (case redis_Do api url RPing s1 of (Inl e2, s2) \<Rightarrow> (Some e2, s2) | (Inr _, s2) \<Rightarrow> (None, s2))
           | Some e1 \<Rightarrow> (Some e1, s1));
          (err3, ds, s3) = dial_loop api url (retries + 1) left err2 s2
      in (err3, push_bit retries RedisRetryInterval # ds, s3))"

definition pool_Dial :: "'s redis_api \<Rightarrow> string \<Rightarrow> 's \<Rightarrow> error option \<times> int64 list \<times> 's" where
  "pool_Dial api url s =
     (let (err, s1) = redis_Dial api url s in dial_loop api url 0 RedisRetryCount err s1)"

text \<open>A pool is known by its url, which determines its \<^verbatim>\<open>Dial\<close>; a url that has a pool keeps it.\<close>

definition initPool :: "string \<Rightarrow> int64 \<Rightarrow> string list \<Rightarrow> string list" where
  "initPool host port ps =
     (let url = host @ '':'' @ FormatInt (sint port) in if url \<in> set ps then ps else ps @ [url])"

definition InitStorageInstancePool :: "KVStore list \<Rightarrow> 's world \<Rightarrow> 's world" where
  "InitStorageInstancePool stores w =
     w\<lparr>pools := Some (foldl (\<lambda>ps s. initPool (store_Host s) (store_Port s) ps) [] stores)\<rparr>"

text \<open>\<^verbatim>\<open>initOnce.Do\<close>: the pools are made on the first call.\<close>

definition createRedisDatabase :: "KVConfiguration \<Rightarrow> string \<Rightarrow> 's world \<Rightarrow> Database \<times> 's world" where
  "createRedisDatabase conf databaseUrl w =
     (let w1 = (case pools w of None \<Rightarrow> InitStorageInstancePool (Stores conf) w | Some _ \<Rightarrow> w);
          ps = (case pools w1 of None \<Rightarrow> [] | Some ps \<Rightarrow> ps)
      in (RedisDatabase (if databaseUrl \<in> set ps then Some databaseUrl else None) 0, w1))"

text \<open>A connection and one command on it; a nil pool panics.\<close>

definition redis_call :: "'s redis_api \<Rightarrow> string option \<Rightarrow> redis_cmd \<Rightarrow> ('s, redis_reply) op" where
  "redis_call api client cmd w =
     (case client of
        None \<Rightarrow> (Panic NilDereference, w)
      | Some url \<Rightarrow>
          (case pool_Dial api url (redis w) of
             (Some e, _, s1) \<Rightarrow> (Err e, w\<lparr>redis := s1\<rparr>)
           | (None, _, s1) \<Rightarrow>
               (case redis_Do api url cmd s1 of
                  (Inl e, s2) \<Rightarrow> (Err e, w\<lparr>redis := s2\<rparr>)
                | (Inr r, s2) \<Rightarrow> (Ok r, w\<lparr>redis := s2\<rparr>))))"

definition redis_Put :: "'s redis_api \<Rightarrow> string option \<Rightarrow> string \<Rightarrow> string \<Rightarrow> ('s, string) op" where
  "redis_Put api client key val w =
     (case redis_call api client (RSet key val) w of
        (r, w1) \<Rightarrow> (result_bind r (\<lambda>ret. Ok (Sprintf_s ret)), w1))"

definition redis_Get :: "'s redis_api \<Rightarrow> string option \<Rightarrow> string \<Rightarrow> ('s, string) op" where
  "redis_Get api client key w =
     (case redis_call api client (RGet key) w of
        (r, w1) \<Rightarrow> (result_bind r (\<lambda>resp. Ok (Sprintf_s resp)), w1))"

definition redis_Delete :: "'s redis_api \<Rightarrow> string option \<Rightarrow> string \<Rightarrow> ('s, unit) op" where
  "redis_Delete api client key w =
     (case redis_call api client (RDel key) w of (r, w1) \<Rightarrow> (result_bind r (\<lambda>_. Ok ()), w1))"

definition redis_db_Close :: "'s redis_api \<Rightarrow> string option \<Rightarrow> ('s, unit) op" where
  "redis_db_Close api client w =
     (case client of
        None \<Rightarrow> (Panic NilDereference, w)
      | Some url \<Rightarrow>
          (case redis_Close api url (redis w) of
             (None, s1) \<Rightarrow> (Ok (), w\<lparr>redis := s1\<rparr>)
           | (Some e, s1) \<Rightarrow> (Err e, w\<lparr>redis := s1\<rparr>)))"

text \<open>The receiver of \<^verbatim>\<open>SetLatency\<close> is a pointer: the database has the new latency afterwards.\<close>

definition redis_Latency :: "string option \<Rightarrow> int64 \<Rightarrow> int64" where
  "redis_Latency client lat = lat"

definition redis_SetLatency :: "int64 \<Rightarrow> string option \<Rightarrow> int64 \<Rightarrow> Database" where
  "redis_SetLatency l client lat = RedisDatabase client l"

declare redis_Put_def [simp] redis_Get_def [simp] redis_Delete_def [simp] redis_Latency_def [simp] redis_SetLatency_def [simp]

section \<open>The dummy database\<close>

definition dummy_Put :: "string \<Rightarrow> string \<Rightarrow> string" where
  "dummy_Put key val = ''dummy put accepted''"

definition dummy_Get :: "string \<Rightarrow> string" where
  "dummy_Get key = ''dummy value for key '' @ key"

definition dummy_Delete :: "string \<Rightarrow> unit result" where
  "dummy_Delete key = Ok ()"

definition dummy_Close :: "unit result" where
  "dummy_Close = Ok ()"

definition newDummyDatabase :: Database where
  "newDummyDatabase = dummyDatabase"

definition dummy_Latency :: int64 where
  "dummy_Latency = 0"

definition dummy_SetLatency :: "int64 \<Rightarrow> Database" where
  "dummy_SetLatency l = dummyDatabase"

text \<open>The other methods of the in-memory database, which has no latency of its own.\<close>

definition mem_Close :: "string \<Rightarrow> unit result" where
  "mem_Close name = Ok ()"

definition mem_Latency :: "string \<Rightarrow> int64" where
  "mem_Latency name = 0"

definition mem_SetLatency :: "int64 \<Rightarrow> string \<Rightarrow> Database" where
  "mem_SetLatency l name = MemDatabase name"

declare dummy_Delete_def [simp] dummy_Close_def [simp] newDummyDatabase_def [simp] dummy_Latency_def [simp] dummy_SetLatency_def [simp]
  mem_Close_def [simp] mem_Latency_def [simp] mem_SetLatency_def [simp]

section \<open>The interface \<open>Database\<close>\<close>

text \<open>The decorator passes a call on to its backend after its latency.\<close>

fun db_Put :: "'s redis_api \<Rightarrow> Database \<Rightarrow> string \<Rightarrow> string \<Rightarrow> ('s, string) op" where
  "db_Put api (MemDatabase name) key val w = mem_Put name key val w"
| "db_Put api dummyDatabase key val w = (Ok (dummy_Put key val), w)"
| "db_Put api (latencyDatabase backend lat) key val w = db_Put api backend key val w"
| "db_Put api (RedisDatabase client lat) key val w = redis_Put api client key val w"

fun db_Get :: "'s redis_api \<Rightarrow> Database \<Rightarrow> string \<Rightarrow> ('s, string) op" where
  "db_Get api (MemDatabase name) key w = mem_Get name key w"
| "db_Get api dummyDatabase key w = (Ok (dummy_Get key), w)"
| "db_Get api (latencyDatabase backend lat) key w = db_Get api backend key w"
| "db_Get api (RedisDatabase client lat) key w = redis_Get api client key w"

fun db_Delete :: "'s redis_api \<Rightarrow> Database \<Rightarrow> string \<Rightarrow> ('s, unit) op" where
  "db_Delete api (MemDatabase name) key w = mem_Delete name key w"
| "db_Delete api dummyDatabase key w = (dummy_Delete key, w)"
| "db_Delete api (latencyDatabase backend lat) key w = db_Delete api backend key w"
| "db_Delete api (RedisDatabase client lat) key w = redis_Delete api client key w"

fun db_Close :: "'s redis_api \<Rightarrow> Database \<Rightarrow> ('s, unit) op" where
  "db_Close api (MemDatabase name) w = (mem_Close name, w)"
| "db_Close api dummyDatabase w = (dummy_Close, w)"
| "db_Close api (latencyDatabase backend lat) w = db_Close api backend w"
| "db_Close api (RedisDatabase client lat) w = redis_db_Close api client w"

fun db_Latency :: "Database \<Rightarrow> int64" where
  "db_Latency (MemDatabase name) = mem_Latency name"
| "db_Latency dummyDatabase = dummy_Latency"
| "db_Latency (latencyDatabase backend lat) = lat"
| "db_Latency (RedisDatabase client lat) = redis_Latency client lat"

text \<open>The database after \<^verbatim>\<open>SetLatency\<close>: only that of Redis has a pointer receiver, the others change
  a copy.\<close>

fun db_SetLatency :: "int64 \<Rightarrow> Database \<Rightarrow> Database" where
  "db_SetLatency l (MemDatabase name) = mem_SetLatency l name"
| "db_SetLatency l dummyDatabase = dummy_SetLatency l"
| "db_SetLatency l (latencyDatabase backend lat) = latencyDatabase backend lat"
| "db_SetLatency l (RedisDatabase client lat) = redis_SetLatency l client lat"

definition newLatencyDummyDatabase :: "int64 \<Rightarrow> Database" where
  "newLatencyDummyDatabase lat = latencyDatabase newDummyDatabase lat"

section \<open>The factories\<close>

definition db_Factory :: "KVConfiguration \<Rightarrow> StoreType \<Rightarrow> KVStore \<Rightarrow> ('s, Database) op" where
  "db_Factory conf databaseType store w =
     (if databaseType = Redis then (case createRedisDatabase conf (store_url store) w of (db, w1) \<Rightarrow> (Ok db, w1))
      else if databaseType = Memory then (case NewMemDatabase (store_url store) w of (db, w1) \<Rightarrow> (Ok db, w1))
      else if databaseType = DummyLatency then (Ok (newLatencyDummyDatabase (ArtificialLatencyInMs store * Millisecond)), w)
      else (Err (DatabaseNotImplementedError databaseType), w))"

definition FactoryWithNameAndLatency :: "KVConfiguration \<Rightarrow> StoreType \<Rightarrow> string \<Rightarrow> int64 \<Rightarrow> ('s, Database) op" where
  "FactoryWithNameAndLatency conf databaseType name lat w =
     (if databaseType = Redis then (case createRedisDatabase conf name w of (db, w1) \<Rightarrow> (Ok db, w1))
      else if databaseType = Memory then (case NewMemDatabase name w of (db, w1) \<Rightarrow> (Ok db, w1))
      else if databaseType = DummyLatency then
        (case map_of (Storages w) name of Some db \<Rightarrow> (Ok db, w) | None \<Rightarrow> (Ok (newLatencyDummyDatabase lat), w))
      else (Err (DatabaseNotImplementedError databaseType), w))"


section \<open>The contract of a database\<close>

text \<open>A database handle refers to a map, named by \<open>ident\<close>; several handles may refer to the same one. What the
  databases return for a key that they do not hold: an error, or the text that Go prints for a nil.\<close>

definition missing_value :: "string result set" where
  "missing_value = {Err (ErrorString ''key not found''), Ok ''%!s(<nil>)''}"

locale kv_backend =
  fixes bput :: "'d \<Rightarrow> string \<Rightarrow> string \<Rightarrow> 'w \<Rightarrow> 'p result \<times> 'w"
    and bget :: "'d \<Rightarrow> string \<Rightarrow> 'w \<Rightarrow> string result \<times> 'w"
    and bdel :: "'d \<Rightarrow> string \<Rightarrow> 'w \<Rightarrow> unit result \<times> 'w"
    and content :: "'w \<Rightarrow> 'i \<Rightarrow> string \<Rightarrow> string option"
    and ident :: "'d \<Rightarrow> 'i"
    and ok :: "'d \<Rightarrow> 'w \<Rightarrow> bool"
  assumes put_law: "ok d w \<Longrightarrow> bput d k v w = (r, w') \<Longrightarrow>
      (\<exists>s. r = Ok s) \<and> content w' = (content w)(ident d := (content w (ident d))(k \<mapsto> v)) \<and> (\<forall>e. ok e w \<longrightarrow> ok e w')"
    and get_law: "ok d w \<Longrightarrow> bget d k w = (g, w') \<Longrightarrow>
      (\<forall>v. content w (ident d) k = Some v \<longrightarrow> g = Ok v) \<and> content w' = content w \<and> (\<forall>e. ok e w \<longrightarrow> ok e w') \<and>
      (content w (ident d) k = None \<longrightarrow> g \<in> missing_value)"
    and del_law: "ok d w \<Longrightarrow> bdel d k w = (q, w') \<Longrightarrow>
      q = Ok () \<and> content w' = (content w)(ident d := (content w (ident d))(k := None)) \<and> (\<forall>e. ok e w \<longrightarrow> ok e w')"
begin

lemma put_get:
  assumes "ok d w" and "bput d k v w = (r, w1)" and "bget d k w1 = (r', w2)"
  shows "r' = Ok v"
  using put_law [OF assms(1,2)] get_law [of d w1 k r' w2] assms by simp

text \<open>The same write on several databases, one after the other, whatever their results.\<close>

definition put_each :: "'d list \<Rightarrow> string \<Rightarrow> string \<Rightarrow> 'w \<Rightarrow> 'w" where
  "put_each ds k v w = fold (\<lambda>d. snd \<circ> bput d k v) ds w"

definition del_each :: "'d list \<Rightarrow> string \<Rightarrow> 'w \<Rightarrow> 'w" where
  "del_each ds k w = fold (\<lambda>d. snd \<circ> bdel d k) ds w"

lemma put_each_law:
  assumes "\<forall>d \<in> set ds. ok d w"
  shows "content (put_each ds k v w) =
      (\<lambda>i. if i \<in> ident ` set ds then (content w i)(k \<mapsto> v) else content w i) \<and>
    (\<forall>e. ok e w \<longrightarrow> ok e (put_each ds k v w))"
  using assms
proof (induction ds arbitrary: w)
  case (Cons d ds)
  obtain r w1 where p: "bput d k v w = (r, w1)" by force
  note l = put_law [OF _ p]
  have "content (put_each ds k v w1) = (\<lambda>i. if i \<in> ident ` set ds then (content w1 i)(k \<mapsto> v) else content w1 i) \<and>
      (\<forall>e. ok e w1 \<longrightarrow> ok e (put_each ds k v w1))"
    using Cons l by auto
  then show ?case using Cons.prems l p by (auto simp: put_each_def fun_eq_iff)
qed (simp add: put_each_def)

lemma del_each_law:
  assumes "\<forall>d \<in> set ds. ok d w"
  shows "content (del_each ds k w) =
      (\<lambda>i. if i \<in> ident ` set ds then (content w i)(k := None) else content w i) \<and>
    (\<forall>e. ok e w \<longrightarrow> ok e (del_each ds k w))"
  using assms
proof (induction ds arbitrary: w)
  case (Cons d ds)
  obtain r w1 where p: "bdel d k w = (r, w1)" by force
  note l = del_law [OF _ p]
  have "content (del_each ds k w1) = (\<lambda>i. if i \<in> ident ` set ds then (content w1 i)(k := None) else content w1 i) \<and>
      (\<forall>e. ok e w1 \<longrightarrow> ok e (del_each ds k w1))"
    using Cons l by auto
  then show ?case using Cons.prems l p by (auto simp: del_each_def fun_eq_iff)
qed (simp add: del_each_def)

text \<open>Concurrent writers of one key and value, in any order, leave the same contents.\<close>

lemma put_each_order:
  assumes "\<forall>d \<in> set ds. ok d w" and "set ds' = set ds"
  shows "content (put_each ds' k v w) = content (put_each ds k v w)"
  using put_each_law [of ds w k v] put_each_law [of ds' w k v] assms by simp

end

subsection \<open>The in-memory database keeps it\<close>

definition mem_content :: "'s world \<Rightarrow> string \<Rightarrow> string \<Rightarrow> string option" where
  "mem_content w name = map_of (mem_db name w)"

fun mem_handle :: "Database \<Rightarrow> bool" where
  "mem_handle (MemDatabase name) = True"
| "mem_handle _ = False"

fun db_ident :: "Database \<Rightarrow> string" where
  "db_ident (MemDatabase name) = name"
| "db_ident (RedisDatabase (Some url) lat) = url"
| "db_ident (latencyDatabase d lat) = db_ident d"
| "db_ident _ = []"

lemma mem_handleE: "mem_handle d \<Longrightarrow> (\<And>n. d = MemDatabase n \<Longrightarrow> P) \<Longrightarrow> P"
  by (cases d) auto

lemma mem_Put_content:
  "mem_content (snd (mem_Put n k v w)) = (mem_content w)(n := (mem_content w n)(k \<mapsto> v))"
  by (auto simp: mem_content_def mem_Put_def mem_db_def update_conv' fun_eq_iff)

lemma mem_Delete_content:
  "mem_content (snd (mem_Delete n k w)) = (mem_content w)(n := (mem_content w n)(k := None))"
  by (auto simp: mem_content_def mem_Delete_def mem_db_def update_conv' delete_conv' fun_eq_iff)

lemma NewMemDatabase_content: "mem_content (snd (NewMemDatabase n w)) = mem_content w"
  by (auto simp: NewMemDatabase_def mem_content_def mem_db_def update_conv' fun_eq_iff split: option.splits)

interpretation mem: kv_backend "db_Put api" "db_Get api" "db_Delete api" mem_content db_ident "\<lambda>d w. mem_handle d" for api
proof
  fix d k v w r w'
  assume "mem_handle d"
  then obtain n where d: "d = MemDatabase n" by (rule mem_handleE)
  show "(\<exists>s. r = Ok s) \<and> mem_content w' = (mem_content w)(db_ident d := (mem_content w (db_ident d))(k \<mapsto> v)) \<and>
      (\<forall>e. mem_handle e \<longrightarrow> mem_handle e)" if "db_Put api d k v w = (r, w')"
    using that mem_Put_content [of n k v w] d by (auto simp: mem_Put_def)
next
  fix d k w r w'
  assume "mem_handle d"
  then obtain n where d: "d = MemDatabase n" by (rule mem_handleE)
  show "(\<forall>v. mem_content w (db_ident d) k = Some v \<longrightarrow> r = Ok v) \<and> mem_content w' = mem_content w \<and>
      (\<forall>e. mem_handle e \<longrightarrow> mem_handle e) \<and> (mem_content w (db_ident d) k = None \<longrightarrow> r \<in> missing_value)" if "db_Get api d k w = (r, w')"
    using that d by (auto simp: mem_Get_def mem_content_def missing_value_def split: option.splits)
next
  fix d k w r w'
  assume "mem_handle d"
  then obtain n where d: "d = MemDatabase n" by (rule mem_handleE)
  show "r = Ok () \<and> mem_content w' = (mem_content w)(db_ident d := (mem_content w (db_ident d))(k := None)) \<and>
      (\<forall>e. mem_handle e \<longrightarrow> mem_handle e)" if "db_Delete api d k w = (r, w')"
    using that mem_Delete_content [of n k w] d by (auto simp: mem_Delete_def)
qed

subsection \<open>Redis keeps it when the server answers\<close>

text \<open>What the server documents of the four commands, for a url that is up; \<open>store\<close> is the data.\<close>

definition redis_service :: "'s redis_api \<Rightarrow> ('s \<Rightarrow> string \<Rightarrow> string \<Rightarrow> string option) \<Rightarrow> ('s \<Rightarrow> string \<Rightarrow> bool) \<Rightarrow> bool" where
  "redis_service api store up \<longleftrightarrow>
     (\<forall>s u. up s u \<longrightarrow> (\<exists>s'. redis_Dial api u s = (None, s') \<and> store s' = store s \<and> up s' = up s)) \<and>
     (\<forall>s u k v. up s u \<longrightarrow> (\<exists>s'. redis_Do api u (RSet k v) s = (Inr (RStatus ''OK''), s') \<and>
        store s' = (store s)(u := (store s u)(k \<mapsto> v)) \<and> up s' = up s)) \<and>
     (\<forall>s u k. up s u \<longrightarrow> (\<exists>s'. redis_Do api u (RGet k) s =
        (Inr (case store s u k of None \<Rightarrow> RNil | Some v \<Rightarrow> RBulk v), s') \<and> store s' = store s \<and> up s' = up s)) \<and>
     (\<forall>s u k. up s u \<longrightarrow> (\<exists>s' n. redis_Do api u (RDel k) s = (Inr (RInt n), s') \<and>
        store s' = (store s)(u := (store s u)(k := None)) \<and> up s' = up s))"

definition redis_ok :: "('s \<Rightarrow> string \<Rightarrow> bool) \<Rightarrow> Database \<Rightarrow> 's world \<Rightarrow> bool" where
  "redis_ok up d w \<longleftrightarrow> (\<exists>url lat. d = RedisDatabase (Some url) lat \<and> up (redis w) url)"

lemma redis_serviceD:
  assumes "redis_service api store up" and "up s u"
  shows "\<exists>s'. redis_Dial api u s = (None, s') \<and> store s' = store s \<and> up s' = up s"
    and "\<exists>s'. redis_Do api u (RSet k v) s = (Inr (RStatus ''OK''), s') \<and>
      store s' = (store s)(u := (store s u)(k \<mapsto> v)) \<and> up s' = up s"
    and "\<exists>s'. redis_Do api u (RGet k) s = (Inr (case store s u k of None \<Rightarrow> RNil | Some v \<Rightarrow> RBulk v), s') \<and>
      store s' = store s \<and> up s' = up s"
    and "\<exists>s' n. redis_Do api u (RDel k) s = (Inr (RInt n), s') \<and>
      store s' = (store s)(u := (store s u)(k := None)) \<and> up s' = up s"
  using assms unfolding redis_service_def by blast+

lemma pool_Dial_up:
  assumes "redis_service api store up" and "up s u"
  shows "\<exists>s'. pool_Dial api u s = (None, [], s') \<and> store s' = store s \<and> up s' = up s"
proof -
  obtain s' where "redis_Dial api u s = (None, s')" "store s' = store s" "up s' = up s"
    using redis_serviceD(1) [OF assms] by blast
  then show ?thesis by (simp add: pool_Dial_def RedisRetryCount_def numeral_eq_Suc)
qed


lemma redis_call_up:
  assumes "redis_service api store up" and "up (redis w) u"
    and "\<And>s. up s u \<Longrightarrow> store s = store (redis w) \<Longrightarrow> \<exists>s'. redis_Do api u cmd s = (Inr rep, s') \<and> P (store s') \<and> up s' = up s"
  shows "\<exists>w'. redis_call api (Some u) cmd w = (Ok rep, w') \<and> P (store (redis w')) \<and> up (redis w') = up (redis w)"
proof -
  obtain s1 where s1: "pool_Dial api u (redis w) = (None, [], s1)" "store s1 = store (redis w)" "up s1 = up (redis w)"
    using pool_Dial_up [OF assms(1,2)] by blast
  obtain s2 where "redis_Do api u cmd s1 = (Inr rep, s2)" "P (store s2)" "up s2 = up s1"
    using assms(3) [of s1] s1 assms(2) by auto
  with s1 show ?thesis by (simp add: redis_call_def)
qed

lemma redis_kv_backend:
  assumes "redis_service api store up"
  shows "kv_backend (db_Put api) (db_Get api) (db_Delete api) (\<lambda>w. store (redis w)) db_ident (redis_ok up)"
proof
  fix d k v w r w'
  assume "redis_ok up d w" and p: "db_Put api d k v w = (r, w')"
  then obtain u lat where d: "d = RedisDatabase (Some u) lat" and u: "up (redis w) u" by (auto simp: redis_ok_def)
  obtain w1 where "redis_call api (Some u) (RSet k v) w = (Ok (RStatus ''OK''), w1)"
    "store (redis w1) = (store (redis w))(u := (store (redis w) u)(k \<mapsto> v))" "up (redis w1) = up (redis w)"
    using redis_call_up [OF assms u, of "RSet k v" "RStatus ''OK''" "\<lambda>c. c = (store (redis w))(u := (store (redis w) u)(k \<mapsto> v))"]
      redis_serviceD(2) [OF assms] by force
  then show "(\<exists>s. r = Ok s) \<and> store (redis w') = (store (redis w))(db_ident d := (store (redis w) (db_ident d))(k \<mapsto> v)) \<and>
      (\<forall>e. redis_ok up e w \<longrightarrow> redis_ok up e w')"
    using p d by (auto simp: redis_ok_def)
next
  fix d k w r w'
  assume "redis_ok up d w" and p: "db_Get api d k w = (r, w')"
  then obtain u lat where d: "d = RedisDatabase (Some u) lat" and u: "up (redis w) u" by (auto simp: redis_ok_def)
  obtain w1 where "redis_call api (Some u) (RGet k) w = (Ok (case store (redis w) u k of None \<Rightarrow> RNil | Some v \<Rightarrow> RBulk v), w1)"
    "store (redis w1) = store (redis w)" "up (redis w1) = up (redis w)"
    using redis_call_up [OF assms u, of "RGet k" "case store (redis w) u k of None \<Rightarrow> RNil | Some v \<Rightarrow> RBulk v" "\<lambda>c. c = store (redis w)"]
      redis_serviceD(3) [OF assms] by force
  then show "(\<forall>v. store (redis w) (db_ident d) k = Some v \<longrightarrow> r = Ok v) \<and> store (redis w') = store (redis w) \<and>
      (\<forall>e. redis_ok up e w \<longrightarrow> redis_ok up e w') \<and> (store (redis w) (db_ident d) k = None \<longrightarrow> r \<in> missing_value)"
    using p d by (auto simp: redis_ok_def missing_value_def)
next
  fix d k w r w'
  assume "redis_ok up d w" and p: "db_Delete api d k w = (r, w')"
  then obtain u lat where d: "d = RedisDatabase (Some u) lat" and u: "up (redis w) u" by (auto simp: redis_ok_def)
  obtain s1 where s1: "pool_Dial api u (redis w) = (None, [], s1)" "store s1 = store (redis w)" "up s1 = up (redis w)"
    using pool_Dial_up [OF assms u] by blast
  obtain s2 n where "redis_Do api u (RDel k) s1 = (Inr (RInt n), s2)"
    "store s2 = (store s1)(u := (store s1 u)(k := None))" "up s2 = up s1"
    using redis_serviceD(4) [OF assms, of s1 u k] u s1(3) by auto
  then show "r = Ok () \<and> store (redis w') = (store (redis w))(db_ident d := (store (redis w) (db_ident d))(k := None)) \<and>
      (\<forall>e. redis_ok up e w \<longrightarrow> redis_ok up e w')"
    using p d s1 by (auto simp: redis_ok_def redis_call_def)
qed

text \<open>A server that keeps its data in an association list and is always up.\<close>

type_synonym redis_data = "(string \<times> (string \<times> string) list) list"

definition redis_data_of :: "redis_data \<Rightarrow> string \<Rightarrow> (string \<times> string) list" where
  "redis_data_of s u = (case map_of s u of None \<Rightarrow> [] | Some d \<Rightarrow> d)"

fun list_redis_Do :: "string \<Rightarrow> redis_cmd \<Rightarrow> redis_data \<Rightarrow> (error + redis_reply) \<times> redis_data" where
  "list_redis_Do u (RSet k v) s = (Inr (RStatus ''OK''), AList.update u (AList.update k v (redis_data_of s u)) s)"
| "list_redis_Do u (RGet k) s = (Inr (case map_of (redis_data_of s u) k of None \<Rightarrow> RNil | Some v \<Rightarrow> RBulk v), s)"
| "list_redis_Do u (RDel k) s =
     (Inr (RInt (if k \<in> fst ` set (redis_data_of s u) then 1 else 0)), AList.update u (AList.delete k (redis_data_of s u)) s)"
| "list_redis_Do u RPing s = (Inr (RStatus ''PONG''), s)"

definition list_redis :: "redis_data redis_api" where
  "list_redis = \<lparr>redis_Dial = (\<lambda>u s. (None, s)), redis_Do = list_redis_Do, redis_Close = (\<lambda>u s. (None, s))\<rparr>"

lemma list_redis_service: "redis_service list_redis (\<lambda>s u. map_of (redis_data_of s u)) (\<lambda>s u. True)"
  by (auto simp: redis_service_def list_redis_def redis_data_of_def update_conv' delete_conv' fun_eq_iff)

section \<open>The retry loop\<close>

definition retry_delays :: "int64 list" where
  "retry_delays = map (\<lambda>r. push_bit r RedisRetryInterval) [0..<RedisRetryCount]"

text \<open>The attempts, one after the other: the first is a dial, a retry is a dial and, when it succeeds, a ping.\<close>

definition retry_once :: "'s redis_api \<Rightarrow> string \<Rightarrow> 's \<Rightarrow> error option \<times> 's" where
  "retry_once api url s =
     (case redis_Dial api url s of
        (None, s1) \<Rightarrow> (case redis_Do api url RPing s1 of (Inl e, s2) \<Rightarrow> (Some e, s2) | (Inr _, s2) \<Rightarrow> (None, s2))
      | (Some e, s1) \<Rightarrow> (Some e, s1))"

fun attempt :: "'s redis_api \<Rightarrow> string \<Rightarrow> nat \<Rightarrow> error option \<times> 's \<Rightarrow> error option \<times> 's" where
  "attempt api url 0 a = a"
| "attempt api url (Suc n) a = attempt api url n (retry_once api url (snd a))"

lemma dial_loop_Suc:
  "dial_loop api url r (Suc n) (Some e) s =
     (case retry_once api url s of (err2, s2) \<Rightarrow> case dial_loop api url (r + 1) n err2 s2 of (err3, ds, s3) \<Rightarrow>
        (err3, push_bit r RedisRetryInterval # ds, s3))"
  by (simp add: retry_once_def Let_def split: prod.splits option.splits sum.splits)

lemma dial_loop_delays:
  "dial_loop api url r n err s = (err', ds, s') \<Longrightarrow>
   ds = map (\<lambda>r. push_bit r RedisRetryInterval) [r..<r + length ds] \<and> length ds \<le> n \<and> (length ds < n \<longrightarrow> err' = None) \<and>
   attempt api url (length ds) (err, s) = (err', s') \<and> (\<forall>m < length ds. fst (attempt api url m (err, s)) \<noteq> None)"
proof (induction n arbitrary: r err s ds)
  case (Suc n)
  show ?case
  proof (cases err)
    case None
    then show ?thesis using Suc.prems by simp
  next
    case (Some e)
    obtain err2 s2 where a: "retry_once api url s = (err2, s2)" by force
    then obtain ds2 where l: "dial_loop api url (r + 1) n err2 s2 = (err', ds2, s')"
        and ds: "ds = push_bit r RedisRetryInterval # ds2"
      using Suc.prems by (auto simp: Some dial_loop_Suc simp del: dial_loop.simps split: prod.splits)
    have "[r..<r + length ds] = r # [r + 1..<r + 1 + length ds2]" by (simp add: ds upt_conv_Cons del: upt_Suc)
    then show ?thesis using Suc.IH [OF l] a Some by (auto simp: ds less_Suc_eq_0_disj simp del: upt_Suc)
  qed
qed simp

text \<open>C36: The dial of a Redis pool always returns: it retries at most five times after the first
  attempt, with delays of 10, 20, 40, 80 and 160 milliseconds in this order, 310 in all. It stops
  at the first attempt that succeeds: all before the last one have failed, the last one gives the result, and only after
  five failed retries is this an error.\<close>

theorem pool_Dial_bounded:
  assumes "pool_Dial api url s = (err, ds, s')"
  shows "ds = take (length ds) [10000000, 20000000, 40000000, 80000000, 160000000] \<and> length ds \<le> 5 \<and>
    sum_list (map sint ds) \<le> 310000000 \<and> (length ds < 5 \<longrightarrow> err = None) \<and>
    attempt api url (length ds) (redis_Dial api url s) = (err, s') \<and>
    (\<forall>m < length ds. fst (attempt api url m (redis_Dial api url s)) \<noteq> None)"
proof -
  obtain err1 s1 where s1: "redis_Dial api url s = (err1, s1)" by force
  then have e: "dial_loop api url 0 5 err1 s1 = (err, ds, s')"
    using assms by (simp add: pool_Dial_def RedisRetryCount_def)
  have d: "ds = map (\<lambda>r. push_bit r RedisRetryInterval) [0..<length ds]" "length ds \<le> 5"
    using dial_loop_delays [OF e] by simp_all
  let ?all = "[10000000, 20000000, 40000000, 80000000, 160000000] :: int64 list"
  have "?all = map (\<lambda>r. push_bit r RedisRetryInterval) [0..<5]" by code_simp
  then have t: "ds = take (length ds) ?all" using d(1,2) by (metis take_map take_upt add_0)
  have "length ds = 0 \<or> length ds = 1 \<or> length ds = 2 \<or> length ds = 3 \<or> length ds = 4 \<or> length ds = 5"
    using d(2) by arith
  then have "sum_list (map sint (take (length ds) ?all)) \<le> 310000000" by auto
  then show ?thesis using t dial_loop_delays [OF e] s1 by metis
qed

definition slow_redis :: "nat redis_api" where
  "slow_redis = \<lparr>redis_Dial = (\<lambda>u s. (if s < 2 then Some (ErrorString ''refused'') else None, s + 1)),
     redis_Do = (\<lambda>u c s. (Inr (RStatus ''PONG''), s)), redis_Close = (\<lambda>u s. (None, s))\<rparr>"

theorem pool_Dial_bounded_witness:
  "pool_Dial slow_redis ''h:1'' 0 = (None, [10000000, 20000000], 3) \<and>
   attempt slow_redis ''h:1'' 2 (redis_Dial slow_redis ''h:1'' 0) = (None, 3) \<and>
   fst (attempt slow_redis ''h:1'' 0 (redis_Dial slow_redis ''h:1'' 0)) \<noteq> None \<and>
   fst (attempt slow_redis ''h:1'' 1 (redis_Dial slow_redis ''h:1'' 0)) \<noteq> None"
proof -
  have d: "pool_Dial slow_redis ''h:1'' 0 = (None, [10000000, 20000000], 3)" by code_simp
  have "attempt slow_redis ''h:1'' 2 (redis_Dial slow_redis ''h:1'' 0) = (None, 3)"
    "\<forall>m < 2. fst (attempt slow_redis ''h:1'' m (redis_Dial slow_redis ''h:1'' 0)) \<noteq> None"
    using pool_Dial_bounded [OF d] by (simp_all add: numeral_2_eq_2)
  with d show ?thesis by (metis one_less_numeral_iff semiring_norm(76) zero_less_numeral)
qed

text \<open>C35: For the in-memory database, and for Redis as long as the server answers as documented, a
  value that was put is what a get returns, and neither a put nor a delete changes another key
  or another database.\<close>

theorem database_put_get:
  assumes "redis_service api store up"
  shows "(\<forall>n k v w. fst (db_Get api (MemDatabase n) k (snd (db_Put api (MemDatabase n) k v w))) = Ok v \<and>
      mem_content (snd (db_Put api (MemDatabase n) k v w)) = (mem_content w)(n := (mem_content w n)(k \<mapsto> v)) \<and>
      mem_content (snd (db_Delete api (MemDatabase n) k w)) = (mem_content w)(n := (mem_content w n)(k := None))) \<and>
    (\<forall>u l k v w. up (redis w) u \<longrightarrow>
      fst (db_Get api (RedisDatabase (Some u) l) k (snd (db_Put api (RedisDatabase (Some u) l) k v w))) = Ok v \<and>
      store (redis (snd (db_Put api (RedisDatabase (Some u) l) k v w))) = (store (redis w))(u := (store (redis w) u)(k \<mapsto> v)) \<and>
      store (redis (snd (db_Delete api (RedisDatabase (Some u) l) k w))) = (store (redis w))(u := (store (redis w) u)(k := None)))"
proof -
  note rk = redis_kv_backend [OF assms]
  have "fst (db_Get api (MemDatabase n) k (snd (db_Put api (MemDatabase n) k v w))) = Ok v" for n k v and w :: "'a world"
    using mem.put_get [of "MemDatabase n" api k v w] by (metis mem_handle.simps(1) prod.collapse)
  moreover have "fst (db_Get api (RedisDatabase (Some u) l) k (snd (db_Put api (RedisDatabase (Some u) l) k v w))) = Ok v \<and>
      store (redis (snd (db_Put api (RedisDatabase (Some u) l) k v w))) = (store (redis w))(u := (store (redis w) u)(k \<mapsto> v)) \<and>
      store (redis (snd (db_Delete api (RedisDatabase (Some u) l) k w))) = (store (redis w))(u := (store (redis w) u)(k := None))"
    if "up (redis w) u" for u l k v w
  proof -
    have ok: "redis_ok up (RedisDatabase (Some u) l) w" using that by (simp add: redis_ok_def)
    from kv_backend.put_get [OF rk ok, of k v] kv_backend.put_law [OF rk ok, of k v] kv_backend.del_law [OF rk ok, of k]
    show ?thesis by (metis db_ident.simps(2) prod.collapse)
  qed
  ultimately show ?thesis
    using mem_Put_content mem_Delete_content by (simp add: mem_Put_content mem_Delete_content del: fun_upd_apply)
qed

theorem database_put_get_witness:
  "fst (db_Get list_redis (RedisDatabase (Some ''h:1'') 0) ''k''
     (snd (db_Put list_redis (RedisDatabase (Some ''h:1'') 0) ''k'' ''v'' \<lparr>memDatabases = [], Storages = [], pools = None, redis = []\<rparr>))) = Ok ''v''"
  using database_put_get [OF list_redis_service] by simp

text \<open>A key that Redis does not hold is not an error for the Redis database: \<^verbatim>\<open>Get\<close> returns the
  text Go formats a nil with.\<close>

theorem redis_Get_missing_key:
  assumes "redis_service api store up" and "up (redis w) u" and "store (redis w) u k = None"
  shows "fst (db_Get api (RedisDatabase (Some u) l) k w) = Ok ''%!s(<nil>)''"
proof -
  obtain w1 where "redis_call api (Some u) (RGet k) w = (Ok RNil, w1)"
  proof -
    have "\<exists>s'. redis_Do api u (RGet k) s = (Inr RNil, s') \<and> True \<and> up s' = up s"
      if "up s u" and "store s = store (redis w)" for s
      using redis_serviceD(3) [OF assms(1) that(1), of k] that(2) assms(3) by auto
    then show thesis using that redis_call_up [OF assms(1,2), of "RGet k" RNil "\<lambda>_. True"] by blast
  qed
  then show ?thesis by simp
qed

theorem redis_Get_missing_key_witness:
  "fst (db_Get list_redis (RedisDatabase (Some ''h:1'') 0) ''k'' \<lparr>memDatabases = [], Storages = [], pools = None, redis = []\<rparr>)
     = Ok ''%!s(<nil>)''"
  using redis_Get_missing_key [OF list_redis_service, of "\<lparr>memDatabases = [], Storages = [], pools = None, redis = []\<rparr>" "''h:1''" "''k''" 0]
  by (simp add: redis_data_of_def)

end
