(* ===== verification/Chain.thy ===== *)
theory Chain
  imports Database
begin

text \<open>
  Chain replication (\<^verbatim>\<open>pkg/consistent/chain\<close>): a linked list of nodes, each with its database. A write
  goes to the head and then node by node to the tail. Under the sequential level the rest of the
  chain is written by a goroutine: the call returns it as a pending job, which \<open>run_chain_job\<close>
  executes.
\<close>

type_synonym CONSISTENCY = string

definition SEQUENTIAL :: CONSISTENCY where
  "SEQUENTIAL = ''SEQUENTIAL''"

definition LINEARIZABLE :: CONSISTENCY where
  "LINEARIZABLE = ''LINEARIZABLE''"

datatype ChainNode = ChainNode (GetID: int) (GetDB: "Database option") (GetNext: "ChainNode option")

record Chain =
  head :: "ChainNode option"
  tail :: "ChainNode option"
  len :: nat

section \<open>Nodes\<close>

definition NewNode :: "int \<Rightarrow> Database option \<Rightarrow> ChainNode" where
  "NewNode i db = ChainNode i db None"

text \<open>The operations of a node; a nil database panics.\<close>

fun node_Write :: "'s redis_api \<Rightarrow> ChainNode \<Rightarrow> string \<Rightarrow> string \<Rightarrow> ('s, unit) op" where
  "node_Write api (ChainNode i db nxt) key val w =
     (case db of
        None \<Rightarrow> (Panic NilDereference, w)
      | Some d \<Rightarrow>
          (case db_Put api d key val w of
             (Ok _, w1) \<Rightarrow> (case nxt of None \<Rightarrow> (Ok (), w1) | Some n \<Rightarrow> node_Write api n key val w1)
           | (Err e, w1) \<Rightarrow> (Err e, w1)
           | (Panic p, w1) \<Rightarrow> (Panic p, w1)))"

definition node_Read :: "'s redis_api \<Rightarrow> ChainNode \<Rightarrow> string \<Rightarrow> ('s, string) op" where
  "node_Read api n key w =
     (case GetDB n of
        None \<Rightarrow> (Panic NilDereference, w)
      | Some d \<Rightarrow> db_Get api d key w)"

text \<open>\<^verbatim>\<open>Delete\<close> stops at the first error but returns nil.\<close>

fun node_Delete :: "'s redis_api \<Rightarrow> ChainNode \<Rightarrow> string \<Rightarrow> ('s, unit) op" where
  "node_Delete api (ChainNode i db nxt) key w =
     (case db of
        None \<Rightarrow> (Panic NilDereference, w)
      | Some d \<Rightarrow>
          (case db_Delete api d key w of
             (Ok _, w1) \<Rightarrow> (case nxt of None \<Rightarrow> (Ok (), w1) | Some n \<Rightarrow> node_Delete api n key w1)
           | (Err e, w1) \<Rightarrow> (Ok (), w1)
           | (Panic p, w1) \<Rightarrow> (Panic p, w1)))"

section \<open>Building a chain\<close>

fun link_nodes :: "int \<Rightarrow> Database list \<Rightarrow> ChainNode option" where
  "link_nodes i [] = None"
| "link_nodes i (db # dbs) = Some (ChainNode i (Some db) (link_nodes (i + 1) dbs))"

text \<open>Without databases the head is nil and the tail the dummy node.\<close>

definition NewChainWithDatbases :: "Database list \<Rightarrow> Chain" where
  "NewChainWithDatbases dbs =
     \<lparr>head = link_nodes 0 dbs,
      tail = Some (if dbs = [] then NewNode (- 1) None
                   else NewNode (int (length dbs) - 1) (Some (last dbs))),
      len = length dbs\<rparr>"

fun mem_handles :: "string list \<Rightarrow> 's world \<Rightarrow> Database list \<times> 's world" where
  "mem_handles [] w = ([], w)"
| "mem_handles (n # ns) w =
     (let (db, w1) = NewMemDatabase n w; (dbs, w2) = mem_handles ns w1 in (db # dbs, w2))"

fun storage_handles :: "string list \<Rightarrow> 's world \<Rightarrow> Database list result" where
  "storage_handles [] w = Ok []"
| "storage_handles (n # ns) w =
     (case map_of (Storages w) n of
        None \<Rightarrow> Err (ErrorString (''storage not found for '' @ n))
      | Some db \<Rightarrow> result_bind (storage_handles ns w) (\<lambda>dbs. Ok (db # dbs)))"

definition NewChain :: "StoreType \<Rightarrow> string list \<Rightarrow> ('s, Chain) op" where
  "NewChain nodeType ns w =
     (if length ns = 0 then (Err (ErrorString ''the number of nodes is 0''), w)
      else if length ns = 1
      then (Err (ErrorString ''the number of nodes is 1, which means there is no replica''), w)
      else if nodeType = Memory
      then (case mem_handles ns w of (dbs, w1) \<Rightarrow> (Ok (NewChainWithDatbases dbs), w1))
      else (result_bind (storage_handles ns w) (\<lambda>dbs. Ok (NewChainWithDatbases dbs)), w))"

section \<open>Operations of a chain\<close>

datatype chain_job = CWrite "ChainNode option" string string | CDelete "ChainNode option" string

text \<open>A call on a nil node panics.\<close>

primrec run_chain_job :: "'s redis_api \<Rightarrow> chain_job \<Rightarrow> ('s, unit) op" where
  "run_chain_job api (CWrite n key val) w =
     (case n of None \<Rightarrow> (Panic NilDereference, w) | Some n \<Rightarrow> node_Write api n key val w)"
| "run_chain_job api (CDelete n key) w =
     (case n of None \<Rightarrow> (Panic NilDereference, w) | Some n \<Rightarrow> node_Delete api n key w)"

definition chain_Write :: "'s redis_api \<Rightarrow> Chain \<Rightarrow> string \<Rightarrow> string \<Rightarrow> CONSISTENCY \<Rightarrow> 's world
    \<Rightarrow> unit result \<times> chain_job list \<times> 's world" where
  "chain_Write api c key val consistency w =
     (case head c of
        Some (ChainNode i (Some d) nxt) \<Rightarrow>
          (case db_Put api d key val w of
             (Err e, w1) \<Rightarrow> (Err e, [], w1)
           | (Panic p, w1) \<Rightarrow> (Panic p, [], w1)
           | (Ok _, w1) \<Rightarrow>
               if consistency = LINEARIZABLE
               then (case run_chain_job api (CWrite nxt key val) w1 of (r, w2) \<Rightarrow> (r, [], w2))
               else if consistency = SEQUENTIAL then (Ok (), [CWrite nxt key val], w1)
               else (Ok (), [], w1))
      | _ \<Rightarrow> (Panic NilDereference, [], w))"

definition chain_Delete :: "'s redis_api \<Rightarrow> Chain \<Rightarrow> string \<Rightarrow> CONSISTENCY \<Rightarrow> 's world
    \<Rightarrow> unit result \<times> chain_job list \<times> 's world" where
  "chain_Delete api c key consistency w =
     (case head c of
        Some (ChainNode i (Some d) nxt) \<Rightarrow>
          (case db_Delete api d key w of
             (Err e, w1) \<Rightarrow> (Err e, [], w1)
           | (Panic p, w1) \<Rightarrow> (Panic p, [], w1)
           | (Ok _, w1) \<Rightarrow>
               if consistency = LINEARIZABLE
               then (case run_chain_job api (CDelete nxt key) w1 of (r, w2) \<Rightarrow> (r, [], w2))
               else if consistency = SEQUENTIAL then (Ok (), [CDelete nxt key], w1)
               else (Ok (), [], w1))
      | _ \<Rightarrow> (Panic NilDereference, [], w))"

text \<open>The walk of a sequential read to the node with the random number; \<open>idx\<close> is the result of
  \<^verbatim>\<open>rand.Intn\<close>, which panics when the chain is empty.\<close>

fun find_node :: "int \<Rightarrow> ChainNode \<Rightarrow> ChainNode option" where
  "find_node idx (ChainNode i db nxt) =
     (if i = idx then Some (ChainNode i db nxt)
      else case nxt of None \<Rightarrow> None | Some n \<Rightarrow> find_node idx n)"

definition chain_Read :: "'s redis_api \<Rightarrow> nat \<Rightarrow> Chain \<Rightarrow> string \<Rightarrow> CONSISTENCY \<Rightarrow> ('s, string) op" where
  "chain_Read api idx c key consistency w =
     (if consistency = LINEARIZABLE
      then (case tail c of None \<Rightarrow> (Panic NilDereference, w) | Some n \<Rightarrow> node_Read api n key w)
      else if consistency = SEQUENTIAL then
        (if len c = 0 then (Panic (PanicError ''invalid argument to Intn''), w)
         else case Option.bind (head c) (find_node (int idx)) of
                Some n \<Rightarrow> node_Read api n key w
              | None \<Rightarrow> (Err (ErrorString ''failed to read value''), w))
      else (Err (ErrorString ''consistency level does not implemented''), w))"

definition GetHead :: "Chain \<Rightarrow> ChainNode option" where
  "GetHead c = head c"

definition GetTail :: "Chain \<Rightarrow> ChainNode option" where
  "GetTail c = tail c"

definition GetLen :: "Chain \<Rightarrow> nat" where
  "GetLen c = len c"

section \<open>A chain writes its databases in order up to the first failure\<close>

fun write_seq :: "'s redis_api \<Rightarrow> Database list \<Rightarrow> string \<Rightarrow> string \<Rightarrow> ('s, unit) op" where
  "write_seq api [] key val w = (Ok (), w)"
| "write_seq api (d # ds) key val w =
     (case db_Put api d key val w of
        (Ok _, w1) \<Rightarrow> write_seq api ds key val w1 | (Err e, w1) \<Rightarrow> (Err e, w1) | (Panic p, w1) \<Rightarrow> (Panic p, w1))"

fun delete_seq :: "'s redis_api \<Rightarrow> Database list \<Rightarrow> string \<Rightarrow> ('s, unit) op" where
  "delete_seq api [] key w = (Ok (), w)"
| "delete_seq api (d # ds) key w =
     (case db_Delete api d key w of
        (Ok _, w1) \<Rightarrow> delete_seq api ds key w1 | (Err e, w1) \<Rightarrow> (Ok (), w1) | (Panic p, w1) \<Rightarrow> (Panic p, w1))"

lemma link_nodes_Write:
  "(case link_nodes i dbs of None \<Rightarrow> (Ok (), w) | Some n \<Rightarrow> node_Write api n key val w) = write_seq api dbs key val w"
  by (induction dbs arbitrary: i w) (auto split: prod.splits result.splits)

lemma link_nodes_Delete:
  "(case link_nodes i dbs of None \<Rightarrow> (Ok (), w) | Some n \<Rightarrow> node_Delete api n key w) = delete_seq api dbs key w"
  by (induction dbs arbitrary: i w) (auto split: prod.splits result.splits)

lemma link_nodes_find:
  "link_nodes i dbs = Some n \<Longrightarrow> k < length dbs \<Longrightarrow> \<exists>nxt. find_node (i + int k) n = Some (ChainNode (i + int k) (Some (dbs ! k)) nxt)"
proof (induction dbs arbitrary: i n k)
  case (Cons d dbs)
  show ?case
  proof (cases k)
    case 0
    then show ?thesis using Cons.prems by auto
  next
    case (Suc j)
    then obtain m where m: "link_nodes (i + 1) dbs = Some m" using Cons.prems(2) by (cases dbs) auto
    have e: "i + int k = i + 1 + int j" using Suc by simp
    from Cons.IH [OF m, of j] Suc Cons.prems show ?thesis unfolding e by (auto simp: m)
  qed
qed simp


lemma chain_Write_seq:
  assumes "2 \<le> length dbs"
  shows "chain_Write api (NewChainWithDatbases dbs) key val LINEARIZABLE w =
    (case write_seq api dbs key val w of (r, w') \<Rightarrow> (r, [], w'))"
proof -
  obtain d e ds where dbs: "dbs = d # e # ds" using assms by (cases dbs; cases "List.tl dbs") auto
  show ?thesis by (auto simp: chain_Write_def NewChainWithDatbases_def dbs link_nodes_Write split: prod.splits result.splits)
qed

lemma chain_Delete_seq:
  assumes "2 \<le> length dbs"
  shows "chain_Delete api (NewChainWithDatbases dbs) key LINEARIZABLE w =
    (case db_Delete api (dbs ! 0) key w of
       (Ok _, w1) \<Rightarrow> (case delete_seq api (drop 1 dbs) key w1 of (r, w') \<Rightarrow> (r, [], w'))
     | (Err e, w1) \<Rightarrow> (Err e, [], w1) | (Panic p, w1) \<Rightarrow> (Panic p, [], w1))"
proof -
  obtain d e ds where dbs: "dbs = d # e # ds" using assms by (cases dbs; cases "List.tl dbs") auto
  show ?thesis by (auto simp: chain_Delete_def NewChainWithDatbases_def dbs link_nodes_Delete split: prod.splits result.splits)
qed

text \<open>Under the contract of the databases the sequence of writes is the fold of the contract.\<close>

lemma write_seq_each:
  assumes "kv_backend (db_Put api) bget bdel content ident ok" and "\<forall>d \<in> set ds. ok d w"
  shows "write_seq api ds key val w = (Ok (), kv_backend.put_each (db_Put api) ds key val w)"
  using assms(2)
proof (induction ds arbitrary: w)
  case Nil
  show ?case by (simp add: kv_backend.put_each_def [OF assms(1)])
next
  case (Cons d ds)
  obtain r w1 where p: "db_Put api d key val w = (r, w1)" by force
  then have "\<exists>s. r = Ok s" "\<forall>e \<in> set ds. ok e w1"
    using kv_backend.put_law [OF assms(1) _ p] Cons.prems by auto
  then show ?case using Cons.IH [of w1] p by (auto simp: kv_backend.put_each_def [OF assms(1)])
qed

section \<open>Properties\<close>

text \<open>A linearizable write on a chain of at least two databases that keep the contract succeeds,
  leaves nothing pending, stores the value in every database of the chain and changes nothing
  else; afterwards the tail, and every node a sequential read may choose, return the value.\<close>

theorem chain_write_then_read:
  assumes "kv_backend (db_Put api) (db_Get api) (db_Delete api) content ident ok"
    and "2 \<le> length dbs" and "\<forall>d \<in> set dbs. ok d w"
    and "chain_Write api (NewChainWithDatbases dbs) key val LINEARIZABLE w = (r, jobs, w')"
  shows "r = Ok () \<and> jobs = [] \<and>
    content w' = (\<lambda>i. if i \<in> ident ` set dbs then (content w i)(key \<mapsto> val) else content w i) \<and>
    fst (chain_Read api idx (NewChainWithDatbases dbs) key LINEARIZABLE w') = Ok val \<and>
    (idx < length dbs \<longrightarrow> fst (chain_Read api idx (NewChainWithDatbases dbs) key SEQUENTIAL w') = Ok val)"
proof -
  have w': "r = Ok ()" "jobs = []" "w' = kv_backend.put_each (db_Put api) dbs key val w"
    using assms(4) write_seq_each [OF assms(1,3), of key val]
    by (simp_all add: chain_Write_seq [OF assms(2)])
  note law = kv_backend.put_each_law [OF assms(1,3), of key val, folded w'(3)]
  have get: "fst (db_Get api d key w') = Ok val" if "d \<in> set dbs" for d
  proof -
    have "content w' (ident d) key = Some val" using law that by auto
    moreover have "ok d w'" using law assms(3) that by blast
    ultimately show ?thesis using kv_backend.get_law [OF assms(1), of d w' key] by (metis prod.collapse)
  qed
  have ne: "dbs \<noteq> []" using assms(2) by auto
  have "fst (chain_Read api idx (NewChainWithDatbases dbs) key LINEARIZABLE w') = Ok val"
    using get [of "last dbs"] ne by (simp add: chain_Read_def NewChainWithDatbases_def node_Read_def NewNode_def)
  moreover have "fst (chain_Read api idx (NewChainWithDatbases dbs) key SEQUENTIAL w') = Ok val" if i: "idx < length dbs"
  proof -
    obtain n where n: "link_nodes 0 dbs = Some n" using ne by (cases dbs) auto
    from link_nodes_find [OF this i] obtain nxt where "find_node (int idx) n = Some (ChainNode (int idx) (Some (dbs ! idx)) nxt)"
      by auto
    then show ?thesis using get [of "dbs ! idx"] i n ne
      by (simp add: chain_Read_def NewChainWithDatbases_def node_Read_def SEQUENTIAL_def LINEARIZABLE_def)
  qed
  ultimately show ?thesis using w' law by blast
qed

abbreviation empty_world :: "redis_data world" where
  "empty_world \<equiv> \<lparr>memDatabases = [], Storages = [], pools = None, redis = []\<rparr>"

theorem chain_write_then_read_witness:
  "\<exists>w'. chain_Write list_redis (NewChainWithDatbases [MemDatabase ''a'', MemDatabase ''b'']) ''1-0'' ''v'' LINEARIZABLE empty_world = (Ok (), [], w') \<and>
     fst (chain_Read list_redis 1 (NewChainWithDatbases [MemDatabase ''a'', MemDatabase ''b'']) ''1-0'' SEQUENTIAL w') = Ok ''v''"
proof -
  let ?dbs = "[MemDatabase ''a'', MemDatabase ''b'']"
  obtain r jobs w' where c: "chain_Write list_redis (NewChainWithDatbases ?dbs) ''1-0'' ''v'' LINEARIZABLE empty_world = (r, jobs, w')"
    by (metis prod_cases3)
  from chain_write_then_read [OF mem.kv_backend_axioms _ _ c, of 1] c show ?thesis by auto
qed

text \<open>A chain write stops at the first database that fails: the databases before it have been
  written in order, those after it have not been called, and the error is returned.\<close>

theorem chain_write_prefix:
  assumes "dbs = ds1 @ d # ds2" and "2 \<le> length dbs"
    and "write_seq api ds1 key val w = (Ok (), w1)" and "db_Put api d key val w1 = (Err e, w2)"
  shows "chain_Write api (NewChainWithDatbases dbs) key val LINEARIZABLE w = (Err e, [], w2)"
proof -
  have "write_seq api (ds1 @ d # ds2) key val w = (Err e, w2)"
    using assms(3,4) by (induction ds1 arbitrary: w) (auto split: prod.splits result.splits)
  then show ?thesis unfolding chain_Write_seq [OF assms(2)] by (simp add: assms(1))
qed


definition readonly_redis :: "nat redis_api" where
  "readonly_redis = \<lparr>redis_Dial = (\<lambda>u s. (None, s)),
     redis_Do = (\<lambda>u c s. (Inl (ErrorString ''READONLY''), s + 1)), redis_Close = (\<lambda>u s. (None, s))\<rparr>"

theorem chain_write_prefix_witness:
  "chain_Write readonly_redis (NewChainWithDatbases [MemDatabase ''a'', RedisDatabase (Some ''h:1'') 0, MemDatabase ''b''])
     ''1-0'' ''v'' LINEARIZABLE \<lparr>memDatabases = [], Storages = [], pools = None, redis = 0\<rparr>
   = (Err (ErrorString ''READONLY''), [], \<lparr>memDatabases = [(''a'', [(''1-0'', ''v'')])], Storages = [], pools = None, redis = 1\<rparr>)"
proof (rule chain_write_prefix)
  show "[MemDatabase ''a'', RedisDatabase (Some ''h:1'') 0, MemDatabase ''b''] =
      [MemDatabase ''a''] @ RedisDatabase (Some ''h:1'') 0 # [MemDatabase ''b'']" by simp
  show "write_seq readonly_redis [MemDatabase ''a''] ''1-0'' ''v'' \<lparr>memDatabases = [], Storages = [], pools = None, redis = 0\<rparr> =
      (Ok (), \<lparr>memDatabases = [(''a'', [(''1-0'', ''v'')])], Storages = [], pools = None, redis = 0\<rparr>)" by code_simp
  show "db_Put readonly_redis (RedisDatabase (Some ''h:1'') 0) ''1-0'' ''v''
        \<lparr>memDatabases = [(''a'', [(''1-0'', ''v'')])], Storages = [], pools = None, redis = 0\<rparr> =
      (Err (ErrorString ''READONLY''), \<lparr>memDatabases = [(''a'', [(''1-0'', ''v'')])], Storages = [], pools = None, redis = 1\<rparr>)"
    by code_simp
qed simp

text \<open>C39: A sequential write returns when the head is written, whatever the other databases do; the
  pending job then writes the rest of the chain, after which every database holds the value.\<close>

theorem chain_sequential_write:
  assumes "kv_backend (db_Put api) (db_Get api) (db_Delete api) content ident ok"
    and "2 \<le> length dbs" and "\<forall>d \<in> set dbs. ok d w"
  shows "\<exists>job w1 w2. chain_Write api (NewChainWithDatbases dbs) key val SEQUENTIAL w = (Ok (), [job], w1) \<and>
    content w1 = (content w)(ident (dbs ! 0) := (content w (ident (dbs ! 0)))(key \<mapsto> val)) \<and>
    run_chain_job api job w1 = (Ok (), w2) \<and>
    content w2 = (\<lambda>i. if i \<in> ident ` set dbs then (content w i)(key \<mapsto> val) else content w i)"
proof -
  obtain d e ds where dbs: "dbs = d # e # ds" using assms(2) by (cases dbs; cases "List.tl dbs") auto
  obtain r w1 where p: "db_Put api d key val w = (r, w1)" by force
  have l: "\<exists>s. r = Ok s" "content w1 = (content w)(ident d := (content w (ident d))(key \<mapsto> val))" "\<forall>x \<in> set (e # ds). ok x w1"
    using kv_backend.put_law [OF assms(1) _ p] assms(3) dbs by auto
  have "run_chain_job api (CWrite (link_nodes 1 (e # ds)) key val) w1 = write_seq api (e # ds) key val w1"
    using link_nodes_Write [where i = 1 and dbs = "e # ds" and w = w1 and api = api and key = key and val = val] by simp
  then have run: "run_chain_job api (CWrite (link_nodes 1 (e # ds)) key val) w1 =
      (Ok (), kv_backend.put_each (db_Put api) (e # ds) key val w1)"
    using write_seq_each [OF assms(1) l(3)] by simp
  have "chain_Write api (NewChainWithDatbases dbs) key val SEQUENTIAL w = (Ok (), [CWrite (link_nodes 1 (e # ds)) key val], w1)"
    using p l(1) by (auto simp: chain_Write_def NewChainWithDatbases_def dbs SEQUENTIAL_def LINEARIZABLE_def)
  moreover have "content (kv_backend.put_each (db_Put api) (e # ds) key val w1) =
      (\<lambda>i. if i \<in> ident ` set dbs then (content w i)(key \<mapsto> val) else content w i)"
    using kv_backend.put_each_law [OF assms(1) l(3), of key val] l(2) by (auto simp: dbs fun_eq_iff)
  ultimately show ?thesis using run l(2) dbs by auto
qed

theorem chain_sequential_write_witness:
  "\<exists>job w1 w2. chain_Write list_redis (NewChainWithDatbases [MemDatabase ''a'', MemDatabase ''b'']) ''1-0'' ''v'' SEQUENTIAL empty_world
     = (Ok (), [job], w1) \<and> run_chain_job list_redis job w1 = (Ok (), w2) \<and> mem_content w2 ''b'' ''1-0'' = Some ''v''"
  using chain_sequential_write [OF mem.kv_backend_axioms, where api = list_redis and w = empty_world and
      dbs = "[MemDatabase ''a'', MemDatabase ''b'']" and key = "''1-0''" and val = "''v''"]
  by fastforce

text \<open>A delete on a chain returns success although a database after the head fails, and then leaves
  the databases behind that one unchanged.\<close>

theorem chain_delete_hides_error:
  assumes "dbs = d # d1 # ds" and "db_Delete api d key w = (Ok (), w1)" and "db_Delete api d1 key w1 = (Err e, w2)"
  shows "chain_Delete api (NewChainWithDatbases dbs) key LINEARIZABLE w = (Ok (), [], w2)"
  using assms chain_Delete_seq [of dbs api key w] by simp

theorem chain_delete_hides_error_witness:
  "chain_Delete readonly_redis (NewChainWithDatbases [MemDatabase ''a'', RedisDatabase (Some ''h:1'') 0, MemDatabase ''b'']) ''k'' LINEARIZABLE
     \<lparr>memDatabases = [(''b'', [(''k'', ''v'')])], Storages = [], pools = None, redis = 0\<rparr>
   = (Ok (), [], \<lparr>memDatabases = [(''b'', [(''k'', ''v'')]), (''a'', [])], Storages = [], pools = None, redis = 1\<rparr>)"
proof (rule chain_delete_hides_error [OF refl])
  show "db_Delete readonly_redis (MemDatabase ''a'') ''k'' \<lparr>memDatabases = [(''b'', [(''k'', ''v'')])], Storages = [], pools = None, redis = 0\<rparr> =
      (Ok (), \<lparr>memDatabases = [(''b'', [(''k'', ''v'')]), (''a'', [])], Storages = [], pools = None, redis = 0\<rparr>)" by code_simp
  show "db_Delete readonly_redis (RedisDatabase (Some ''h:1'') 0) ''k''
        \<lparr>memDatabases = [(''b'', [(''k'', ''v'')]), (''a'', [])], Storages = [], pools = None, redis = 0\<rparr> =
      (Err (ErrorString ''READONLY''), \<lparr>memDatabases = [(''b'', [(''k'', ''v'')]), (''a'', [])], Storages = [], pools = None, redis = 1\<rparr>)"
    by code_simp
qed

end
