(* ===== verification/Piping.thy ===== *)
theory Piping
  imports Chain Revision
begin

text \<open>
  The piping of reads, writes and deletes to the replicas of a revision (\<^verbatim>\<open>pkg/piping\<close>). The key in
  the stores is the string of the revision. Goroutines that are waited for take effect in an
  order \<open>ord\<close> of the scheduler's choice, a permutation; those that are not are returned as pending
  jobs, which run later.
\<close>

datatype job =
    ChainJob chain_job
  | AsyncPut string string string
  | AsyncDelete string string

type_synonym ('s, 'a) piping_op = "'s world \<Rightarrow> 'a result \<times> job list \<times> 's world"

section \<open>Chain piping\<close>

record ChainPiping =
  cp_databaseType :: StoreType
  cp_consistency :: CONSISTENCY
  cp_concurrent :: bool

definition NewChainPiping :: "StoreType \<Rightarrow> CONSISTENCY \<Rightarrow> bool \<Rightarrow> ChainPiping" where
  "NewChainPiping databaseType consistency concurrent =
     \<lparr>cp_databaseType = databaseType, cp_consistency = consistency, cp_concurrent = concurrent\<rparr>"

definition cp_Read :: "'s redis_api \<Rightarrow> nat \<Rightarrow> ChainPiping \<Rightarrow> Revision \<Rightarrow> ('s, string) op" where
  "cp_Read api idx c r w =
     (case NewChain (cp_databaseType c) (nodes r) w of
        (Ok ch, w1) \<Rightarrow> chain_Read api idx ch (Revision_String r) (cp_consistency c) w1
      | (Err e, w1) \<Rightarrow> (Err e, w1)
      | (Panic p, w1) \<Rightarrow> (Panic p, w1))"

definition cp_ReadTail :: "'s redis_api \<Rightarrow> ChainPiping \<Rightarrow> Revision \<Rightarrow> ('s, string) op" where
  "cp_ReadTail api c r w =
     (case NewChain (cp_databaseType c) (nodes r) w of
        (Ok ch, w1) \<Rightarrow>
          (case GetTail ch of None \<Rightarrow> (Panic NilDereference, w1) | Some n \<Rightarrow> node_Read api n (Revision_String r) w1)
      | (Err e, w1) \<Rightarrow> (Err e, w1)
      | (Panic p, w1) \<Rightarrow> (Panic p, w1))"

text \<open>The databases of a chain, from the head on.\<close>

fun node_dbs :: "ChainNode \<Rightarrow> Database option list" where
  "node_dbs (ChainNode i db nxt) = db # (case nxt of None \<Rightarrow> [] | Some n \<Rightarrow> node_dbs n)"

definition chain_dbs :: "Chain \<Rightarrow> Database option list" where
  "chain_dbs c = (case GetHead c of None \<Rightarrow> [] | Some n \<Rightarrow> node_dbs n)"

text \<open>The goroutines of a concurrent write: errors are recorded in the trace only; a panic ends the
  program.\<close>

fun put_all :: "'s redis_api \<Rightarrow> Database option list \<Rightarrow> string \<Rightarrow> string \<Rightarrow> ('s, unit) op" where
  "put_all api [] key val w = (Ok (), w)"
| "put_all api (None # ds) key val w = (Panic NilDereference, w)"
| "put_all api (Some d # ds) key val w =
     (case db_Put api d key val w of (Panic p, w1) \<Rightarrow> (Panic p, w1) | (_, w1) \<Rightarrow> put_all api ds key val w1)"

fun delete_all :: "'s redis_api \<Rightarrow> Database option list \<Rightarrow> string \<Rightarrow> ('s, unit) op" where
  "delete_all api [] key w = (Ok (), w)"
| "delete_all api (None # ds) key w = (Panic NilDereference, w)"
| "delete_all api (Some d # ds) key w =
     (case db_Delete api d key w of (Panic p, w1) \<Rightarrow> (Panic p, w1) | (_, w1) \<Rightarrow> delete_all api ds key w1)"

definition cp_Write :: "'s redis_api \<Rightarrow> (Database option list \<Rightarrow> Database option list) \<Rightarrow> ChainPiping \<Rightarrow> Revision \<Rightarrow> string
    \<Rightarrow> ('s, unit) piping_op" where
  "cp_Write api ord c r val w =
     (case NewChain (cp_databaseType c) (nodes r) w of
        (Err e, w1) \<Rightarrow> (Err e, [], w1)
      | (Panic p, w1) \<Rightarrow> (Panic p, [], w1)
      | (Ok ch, w1) \<Rightarrow>
          if cp_concurrent c
          then (case put_all api (ord (chain_dbs ch)) (Revision_String r) val w1 of (res, w2) \<Rightarrow> (res, [], w2))
          else (case chain_Write api ch (Revision_String r) val (cp_consistency c) w1 of
                  (Panic p, js, w2) \<Rightarrow> (Panic p, map ChainJob js, w2)
                | (_, js, w2) \<Rightarrow> (Ok (), map ChainJob js, w2)))"

definition cp_Delete :: "'s redis_api \<Rightarrow> (Database option list \<Rightarrow> Database option list) \<Rightarrow> ChainPiping \<Rightarrow> Revision
    \<Rightarrow> ('s, unit) piping_op" where
  "cp_Delete api ord c r w =
     (case NewChain (cp_databaseType c) (nodes r) w of
        (Err e, w1) \<Rightarrow> (Err e, [], w1)
      | (Panic p, w1) \<Rightarrow> (Panic p, [], w1)
      | (Ok ch, w1) \<Rightarrow>
          if cp_concurrent c
          then (case delete_all api (ord (chain_dbs ch)) (Revision_String r) w1 of (res, w2) \<Rightarrow> (res, [], w2))
          else (case chain_Delete api ch (Revision_String r) (cp_consistency c) w1 of
                  (Panic p, js, w2) \<Rightarrow> (Panic p, map ChainJob js, w2)
                | (_, js, w2) \<Rightarrow> (Ok (), map ChainJob js, w2)))"

section \<open>Synchronous and asynchronous piping\<close>

record SyncAsyncPiping =
  sap_databaseType :: StoreType

definition NewSyncAsyncPiping :: "StoreType \<Rightarrow> SyncAsyncPiping" where
  "NewSyncAsyncPiping storeType = \<lparr>sap_databaseType = storeType\<rparr>"

text \<open>\<^verbatim>\<open>splitStores\<close>: the first string lists the synchronous stores, the second of two the asynchronous
  ones.\<close>

definition splitStores :: "string list \<Rightarrow> (string list \<times> string list) result" where
  "splitStores stores =
     (if length stores < 1 then Err (ErrorString ''no stores in the revision'')
      else let syncNodes = Split (stores ! 0) '','' in
           if length syncNodes < 1 then Err (ErrorString ''no sync stores in the revision'')
           else Ok (syncNodes, if length stores = 2 then Split (stores ! 1) '','' else []))"

text \<open>\<^verbatim>\<open>FactoryWithNameAndLatency\<close> followed by the operation; the errors of the goroutines that put and
  delete are recorded in the trace only.\<close>

definition store_put :: "KVConfiguration \<Rightarrow> 's redis_api \<Rightarrow> StoreType \<Rightarrow> string \<Rightarrow> string \<Rightarrow> string \<Rightarrow> ('s, unit) op" where
  "store_put conf api ty name key val w =
     (case FactoryWithNameAndLatency conf ty name 0 w of
        (Ok db, w1) \<Rightarrow> (case db_Put api db key val w1 of (Panic p, w2) \<Rightarrow> (Panic p, w2) | (_, w2) \<Rightarrow> (Ok (), w2))
      | (Err e, w1) \<Rightarrow> (Ok (), w1)
      | (Panic p, w1) \<Rightarrow> (Panic p, w1))"

definition store_delete :: "KVConfiguration \<Rightarrow> 's redis_api \<Rightarrow> StoreType \<Rightarrow> string \<Rightarrow> string \<Rightarrow> ('s, unit) op" where
  "store_delete conf api ty name key w =
     (case FactoryWithNameAndLatency conf ty name 0 w of
        (Ok db, w1) \<Rightarrow> (case db_Delete api db key w1 of (Panic p, w2) \<Rightarrow> (Panic p, w2) | (_, w2) \<Rightarrow> (Ok (), w2))
      | (Err e, w1) \<Rightarrow> (Ok (), w1)
      | (Panic p, w1) \<Rightarrow> (Panic p, w1))"

definition store_get :: "KVConfiguration \<Rightarrow> 's redis_api \<Rightarrow> StoreType \<Rightarrow> string \<Rightarrow> string \<Rightarrow> ('s, string) op" where
  "store_get conf api ty name key w =
     (case FactoryWithNameAndLatency conf ty name 0 w of
        (Err e, w1) \<Rightarrow> (Err e, w1)
      | (Panic p, w1) \<Rightarrow> (Panic p, w1)
      | (Ok db, w1) \<Rightarrow> db_Get api db key w1)"

text \<open>The synchronous goroutines; an empty name is skipped.\<close>

fun sync_puts :: "KVConfiguration \<Rightarrow> 's redis_api \<Rightarrow> StoreType \<Rightarrow> string list \<Rightarrow> string \<Rightarrow> string \<Rightarrow> ('s, unit) op" where
  "sync_puts conf api ty [] key val w = (Ok (), w)"
| "sync_puts conf api ty (n # ns) key val w =
     (if length n < 1 then sync_puts conf api ty ns key val w
      else case store_put conf api ty n key val w of
             (Panic p, w1) \<Rightarrow> (Panic p, w1) | (_, w1) \<Rightarrow> sync_puts conf api ty ns key val w1)"

fun sync_deletes :: "KVConfiguration \<Rightarrow> 's redis_api \<Rightarrow> StoreType \<Rightarrow> string list \<Rightarrow> string \<Rightarrow> ('s, unit) op" where
  "sync_deletes conf api ty [] key w = (Ok (), w)"
| "sync_deletes conf api ty (n # ns) key w =
     (if length n < 1 then sync_deletes conf api ty ns key w
      else case store_delete conf api ty n key w of
             (Panic p, w1) \<Rightarrow> (Panic p, w1) | (_, w1) \<Rightarrow> sync_deletes conf api ty ns key w1)"

definition sap_Read :: "KVConfiguration \<Rightarrow> 's redis_api \<Rightarrow> SyncAsyncPiping \<Rightarrow> Revision \<Rightarrow> ('s, string) op" where
  "sap_Read conf api sap r w =
     (case splitStores (nodes r) of
        Err e \<Rightarrow> (Err e, w)
      | Panic p \<Rightarrow> (Panic p, w)
      | Ok (syncNodes, asyncNodes) \<Rightarrow>
          if 0 < length syncNodes \<or> 0 < length asyncNodes then
            (let target = (if 0 < length syncNodes then syncNodes ! 0 else asyncNodes ! 0) in
             store_get conf api (sap_databaseType sap) target (Revision_String r) w)
          else (Err (ErrorString (''the rev '' @ Revision_String r @ '' does not have any nodes'')), w))"

definition sap_Write :: "KVConfiguration \<Rightarrow> 's redis_api \<Rightarrow> (string list \<Rightarrow> string list) \<Rightarrow> SyncAsyncPiping \<Rightarrow> Revision \<Rightarrow> string
    \<Rightarrow> ('s, unit) piping_op" where
  "sap_Write conf api ord sap r val w =
     (case splitStores (nodes r) of
        Err e \<Rightarrow> (Err e, [], w)
      | Panic p \<Rightarrow> (Panic p, [], w)
      | Ok (syncNodes, asyncNodes) \<Rightarrow>
          (let jobs = map (\<lambda>n. AsyncPut n (Revision_String r) val) (filter (\<lambda>n. \<not> length n < 1) asyncNodes) in
           case sync_puts conf api (sap_databaseType sap) (ord syncNodes) (Revision_String r) val w of
             (res, w1) \<Rightarrow> (res, jobs, w1)))"

definition sap_Delete :: "KVConfiguration \<Rightarrow> 's redis_api \<Rightarrow> (string list \<Rightarrow> string list) \<Rightarrow> SyncAsyncPiping \<Rightarrow> Revision
    \<Rightarrow> ('s, unit) piping_op" where
  "sap_Delete conf api ord sap r w =
     (case splitStores (nodes r) of
        Err e \<Rightarrow> (Err e, [], w)
      | Panic p \<Rightarrow> (Panic p, [], w)
      | Ok (syncNodes, asyncNodes) \<Rightarrow>
          (let jobs = map (\<lambda>n. AsyncDelete n (Revision_String r)) (filter (\<lambda>n. \<not> length n < 1) asyncNodes) in
           case sync_deletes conf api (sap_databaseType sap) (ord syncNodes) (Revision_String r) w of
             (res, w1) \<Rightarrow> (res, jobs, w1)))"

section \<open>Pending jobs\<close>

primrec run_job :: "KVConfiguration \<Rightarrow> 's redis_api \<Rightarrow> StoreType \<Rightarrow> job \<Rightarrow> ('s, unit) op" where
  "run_job conf api ty (ChainJob j) w =
     (case run_chain_job api j w of (Panic p, w1) \<Rightarrow> (Panic p, w1) | (_, w1) \<Rightarrow> (Ok (), w1))"
| "run_job conf api ty (AsyncPut n key val) w = store_put conf api ty n key val w"
| "run_job conf api ty (AsyncDelete n key) w = store_delete conf api ty n key w"

fun run_jobs :: "KVConfiguration \<Rightarrow> 's redis_api \<Rightarrow> StoreType \<Rightarrow> job list \<Rightarrow> 's world \<Rightarrow> 's world" where
  "run_jobs conf api ty [] w = w"
| "run_jobs conf api ty (j # js) w = run_jobs conf api ty js (snd (run_job conf api ty j w))"

section \<open>The interface \<open>Piping\<close>\<close>

datatype Piping = ChainP ChainPiping | SyncAsyncP SyncAsyncPiping

text \<open>The choices of the scheduler and of \<^verbatim>\<open>rand.Intn\<close> that one call depends on.\<close>

record choices =
  read_idx :: nat
  db_order :: "Database option list \<Rightarrow> Database option list"
  name_order :: "string list \<Rightarrow> string list"

fun piping_Read :: "KVConfiguration \<Rightarrow> 's redis_api \<Rightarrow> choices \<Rightarrow> Piping \<Rightarrow> Revision \<Rightarrow> ('s, string) op" where
  "piping_Read conf api ch (ChainP p) r w = cp_Read api (read_idx ch) p r w"
| "piping_Read conf api ch (SyncAsyncP p) r w = sap_Read conf api p r w"

fun piping_Write :: "KVConfiguration \<Rightarrow> 's redis_api \<Rightarrow> choices \<Rightarrow> Piping \<Rightarrow> Revision \<Rightarrow> string \<Rightarrow> ('s, unit) piping_op" where
  "piping_Write conf api ch (ChainP p) r val w = cp_Write api (db_order ch) p r val w"
| "piping_Write conf api ch (SyncAsyncP p) r val w = sap_Write conf api (name_order ch) p r val w"

fun piping_Delete :: "KVConfiguration \<Rightarrow> 's redis_api \<Rightarrow> choices \<Rightarrow> Piping \<Rightarrow> Revision \<Rightarrow> ('s, unit) piping_op" where
  "piping_Delete conf api ch (ChainP p) r w = cp_Delete api (db_order ch) p r w"
| "piping_Delete conf api ch (SyncAsyncP p) r w = sap_Delete conf api (name_order ch) p r w"

definition fair :: "choices \<Rightarrow> bool" where
  "fair ch \<longleftrightarrow> (\<forall>ds. mset (db_order ch ds) = mset ds) \<and> (\<forall>ns. mset (name_order ch ns) = mset ns)"


section \<open>Stores by name keep the contract of a database\<close>

lemma Memory_not_Redis [simp]: "Memory \<noteq> Redis" "Redis \<noteq> Memory"
  by (simp_all add: store_types)

lemma mem_store:
  "store_put conf api Memory n k v w = (Ok (), snd (mem_Put n k v (snd (NewMemDatabase n w))))"
  "store_get conf api Memory n k w = mem_Get n k (snd (NewMemDatabase n w))"
  "store_delete conf api Memory n k w = (Ok (), snd (mem_Delete n k (snd (NewMemDatabase n w))))"
  by (auto simp: store_put_def store_get_def store_delete_def FactoryWithNameAndLatency_def NewMemDatabase_def
      mem_Put_def mem_Delete_def split: option.splits)

interpretation ms: kv_backend "store_put conf api Memory" "store_get conf api Memory" "store_delete conf api Memory"
  mem_content "\<lambda>n. n" "\<lambda>n w. True" for conf api
proof
  fix n k v r w w'
  assume "store_put conf api Memory n k v w = (r, w')"
  then show "(\<exists>s. r = Ok s) \<and> mem_content w' = (mem_content w)(n := (mem_content w n)(k \<mapsto> v)) \<and> (\<forall>e. True \<longrightarrow> True)"
    by (auto simp: mem_store mem_Put_content NewMemDatabase_content)
next
  fix n k g w w'
  assume "store_get conf api Memory n k w = (g, w')"
  then show "(\<forall>v. mem_content w n k = Some v \<longrightarrow> g = Ok v) \<and> mem_content w' = mem_content w \<and> (\<forall>e. True \<longrightarrow> True) \<and>
      (mem_content w n k = None \<longrightarrow> g \<in> missing_value)"
    using NewMemDatabase_content [of n w] mem.get_law [of "MemDatabase n" api k "snd (NewMemDatabase n w)" g w']
    by (simp add: mem_store)
next
  fix n k q w w'
  assume "store_delete conf api Memory n k w = (q, w')"
  then show "q = Ok () \<and> mem_content w' = (mem_content w)(n := (mem_content w n)(k := None)) \<and> (\<forall>e. True \<longrightarrow> True)"
    by (auto simp: mem_store mem_Delete_content NewMemDatabase_content)
qed

text \<open>The Redis pools that exist, or that the first call makes.\<close>

definition pool_urls :: "KVConfiguration \<Rightarrow> 's world \<Rightarrow> string set" where
  "pool_urls conf w = (case pools w of None \<Rightarrow> store_url ` set (Stores conf) | Some ps \<Rightarrow> set ps)"

definition redis_usable :: "KVConfiguration \<Rightarrow> ('s \<Rightarrow> string \<Rightarrow> bool) \<Rightarrow> string \<Rightarrow> 's world \<Rightarrow> bool" where
  "redis_usable conf up n w \<longleftrightarrow> n \<in> pool_urls conf w \<and> up (redis w) n"

lemma set_InitStorageInstancePool:
  assumes "pools (InitStorageInstancePool stores w) = Some ps"
  shows "set ps = store_url ` set stores"
proof -
  have "set (foldl (\<lambda>ps s. initPool (store_Host s) (store_Port s) ps) qs stores) = set qs \<union> store_url ` set stores" for qs
    by (induction stores arbitrary: qs) (auto simp: initPool_def store_url_def Let_def)
  from this [of "[]"] assms show ?thesis by (simp add: InitStorageInstancePool_def)
qed

lemma redis_factory:
  assumes "redis_usable conf up n w"
  obtains w1 where "FactoryWithNameAndLatency conf Redis n 0 w = (Ok (RedisDatabase (Some n) 0), w1)"
    and "redis w1 = redis w" and "pool_urls conf w1 = pool_urls conf w" and "redis_ok up (RedisDatabase (Some n) 0) w1"
proof (cases "pools w")
  case None
  let ?w1 = "InitStorageInstancePool (Stores conf) w"
  obtain ps where ps: "pools ?w1 = Some ps" by (simp add: InitStorageInstancePool_def)
  have "redis ?w1 = redis w" by (simp add: InitStorageInstancePool_def)
  moreover have "set ps = store_url ` set (Stores conf)" by (rule set_InitStorageInstancePool [OF ps])
  ultimately show thesis using that [of ?w1] None ps assms
    by (simp add: FactoryWithNameAndLatency_def createRedisDatabase_def redis_usable_def pool_urls_def redis_ok_def)
next
  case (Some ps)
  then show thesis using that [of w] assms
    by (simp add: FactoryWithNameAndLatency_def createRedisDatabase_def redis_usable_def pool_urls_def redis_ok_def)
qed


lemma redis_call_pools: "redis_call api cl cmd w = (r, w') \<Longrightarrow> pools w' = pools w"
  by (auto simp: redis_call_def split: option.splits prod.splits sum.splits)

lemma redis_op_pool_urls:
  "db_Put api (RedisDatabase cl l) k v w = (r, w') \<Longrightarrow> pool_urls conf w' = pool_urls conf w"
  "db_Get api (RedisDatabase cl l) k w = (r, w') \<Longrightarrow> pool_urls conf w' = pool_urls conf w"
  "db_Delete api (RedisDatabase cl l) k w = (q, w') \<Longrightarrow> pool_urls conf w' = pool_urls conf w"
  by (auto simp: pool_urls_def split: prod.splits dest: redis_call_pools)

lemma redis_usable_trans:
  assumes "redis_service api store up" and "redis_usable conf up e w"
    and "redis w1 = redis w" and "pool_urls conf w1 = pool_urls conf w" and "pool_urls conf w2 = pool_urls conf w1"
    and "\<forall>x. redis_ok up x w1 \<longrightarrow> redis_ok up x w2"
  shows "redis_usable conf up e w2"
proof -
  have "redis_ok up (RedisDatabase (Some e) 0) w1" using assms(2,3) by (simp add: redis_usable_def redis_ok_def)
  then have "redis_ok up (RedisDatabase (Some e) 0) w2" using assms(6) by blast
  then show ?thesis using assms(2,4,5) by (simp add: redis_usable_def redis_ok_def)
qed

lemma redis_store_backend:
  assumes "redis_service api store up"
  shows "kv_backend (store_put conf api Redis) (store_get conf api Redis) (store_delete conf api Redis)
    (\<lambda>w. store (redis w)) (\<lambda>n. n) (redis_usable conf up)"
proof
  fix n k v r w w'
  assume u: "redis_usable conf up n w" and p: "store_put conf api Redis n k v w = (r, w')"
  obtain w1 where f: "FactoryWithNameAndLatency conf Redis n 0 w = (Ok (RedisDatabase (Some n) 0), w1)"
    and w1: "redis w1 = redis w" "pool_urls conf w1 = pool_urls conf w" and ok: "redis_ok up (RedisDatabase (Some n) 0) w1"
    using redis_factory [OF u] by blast
  obtain rr w2 where d: "db_Put api (RedisDatabase (Some n) 0) k v w1 = (rr, w2)" by force
  note l = kv_backend.put_law [OF redis_kv_backend [OF assms] ok d]
  have "r = Ok ()" "w' = w2" using p f d l by (auto simp: store_put_def)
  then show "(\<exists>s. r = Ok s) \<and> store (redis w') = (store (redis w))(n := (store (redis w) n)(k \<mapsto> v)) \<and>
      (\<forall>e. redis_usable conf up e w \<longrightarrow> redis_usable conf up e w')"
    using l w1 redis_usable_trans [OF assms _ w1 redis_op_pool_urls(1) [OF d]] by auto
next
  fix n k g w w'
  assume u: "redis_usable conf up n w" and p: "store_get conf api Redis n k w = (g, w')"
  obtain w1 where f: "FactoryWithNameAndLatency conf Redis n 0 w = (Ok (RedisDatabase (Some n) 0), w1)"
    and w1: "redis w1 = redis w" "pool_urls conf w1 = pool_urls conf w" and ok: "redis_ok up (RedisDatabase (Some n) 0) w1"
    using redis_factory [OF u] by blast
  have d: "db_Get api (RedisDatabase (Some n) 0) k w1 = (g, w')" using p f by (simp add: store_get_def)
  note l = kv_backend.get_law [OF redis_kv_backend [OF assms] ok d]
  show "(\<forall>v. store (redis w) n k = Some v \<longrightarrow> g = Ok v) \<and> store (redis w') = store (redis w) \<and>
      (\<forall>e. redis_usable conf up e w \<longrightarrow> redis_usable conf up e w') \<and> (store (redis w) n k = None \<longrightarrow> g \<in> missing_value)"
    using l w1 redis_usable_trans [OF assms _ w1 redis_op_pool_urls(2) [OF d]] by auto
next
  fix n k q w w'
  assume u: "redis_usable conf up n w" and p: "store_delete conf api Redis n k w = (q, w')"
  obtain w1 where f: "FactoryWithNameAndLatency conf Redis n 0 w = (Ok (RedisDatabase (Some n) 0), w1)"
    and w1: "redis w1 = redis w" "pool_urls conf w1 = pool_urls conf w" and ok: "redis_ok up (RedisDatabase (Some n) 0) w1"
    using redis_factory [OF u] by blast
  obtain qq w2 where d: "db_Delete api (RedisDatabase (Some n) 0) k w1 = (qq, w2)" by force
  note l = kv_backend.del_law [OF redis_kv_backend [OF assms] ok d]
  have "q = Ok ()" "w' = w2" using p f d l by (auto simp: store_delete_def)
  then show "q = Ok () \<and> store (redis w') = (store (redis w))(n := (store (redis w) n)(k := None)) \<and>
      (\<forall>e. redis_usable conf up e w \<longrightarrow> redis_usable conf up e w')"
    using l w1 redis_usable_trans [OF assms _ w1 redis_op_pool_urls(3) [OF d]] by auto
qed

section \<open>Synchronous writes and pending jobs under the contract\<close>

abbreviation store_contract :: "KVConfiguration \<Rightarrow> 's redis_api \<Rightarrow> StoreType \<Rightarrow>
    ('s world \<Rightarrow> string \<Rightarrow> string \<Rightarrow> string option) \<Rightarrow> (string \<Rightarrow> 's world \<Rightarrow> bool) \<Rightarrow> bool" where
  "store_contract conf api ty content ok \<equiv>
     kv_backend (store_put conf api ty) (store_get conf api ty) (store_delete conf api ty) content (\<lambda>n. n) ok"

lemma sync_puts_each:
  assumes "store_contract conf api ty content ok" and "\<forall>n \<in> set ns. n \<noteq> [] \<longrightarrow> ok n w"
  shows "sync_puts conf api ty ns key val w =
    (Ok (), kv_backend.put_each (store_put conf api ty) (filter (\<lambda>n. n \<noteq> []) ns) key val w)"
  using assms(2)
proof (induction ns arbitrary: w)
  case Nil
  show ?case by (simp add: kv_backend.put_each_def [OF assms(1)])
next
  case (Cons n ns)
  obtain r w1 where p: "store_put conf api ty n key val w = (r, w1)" by force
  show ?case
  proof (cases "n = []")
    case True
    then show ?thesis using Cons by simp
  next
    case False
    then have "\<exists>s. r = Ok s" "\<forall>m \<in> set ns. m \<noteq> [] \<longrightarrow> ok m w1"
      using kv_backend.put_law [OF assms(1) _ p] Cons.prems by auto
    then show ?thesis using Cons.IH [of w1] p False by (auto simp: kv_backend.put_each_def [OF assms(1)] Suc_le_eq)
  qed
qed

lemma sync_deletes_each:
  assumes "store_contract conf api ty content ok" and "\<forall>n \<in> set ns. n \<noteq> [] \<longrightarrow> ok n w"
  shows "sync_deletes conf api ty ns key w =
    (Ok (), kv_backend.del_each (store_delete conf api ty) (filter (\<lambda>n. n \<noteq> []) ns) key w)"
  using assms(2)
proof (induction ns arbitrary: w)
  case Nil
  show ?case by (simp add: kv_backend.del_each_def [OF assms(1)])
next
  case (Cons n ns)
  obtain r w1 where p: "store_delete conf api ty n key w = (r, w1)" by force
  show ?case
  proof (cases "n = []")
    case True
    then show ?thesis using Cons by simp
  next
    case False
    then have "r = Ok ()" "\<forall>m \<in> set ns. m \<noteq> [] \<longrightarrow> ok m w1"
      using kv_backend.del_law [OF assms(1) _ p] Cons.prems by auto
    then show ?thesis using Cons.IH [of w1] p False by (auto simp: kv_backend.del_each_def [OF assms(1)] Suc_le_eq)
  qed
qed

lemma run_jobs_puts:
  assumes "store_contract conf api ty content ok"
  shows "run_jobs conf api ty (map (\<lambda>n. AsyncPut n key val) ns) w = kv_backend.put_each (store_put conf api ty) ns key val w"
  by (induction ns arbitrary: w) (simp_all add: kv_backend.put_each_def [OF assms])

text \<open>Store names as \<^verbatim>\<open>GetNodes\<close> joins them.\<close>

definition names_ok :: "string list \<Rightarrow> bool" where
  "names_ok ns \<longleftrightarrow> (\<forall>n \<in> set ns. n \<noteq> [] \<and> CHR '','' \<notin> set n)"

lemma Split_names:
  assumes "names_ok ns"
  shows "filter (\<lambda>n. n \<noteq> []) (Split (Join ns '','') '','') = ns" and "ns \<noteq> [] \<Longrightarrow> Split (Join ns '','') '','' = ns"
proof -
  show s: "Split (Join ns '','') '','' = ns" if "ns \<noteq> []"
    using Split_Join [of ns "CHR '',''"] that assms by (simp add: names_ok_def)
  show "filter (\<lambda>n. n \<noteq> []) (Split (Join ns '','') '','') = ns"
    using s assms by (cases "ns = []") (auto simp: names_ok_def)
qed


lemma splitStores_joined:
  "splitStores [Join sns '','', Join ans '',''] = Ok (Split (Join sns '','') '','', Split (Join ans '','') '','')"
  using Split_nonempty [of "'',''" "Join sns '',''"] by (auto simp: splitStores_def Let_def Suc_le_eq)

lemma sap_split:
  assumes "nodes r = [Join sns '','', Join ans '','']" and "names_ok sns" and "sns \<noteq> []"
  shows "splitStores (nodes r) = Ok (sns, Split (Join ans '','') '','')"
  using splitStores_joined [of sns ans] Split_names(2) [OF assms(2,3)] assms(1) by simp

lemma ord_names:
  assumes "mset os = mset sns" and "names_ok sns"
  shows "set os = set sns" and "filter (\<lambda>n. n \<noteq> []) os = os"
proof -
  show s: "set os = set sns" using assms(1) by (metis set_mset_mset)
  show "filter (\<lambda>n. n \<noteq> []) os = os" using assms(2) s by (auto simp: names_ok_def filter_id_conv)
qed

lemma sap_Write_law:
  assumes "store_contract conf api (sap_databaseType sap) content ok"
    and "nodes r = [Join sns '','', Join ans '','']" and "names_ok sns" and "names_ok ans" and "sns \<noteq> []"
    and "\<forall>n \<in> set sns. ok n w" and "mset (ord sns) = mset sns"
    and "sap_Write conf api ord sap r val w = (res, jobs, w1)"
  shows "res = Ok ()" and "jobs = map (\<lambda>n. AsyncPut n (Revision_String r) val) ans"
    and "content w1 = (\<lambda>i. if i \<in> set sns then (content w i)(Revision_String r \<mapsto> val) else content w i)"
    and "\<forall>e. ok e w \<longrightarrow> ok e w1"
proof -
  let ?k = "Revision_String r" and ?ty = "sap_databaseType sap"
  note o = ord_names [OF assms(7,3)]
  have ok: "\<forall>n \<in> set (ord sns). ok n w" using assms(6) o(1) by blast
  have p: "sync_puts conf api ?ty (ord sns) ?k val w =
      (Ok (), kv_backend.put_each (store_put conf api ?ty) (ord sns) ?k val w)"
    using sync_puts_each [OF assms(1), of "ord sns" w ?k val] ok o(2) by simp
  have "(\<lambda>n. \<not> length n < 1) = (\<lambda>n :: string. n \<noteq> [])" by (auto simp: Suc_le_eq)
  then have e: "res = Ok () \<and> jobs = map (\<lambda>n. AsyncPut n ?k val) ans \<and>
      w1 = kv_backend.put_each (store_put conf api ?ty) (ord sns) ?k val w"
    using assms(8) sap_split [OF assms(2,3,5)] p Split_names(1) [OF assms(4)]
    by (simp add: sap_Write_def del: length_greater_0_conv)
  then show "res = Ok ()" and "jobs = map (\<lambda>n. AsyncPut n ?k val) ans" by simp_all
  from kv_backend.put_each_law [OF assms(1) ok, of ?k val] e o(1)
  show "content w1 = (\<lambda>i. if i \<in> set sns then (content w i)(?k \<mapsto> val) else content w i)"
    and "\<forall>e. ok e w \<longrightarrow> ok e w1" by simp_all
qed

lemma sap_Delete_law:
  assumes "store_contract conf api (sap_databaseType sap) content ok"
    and "nodes r = [Join sns '','', Join ans '','']" and "names_ok sns" and "names_ok ans" and "sns \<noteq> []"
    and "\<forall>n \<in> set sns. ok n w" and "mset (ord sns) = mset sns"
    and "sap_Delete conf api ord sap r w = (res, jobs, w1)"
  shows "res = Ok ()" and "jobs = map (\<lambda>n. AsyncDelete n (Revision_String r)) ans"
    and "content w1 = (\<lambda>i. if i \<in> set sns then (content w i)(Revision_String r := None) else content w i)"
    and "\<forall>e. ok e w \<longrightarrow> ok e w1"
proof -
  let ?k = "Revision_String r" and ?ty = "sap_databaseType sap"
  note o = ord_names [OF assms(7,3)]
  have ok: "\<forall>n \<in> set (ord sns). ok n w" using assms(6) o(1) by blast
  have p: "sync_deletes conf api ?ty (ord sns) ?k w =
      (Ok (), kv_backend.del_each (store_delete conf api ?ty) (ord sns) ?k w)"
    using sync_deletes_each [OF assms(1), of "ord sns" w ?k] ok o(2) by simp
  have "(\<lambda>n. \<not> length n < 1) = (\<lambda>n :: string. n \<noteq> [])" by (auto simp: Suc_le_eq)
  then have e: "res = Ok () \<and> jobs = map (\<lambda>n. AsyncDelete n ?k) ans \<and>
      w1 = kv_backend.del_each (store_delete conf api ?ty) (ord sns) ?k w"
    using assms(8) sap_split [OF assms(2,3,5)] p Split_names(1) [OF assms(4)]
    by (simp add: sap_Delete_def del: length_greater_0_conv)
  then show "res = Ok ()" and "jobs = map (\<lambda>n. AsyncDelete n ?k) ans" by simp_all
  from kv_backend.del_each_law [OF assms(1) ok, of ?k] e o(1)
  show "content w1 = (\<lambda>i. if i \<in> set sns then (content w i)(?k := None) else content w i)"
    and "\<forall>e. ok e w \<longrightarrow> ok e w1" by simp_all
qed

lemma sap_Read_law:
  assumes "store_contract conf api (sap_databaseType sap) content ok"
    and "nodes r = [Join sns '','', Join ans '','']" and "names_ok sns" and "sns \<noteq> []"
    and "ok (sns ! 0) w" and "sap_Read conf api sap r w = (res, w1)"
  shows "content w (sns ! 0) (Revision_String r) = Some val \<Longrightarrow> res = Ok val"
    and "content w1 = content w" and "\<forall>e. ok e w \<longrightarrow> ok e w1" and "\<forall>p. res \<noteq> Panic p"
    and "content w (sns ! 0) (Revision_String r) = None \<Longrightarrow> res \<in> missing_value"
proof -
  have "store_get conf api (sap_databaseType sap) (sns ! 0) (Revision_String r) w = (res, w1)"
    using assms(4,6) sap_split [OF assms(2-4)] by (simp add: sap_Read_def)
  note l = kv_backend.get_law [OF assms(1,5) this]
  then show "content w (sns ! 0) (Revision_String r) = Some val \<Longrightarrow> res = Ok val"
    and "content w1 = content w" and "\<forall>e. ok e w \<longrightarrow> ok e w1"
    and "content w (sns ! 0) (Revision_String r) = None \<Longrightarrow> res \<in> missing_value" by simp_all
  show "\<forall>p. res \<noteq> Panic p"
    using l by (cases "content w (sns ! 0) (Revision_String r)") (auto simp: missing_value_def)
qed

lemma run_put_jobs:
  assumes "store_contract conf api ty content ok" and "\<forall>n \<in> set ans. ok n w"
    and "mset js = mset (map (\<lambda>n. AsyncPut n key val) ans)"
  shows "content (run_jobs conf api ty js w) = (\<lambda>i. if i \<in> set ans then (content w i)(key \<mapsto> val) else content w i)"
proof -
  have s: "set js = (\<lambda>n. AsyncPut n key val) ` set ans" using assms(3) by (metis set_mset_mset set_map)
  then obtain ms where ms: "js = map (\<lambda>n. AsyncPut n key val) ms"
    using list_in_image [of js "\<lambda>n. AsyncPut n key val" "set ans"] by auto
  have e: "set ms = set ans" using s ms by auto
  then have "\<forall>n \<in> set ms. ok n w" using assms(2) by blast
  from kv_backend.put_each_law [OF assms(1) this, of key val] show ?thesis
    unfolding ms run_jobs_puts [OF assms(1)] by (simp add: e)
qed

section \<open>Properties\<close>

text \<open>C33: A write through the synchronous/asynchronous piping stores the value in every synchronous
  replica before it returns, whatever the order of the goroutines, and touches nothing else; a read
  of the revision then returns the value; and once the pending jobs have run, in any order, every
  asynchronous replica holds the value too.\<close>

theorem sync_async_write_then_read:
  assumes "store_contract conf api (sap_databaseType sap) content ok"
    and "nodes r = [Join sns '','', Join ans '','']" and "names_ok sns" and "names_ok ans" and "sns \<noteq> []"
    and "\<forall>n \<in> set sns \<union> set ans. ok n w" and "mset (ord sns) = mset sns"
    and "sap_Write conf api ord sap r val w = (res, jobs, w1)"
  shows "res = Ok () \<and>
    content w1 = (\<lambda>i. if i \<in> set sns then (content w i)(Revision_String r \<mapsto> val) else content w i) \<and>
    fst (sap_Read conf api sap r w1) = Ok val \<and>
    (\<forall>js. mset js = mset jobs \<longrightarrow> content (run_jobs conf api (sap_databaseType sap) js w1) =
       (\<lambda>i. if i \<in> set sns \<union> set ans then (content w i)(Revision_String r \<mapsto> val) else content w i))"
proof -
  have oks: "\<forall>n \<in> set sns. ok n w" and oka: "\<forall>n \<in> set ans. ok n w" using assms(6) by auto
  note W = sap_Write_law [OF assms(1-5) oks assms(7,8)]
  obtain g w2 where g: "sap_Read conf api sap r w1 = (g, w2)" by force
  have "sns ! 0 \<in> set sns" using assms(5) by simp
  then have "g = Ok val" using sap_Read_law(1) [OF assms(1,2,3,5) _ g] W(3,4) oks by auto
  moreover have "content (run_jobs conf api (sap_databaseType sap) js w1) =
      (\<lambda>i. if i \<in> set sns \<union> set ans then (content w i)(Revision_String r \<mapsto> val) else content w i)"
    if "mset js = mset jobs" for js
    using run_put_jobs [OF assms(1), of ans w1 js "Revision_String r" val] that W oka by (auto simp: fun_eq_iff)
  ultimately show ?thesis using W(1,3) g by simp
qed

theorem sync_async_write_then_read_witness:
  "\<exists>jobs w1. sap_Write demo_conf list_redis List.rev (NewSyncAsyncPiping Memory) (NewRevision 7 0 [''a,bb'', ''ccc'']) ''v'' empty_world
      = (Ok (), jobs, w1) \<and>
     fst (sap_Read demo_conf list_redis (NewSyncAsyncPiping Memory) (NewRevision 7 0 [''a,bb'', ''ccc'']) w1) = Ok ''v''"
proof -
  let ?r = "NewRevision 7 0 [''a,bb'', ''ccc'']"
  obtain res jobs w1 where w: "sap_Write demo_conf list_redis List.rev (NewSyncAsyncPiping Memory) ?r ''v'' empty_world = (res, jobs, w1)"
    by (metis prod_cases3)
  have "nodes ?r = [Join [''a'', ''bb''] '','', Join [''ccc''] '','']" by (simp add: NewRevision_def)
  moreover have "store_contract demo_conf list_redis (sap_databaseType (NewSyncAsyncPiping Memory)) mem_content (\<lambda>n w. True)"
    using ms.kv_backend_axioms by (simp add: NewSyncAsyncPiping_def)
  ultimately show ?thesis
    using sync_async_write_then_read [of demo_conf list_redis "NewSyncAsyncPiping Memory" mem_content "\<lambda>n w. True" ?r
        "[''a'', ''bb'']" "[''ccc'']" empty_world List.rev "''v''" res jobs w1] w
    by (simp add: names_ok_def)
qed

text \<open>The same guarantee on Redis: when the server answers as documented and the pools of the
  replicas exist or are made by the first call, the value written to the synchronous replicas is
  what a read returns.\<close>

theorem sync_async_redis_write_then_read:
  assumes "redis_service api store up" and "nodes r = [Join sns '','', Join ans '','']"
    and "names_ok sns" and "names_ok ans" and "sns \<noteq> []"
    and "\<forall>n \<in> set sns \<union> set ans. n \<in> pool_urls conf w \<and> up (redis w) n" and "mset (ord sns) = mset sns"
    and "sap_Write conf api ord (NewSyncAsyncPiping Redis) r val w = (res, jobs, w1)"
  shows "res = Ok () \<and> fst (sap_Read conf api (NewSyncAsyncPiping Redis) r w1) = Ok val \<and>
    (\<forall>n \<in> set sns. store (redis w1) n (Revision_String r) = Some val)"
proof -
  have c: "store_contract conf api (sap_databaseType (NewSyncAsyncPiping Redis)) (\<lambda>w. store (redis w)) (redis_usable conf up)"
    using redis_store_backend [OF assms(1)] by (simp add: NewSyncAsyncPiping_def)
  have ok: "\<forall>n \<in> set sns \<union> set ans. redis_usable conf up n w" using assms(6) by (auto simp: redis_usable_def)
  have oks: "\<forall>n \<in> set sns. redis_usable conf up n w" using ok by blast
  note W = sap_Write_law [OF c assms(2-5) oks assms(7,8)]
  obtain g w2 where g: "sap_Read conf api (NewSyncAsyncPiping Redis) r w1 = (g, w2)" by force
  have "sns ! 0 \<in> set sns" using assms(5) by simp
  then have "g = Ok val" using sap_Read_law(1) [OF c assms(2,3,5) _ g] W(3,4) oks by auto
  then show ?thesis using W(1,3) g by simp
qed

theorem sync_async_redis_write_then_read_witness:
  "\<exists>jobs w1. sap_Write demo_conf list_redis (\<lambda>ns. ns) (NewSyncAsyncPiping Redis) (NewRevision 7 0 [''localhost:6379'', []]) ''v'' empty_world
      = (Ok (), jobs, w1) \<and>
     fst (sap_Read demo_conf list_redis (NewSyncAsyncPiping Redis) (NewRevision 7 0 [''localhost:6379'', []]) w1) = Ok ''v''"
proof -
  let ?r = "NewRevision 7 0 [''localhost:6379'', []]"
  obtain res jobs w1 where w: "sap_Write demo_conf list_redis (\<lambda>ns. ns) (NewSyncAsyncPiping Redis) ?r ''v'' empty_world = (res, jobs, w1)"
    by (metis prod_cases3)
  have "nodes ?r = [Join [''localhost:6379''] '','', Join [] '','']" by (simp add: NewRevision_def)
  moreover have "store_url (demo_store ''z'' ''a'' 1) = ''localhost:6379''"
    by (simp add: store_url_def demo_store_def decimal)
  then have "''localhost:6379'' \<in> pool_urls demo_conf empty_world" by (auto simp: pool_urls_def demo_conf_def)
  moreover have "names_ok [''localhost:6379'']" "names_ok []" by (simp_all add: names_ok_def)
  ultimately have "res = Ok () \<and> fst (sap_Read demo_conf list_redis (NewSyncAsyncPiping Redis) ?r w1) = Ok ''v''"
    using sync_async_redis_write_then_read [OF list_redis_service _ _ _ _ _ _ w, of "[''localhost:6379'']" "[]"] by auto
  with w show ?thesis by blast
qed

text \<open>Jobs that put and delete one key: the last job of a store decides what it holds.\<close>

primrec job_store :: "job \<Rightarrow> string option" where
  "job_store (ChainJob j) = None"
| "job_store (AsyncPut n key val) = Some n"
| "job_store (AsyncDelete n key) = Some n"

lemma run_mixed_jobs:
  assumes "store_contract conf api ty content ok" and "set js \<subseteq> (\<Union>n \<in> A. {AsyncPut n key val, AsyncDelete n key})" and "\<forall>n \<in> A. ok n w"
  shows "content (run_jobs conf api ty js w) i key =
    (let mine = filter (\<lambda>j. job_store j = Some i) js in
     if mine = [] then content w i key else if last mine = AsyncPut i key val then Some val else None)"
  using assms(2,3)
proof (induction js arbitrary: w)
  case (Cons j js)
  then obtain n where n: "n \<in> A" "j = AsyncPut n key val \<or> j = AsyncDelete n key" by auto
  obtain q w1 where r: "run_job conf api ty j w = (q, w1)" by force
  have ok: "ok n w" using n(1) Cons.prems(2) by blast
  have c: "content w1 = (content w)(n := (content w n)(key := (if j = AsyncPut n key val then Some val else None)))" "\<forall>e. ok e w \<longrightarrow> ok e w1"
    using n(2) r kv_backend.put_law [OF assms(1) ok, of key val q w1] kv_backend.del_law [OF assms(1) ok, of key q w1] by auto
  have "\<forall>n \<in> A. ok n w1" using c(2) Cons.prems(2) by blast
  then have IH: "content (run_jobs conf api ty js w1) i key =
    (let mine = filter (\<lambda>j. job_store j = Some i) js in
     if mine = [] then content w1 i key else if last mine = AsyncPut i key val then Some val else None)"
    using Cons.IH [of w1] Cons.prems(1) by simp
  have "job_store j = Some n" using n(2) by auto
  then show ?case using IH r c(1) by (cases "n = i") (auto simp: Let_def)
qed simp

text \<open>C40: The asynchronous put of a write and the asynchronous delete of a later removal of the same
  revision are not ordered. The removal clears the synchronous replicas, but whatever order the goroutines run in, a remote replica keeps
  the value exactly when its put runs after its delete, and there is such an order.\<close>

theorem async_put_may_overtake_delete:
  assumes "store_contract conf api (sap_databaseType sap) content ok"
    and "nodes r = [Join sns '','', Join ans '','']" and "names_ok sns" and "names_ok ans" and "sns \<noteq> []" and "set sns \<inter> set ans = {}"
    and "\<forall>n \<in> set sns \<union> set ans. ok n w" and "mset (ord sns) = mset sns" and "key = Revision_String r"
    and "sap_Write conf api ord sap r val w = (res1, jobs1, w1)" and "sap_Delete conf api ord sap r w1 = (res2, jobs2, w2)"
    and "n \<in> set ans"
  shows "res1 = Ok () \<and> res2 = Ok () \<and>
    (\<forall>js. mset js = mset (jobs1 @ jobs2) \<longrightarrow>
       (\<forall>m \<in> set sns. content (run_jobs conf api (sap_databaseType sap) js w2) m key = None) \<and>
       content (run_jobs conf api (sap_databaseType sap) js w2) n key =
         (if last (filter (\<lambda>j. job_store j = Some n) js) = AsyncPut n key val then Some val else None)) \<and>
    content (run_jobs conf api (sap_databaseType sap) (jobs2 @ jobs1) w2) n key = Some val"
proof -
  let ?ty = "sap_databaseType sap"
  have oks: "\<forall>m \<in> set sns. ok m w" and oka: "\<forall>m \<in> set ans. ok m w" using assms(7) by auto
  note W = sap_Write_law [OF assms(1-5) oks assms(8,10)]
  have oks1: "\<forall>m \<in> set sns. ok m w1" using oks W(4) by blast
  note D = sap_Delete_law [OF assms(1-5) oks1 assms(8,11)]
  have ok2: "\<forall>m \<in> set ans. ok m w2" using oka W(4) D(4) by blast
  have run: "(\<forall>m \<in> set sns. content (run_jobs conf api ?ty js w2) m key = None) \<and> content (run_jobs conf api ?ty js w2) n key =
      (if last (filter (\<lambda>j. job_store j = Some n) js) = AsyncPut n key val then Some val else None)"
    if "mset js = mset (jobs1 @ jobs2)" for js
  proof -
    have s: "set js = (\<lambda>m. AsyncPut m key val) ` set ans \<union> (\<lambda>m. AsyncDelete m key) ` set ans"
      using that W(2) D(2) assms(9) by (metis set_append set_map set_mset_mset)
    then have "set js \<subseteq> (\<Union>m \<in> set ans. {AsyncPut m key val, AsyncDelete m key})" by auto
    note R = run_mixed_jobs [OF assms(1) this ok2]
    have "content (run_jobs conf api ?ty js w2) m key = None" if m: "m \<in> set sns" for m
    proof -
      have "filter (\<lambda>j. job_store j = Some m) js = []" using s m assms(6) by (auto simp: filter_empty_conv)
      then show ?thesis using R [of m] D(3) m assms(9) by simp
    qed
    moreover have "AsyncPut n key val \<in> set (filter (\<lambda>j. job_store j = Some n) js)" using s assms(12) by simp
    then have "filter (\<lambda>j. job_store j = Some n) js \<noteq> []" by (metis empty_iff empty_set)
    ultimately show ?thesis using R [of n] by simp
  qed
  have "filter (\<lambda>j. job_store j = Some n) jobs1 \<noteq> []" using W(2) assms(12) by (auto simp: filter_empty_conv)
  then have "last (filter (\<lambda>j. job_store j = Some n) (jobs2 @ jobs1)) = last (filter (\<lambda>j. job_store j = Some n) jobs1)"
    and "last (filter (\<lambda>j. job_store j = Some n) jobs1) \<in> set (filter (\<lambda>j. job_store j = Some n) jobs1)" by (simp, blast intro: last_in_set)
  then have "last (filter (\<lambda>j. job_store j = Some n) (jobs2 @ jobs1)) = AsyncPut n key val" using W(2) assms(9) by auto
  then show ?thesis using W(1) D(1) run run [of "jobs2 @ jobs1"] by simp
qed

theorem async_put_may_overtake_delete_witness:
  "\<exists>jobs1 w1 jobs2 w2. sap_Write demo_conf list_redis (\<lambda>ns. ns) (NewSyncAsyncPiping Memory) (NewRevision 7 0 [''a'', ''b'']) ''v'' empty_world = (Ok (), jobs1, w1) \<and>
     sap_Delete demo_conf list_redis (\<lambda>ns. ns) (NewSyncAsyncPiping Memory) (NewRevision 7 0 [''a'', ''b'']) w1 = (Ok (), jobs2, w2) \<and>
     mem_content (run_jobs demo_conf list_redis Memory (jobs2 @ jobs1) w2) ''b'' (Revision_String (NewRevision 7 0 [''a'', ''b''])) = Some ''v''"
proof -
  let ?r = "NewRevision 7 0 [''a'', ''b'']" and ?sap = "NewSyncAsyncPiping Memory"
  obtain res1 jobs1 w1 where w: "sap_Write demo_conf list_redis (\<lambda>ns. ns) ?sap ?r ''v'' empty_world = (res1, jobs1, w1)" by (metis prod_cases3)
  obtain res2 jobs2 w2 where d: "sap_Delete demo_conf list_redis (\<lambda>ns. ns) ?sap ?r w1 = (res2, jobs2, w2)" by (metis prod_cases3)
  have "nodes ?r = [Join [''a''] '','', Join [''b''] '','']" by (simp add: NewRevision_def)
  moreover have "store_contract demo_conf list_redis (sap_databaseType ?sap) mem_content (\<lambda>n w. True)"
    using ms.kv_backend_axioms by (simp add: NewSyncAsyncPiping_def)
  moreover have "names_ok [''a'']" "names_ok [''b'']" by (simp_all add: names_ok_def)
  ultimately show ?thesis
    using async_put_may_overtake_delete [of demo_conf list_redis ?sap mem_content "\<lambda>n w. True" ?r "[''a'']" "[''b'']" empty_world "\<lambda>ns. ns"
        "Revision_String ?r" "''v''" res1 jobs1 w1 res2 jobs2 w2 "''b''"] w d
    by (simp add: NewSyncAsyncPiping_def)
qed

section \<open>Chain piping\<close>

lemma node_dbs_link: "(case link_nodes i dbs of None \<Rightarrow> [] | Some n \<Rightarrow> node_dbs n) = map Some dbs"
  by (induction dbs arbitrary: i) simp_all

lemma chain_dbs_New: "chain_dbs (NewChainWithDatbases dbs) = map Some dbs"
  by (simp add: chain_dbs_def GetHead_def NewChainWithDatbases_def node_dbs_link)

lemma fst_NewMemDatabase [simp]: "fst (NewMemDatabase n w) = MemDatabase n"
  by (simp add: NewMemDatabase_def split: option.splits)

lemma mem_handles_eq:
  "fst (mem_handles ns w) = map MemDatabase ns" "mem_content (snd (mem_handles ns w)) = mem_content w"
  by (induction ns arbitrary: w) (simp_all add: Let_def split_def NewMemDatabase_content)


lemma put_all_each:
  assumes "\<forall>d \<in> set ds. mem_handle d"
  shows "put_all api (map Some ds) key val w = (Ok (), kv_backend.put_each (db_Put api) ds key val w)"
  using assms
proof (induction ds arbitrary: w)
  case Nil
  show ?case by (simp add: mem.put_each_def)
next
  case (Cons d ds)
  obtain r w1 where p: "db_Put api d key val w = (r, w1)" by force
  then have "\<exists>s. r = Ok s" using mem.put_law [OF _ p] Cons.prems by auto
  then show ?case using Cons p by (auto simp: mem.put_each_def)
qed

text \<open>The in-memory chain piping writes every node of the revision, in the chain or concurrently.\<close>

lemma cp_Write_mem:
  assumes "cp_databaseType c = Memory" and "cp_consistency c = LINEARIZABLE" and "2 \<le> length (nodes r)"
    and "\<forall>ds. mset (ord ds) = mset ds" and "cp_Write api ord c r val w = (res, jobs, w1)"
  shows "res = Ok () \<and> jobs = [] \<and> mem_content w1 =
    (\<lambda>i. if i \<in> set (nodes r) then (mem_content w i)(Revision_String r \<mapsto> val) else mem_content w i)"
proof -
  let ?dbs = "map MemDatabase (nodes r)" and ?k = "Revision_String r"
  obtain w0 where h: "mem_handles (nodes r) w = (?dbs, w0)" and w0: "mem_content w0 = mem_content w"
    using mem_handles_eq [of "nodes r" w] by (metis prod.collapse)
  have n: "NewChain Memory (nodes r) w = (Ok (NewChainWithDatbases ?dbs), w0)"
    using assms(3) h by (auto simp: NewChain_def)
  have ids: "db_ident ` set ?dbs = set (nodes r)" by (auto simp: image_image)
  show ?thesis
  proof (cases "cp_concurrent c")
    case True
    obtain es where es: "ord (map Some ?dbs) = map Some es" "set es = set ?dbs"
    proof -
      have s: "set (ord (map Some ?dbs)) = Some ` set ?dbs" using assms(4) by (metis set_mset_mset set_map)
      then obtain es where "ord (map Some ?dbs) = map Some es" using list_in_image [of "ord (map Some ?dbs)" Some] by blast
      with s that show thesis by (metis image_set inj_image_eq_iff inj_Some)
    qed
    have mh: "\<forall>d \<in> set es. mem_handle d" using es(2) by auto
    have "res = Ok ()" "jobs = []" "w1 = kv_backend.put_each (db_Put api) es ?k val w0"
      using assms(1,5) n True by (auto simp: cp_Write_def chain_dbs_New es(1) [unfolded map_map] put_all_each [OF mh])
    then show ?thesis using mem.put_each_law [OF mh, of api ?k val w0] es(2) ids unfolding w0 by simp
  next
    case False
    have mh: "\<forall>d \<in> set ?dbs. mem_handle d" by simp
    have "write_seq api ?dbs ?k val w0 = (Ok (), kv_backend.put_each (db_Put api) ?dbs ?k val w0)"
      by (rule write_seq_each [OF mem.kv_backend_axioms mh])
    then have "res = Ok ()" "jobs = []" "w1 = kv_backend.put_each (db_Put api) ?dbs ?k val w0"
      using assms(1,2,3,5) n False by (auto simp: cp_Write_def chain_Write_seq)
    then show ?thesis using mem.put_each_law [OF mh, of api ?k val w0] ids unfolding w0 by simp
  qed
qed

text \<open>C34: A linearizable write through the chain piping on in-memory stores to a revision with at least two nodes, in the chain or with
  concurrent goroutines in any order, stores the value in every node of the revision and nothing
  else, and a read of the revision then returns it.\<close>

theorem chain_piping_write_then_read:
  assumes "cp_databaseType c = Memory" and "cp_consistency c = LINEARIZABLE" and "2 \<le> length (nodes r)"
    and "\<forall>ds. mset (ord ds) = mset ds" and "cp_Write api ord c r val w = (res, jobs, w1)"
  shows "res = Ok () \<and> jobs = [] \<and> fst (cp_Read api idx c r w1) = Ok val \<and> mem_content w1 =
    (\<lambda>i. if i \<in> set (nodes r) then (mem_content w i)(Revision_String r \<mapsto> val) else mem_content w i)"
proof -
  note W = cp_Write_mem [OF assms]
  let ?dbs = "map MemDatabase (nodes r)"
  obtain w2 where h: "mem_handles (nodes r) w1 = (?dbs, w2)" and w2: "mem_content w2 = mem_content w1"
    using mem_handles_eq [of "nodes r" w1] by (metis prod.collapse)
  have ne: "nodes r \<noteq> []" using assms(3) by auto
  then have "mem_content w2 (last (nodes r)) (Revision_String r) = Some val" using W w2 by simp
  then have "fst (mem_Get (last (nodes r)) (Revision_String r) w2) = Ok val" by (simp add: mem_Get_def mem_content_def)
  then have "fst (cp_Read api idx c r w1) = Ok val"
    using assms(1,2,3) ne h
    by (auto simp: cp_Read_def NewChain_def chain_Read_def NewChainWithDatbases_def node_Read_def NewNode_def last_map)
  with W show ?thesis by blast
qed

theorem chain_piping_write_then_read_witness:
  "\<exists>w1. cp_Write list_redis List.rev (NewChainPiping Memory LINEARIZABLE True) (NewRevision 7 0 [''a'', ''b'']) ''v'' empty_world
     = (Ok (), [], w1) \<and> fst (cp_Read list_redis 0 (NewChainPiping Memory LINEARIZABLE True) (NewRevision 7 0 [''a'', ''b'']) w1) = Ok ''v''"
proof -
  let ?c = "NewChainPiping Memory LINEARIZABLE True" and ?r = "NewRevision 7 0 [''a'', ''b'']"
  obtain res jobs w1 where w: "cp_Write list_redis List.rev ?c ?r ''v'' empty_world = (res, jobs, w1)" by (metis prod_cases3)
  show ?thesis
    using chain_piping_write_then_read [OF _ _ _ _ w, of 0] w by (simp add: NewChainPiping_def NewRevision_def)
qed

text \<open>The chain piping reports success although a database refused the write; the error reaches
  only the trace.\<close>

theorem chain_piping_hides_write_error:
  assumes "NewChain (cp_databaseType c) (nodes r) w = (Ok ch, w1)" and "\<not> cp_concurrent c"
    and "chain_Write api ch (Revision_String r) val (cp_consistency c) w1 = (Err e, js, w2)"
  shows "cp_Write api ord c r val w = (Ok (), map ChainJob js, w2)"
  using assms by (simp add: cp_Write_def)

theorem chain_piping_hides_write_error_witness:
  "\<exists>js w2. cp_Write readonly_redis (\<lambda>ds. ds) (NewChainPiping Redis LINEARIZABLE False) (NewRevision 7 0 [''a'', ''b'']) ''v''
     \<lparr>memDatabases = [], Storages = [(''a'', MemDatabase ''a''), (''b'', RedisDatabase (Some ''h:1'') 0)], pools = None, redis = 0\<rparr> = (Ok (), js, w2)"
proof -
  let ?w = "\<lparr>memDatabases = [], Storages = [(''a'', MemDatabase ''a''), (''b'', RedisDatabase (Some ''h:1'') 0)], pools = None, redis = 0 :: nat\<rparr>"
  let ?c = "NewChainPiping Redis LINEARIZABLE False" and ?r = "NewRevision 7 0 [''a'', ''b'']"
  let ?ch = "NewChainWithDatbases [MemDatabase ''a'', RedisDatabase (Some ''h:1'') 0]"
  have n: "NewChain (cp_databaseType ?c) (nodes ?r) ?w = (Ok ?ch, ?w)"
    by (simp add: NewChain_def NewChainPiping_def NewRevision_def)
  obtain res js w2 where cw: "chain_Write readonly_redis ?ch (Revision_String ?r) ''v'' (cp_consistency ?c) ?w = (res, js, w2)"
    by (metis prod_cases3)
  then have "res = Err (ErrorString ''READONLY'')"
    by (auto simp: NewChainPiping_def chain_Write_seq mem_Put_def redis_call_def pool_Dial_def readonly_redis_def RedisRetryCount_def
        numeral_eq_Suc)
  then show ?thesis using chain_piping_hides_write_error [OF n _ cw [unfolded \<open>res = _\<close>]] by (simp add: NewChainPiping_def)
qed

text \<open>The nodes that the synchronous hashing manager returns are one joined string, so the chain
  piping rejects every write that uses it.\<close>

theorem chain_piping_rejects_sync_manager:
  assumes "hm_GetNodes hash srt (SyncHM m) key = Ok ns"
  shows "cp_Write api ord c (NewRevision rv sb ns) val w =
    (Err (ErrorString ''the number of nodes is 1, which means there is no replica''), [], w)"
  using assms by (auto simp: shm_GetNodes_def cp_Write_def NewChain_def NewRevision_def)

theorem chain_piping_rejects_sync_manager_witness:
  "\<exists>ns. hm_GetNodes length_hash sort_Slice (SyncHM (NewSyncHashingManager length_hash RingType [node ''a'', node ''bb''] 2)) ''k'' = Ok ns \<and>
     cp_Write list_redis (\<lambda>ds. ds) (NewChainPiping Memory LINEARIZABLE False) (NewRevision 7 0 ns) ''v'' empty_world =
       (Err (ErrorString ''the number of nodes is 1, which means there is no replica''), [], empty_world)"
proof -
  have "hm_GetNodes length_hash sort_Slice (SyncHM (NewSyncHashingManager length_hash RingType [node ''a'', node ''bb''] 2)) ''k''
      = Ok [''bb,a'']" by code_simp
  from this chain_piping_rejects_sync_manager [OF this] show ?thesis by blast
qed

text \<open>Without synchronous replicas the first string of a revision is empty, and a read asks the store
  with the empty name although the asynchronous replicas hold the value.\<close>

theorem read_without_sync_replicas:
  "let sap = NewSyncAsyncPiping Memory; r = NewRevision 7 0 [Join [] '','', Join [''b''] '',''];
       (res, jobs, w1) = sap_Write demo_conf list_redis (\<lambda>ns. ns) sap r ''v'' empty_world;
       w2 = run_jobs demo_conf list_redis Memory jobs w1
   in res = Ok () \<and> mem_content w2 ''b'' (Revision_String r) = Some ''v'' \<and>
      fst (sap_Read demo_conf list_redis sap r w2) = Err (ErrorString ''key not found'')"
  by code_simp

end
