(* ===== verification/Handler.thy ===== *)
theory Handler
  imports Piping Tree_Index
begin

text \<open>
  The HTTP service (\<^verbatim>\<open>cmd/http/main.go\<close>). A request is handled as one step on the state of the
  server: the handler with its index, the global revision counter, the storage world, the
  jobs that goroutines have still to run, and the lock of the index. What the handlers take from outside is gathered in the
  record \<open>env\<close>: the Redis client, the vendored hash, \<^verbatim>\<open>sort.Slice\<close> for nodes and \<^verbatim>\<open>sort.Sort\<close> for
  revisions, \<^verbatim>\<open>strconv.Quote\<close>, and the configuration. Reading the request (the query map, the
  body and its decoding as JSON) is done by the library: a request holds the outcome. Tracing
  has no effect on the state.
\<close>

record 's env =
  env_api :: "'s redis_api"
  env_hash :: hasher
  env_sort_nodes :: "(RkvNode \<Rightarrow> RkvNode \<Rightarrow> bool) \<Rightarrow> RkvNode list \<Rightarrow> RkvNode list"
  env_sort_revs :: "(Revision \<Rightarrow> Revision \<Rightarrow> bool) \<Rightarrow> Revision list \<Rightarrow> Revision list"
  env_quote :: "string \<Rightarrow> string"
  env_conf :: KVConfiguration

record KeyValueHandler =
  hm :: HashingManager
  conf :: KVConfiguration
  indexTree :: treeIndex
  piping :: Piping

text \<open>The lock of the index: how many hold it for reading, and whether one holds it for writing. Handlers that run
  one after the other find it free and leave it free; it matters to those that overlap (\<open>Threads\<close>).\<close>

record RWMutex =
  readers :: nat
  writing :: bool

definition unlocked :: RWMutex where
  "unlocked = \<lparr>readers = 0, writing = False\<rparr>"

lemma unlocked_sel [simp]: "readers unlocked = 0" "\<not> writing unlocked"
  by (simp_all add: unlocked_def)

lemma RWMutex_same [simp]: "\<not> writing mu \<Longrightarrow> mu\<lparr>writing := False\<rparr> = mu" "readers mu = 0 \<Longrightarrow> mu\<lparr>readers := 0\<rparr> = mu"
  by (cases mu, simp)+

record 's server =
  handler :: KeyValueHandler
  counter :: uint64
  wd :: "'s world"
  pending :: "job list"
  index_mu :: RWMutex

text \<open>The body of a request: it cannot be read, is no JSON object of strings, or is one.\<close>

datatype body = BodyError error | JsonError error | Payload "(string \<times> string) list"

record request =
  Path :: string
  Method :: string
  Query :: "(string \<times> string list) list"
  Body :: body

section \<open>Formatting\<close>

text \<open>\<^verbatim>\<open>%v\<close> and \<^verbatim>\<open>%s\<close> of slices and maps of strings; \<^verbatim>\<open>fmt\<close> prints maps in key order.\<close>

definition fmt_slice :: "string list \<Rightarrow> string" where
  "fmt_slice xs = ''['' @ Join xs '' '' @ '']''"

definition fmt_map :: "(string \<times> string) list \<Rightarrow> string" where
  "fmt_map m = ''map['' @ Join (map (\<lambda>(k, v). k @ '':'' @ v) (sort_key fst m)) '' '' @ '']''"

definition fmt_query :: "(string \<times> string list) list \<Rightarrow> string" where
  "fmt_query q = fmt_map (map (\<lambda>(k, vs). (k, fmt_slice vs)) q)"

fun error_text :: "(string \<Rightarrow> string) \<Rightarrow> error \<Rightarrow> string" where
  "error_text quote (ErrorString s) = s"
| "error_text quote (NumError fn num e) = ''strconv.'' @ fn @ '': parsing '' @ quote num @ '': '' @ e"
| "error_text quote (DatabaseNotImplementedError d) = d @ '' not implemented''"
| "error_text quote CreateDatabaseError = ''Failed to create database''"

text \<open>A newline, written \<^verbatim>\<open>\n\<close> in the format strings.\<close>

definition newline :: string where
  "newline = [CHR 0x0A]"

section \<open>Start-up\<close>

text \<open>The loop of \<^verbatim>\<open>main\<close> that fills \<^verbatim>\<open>Storages\<close>; a store that cannot be created is skipped.\<close>

fun create_storages :: "KVConfiguration \<Rightarrow> KVStore list \<Rightarrow> 's world \<Rightarrow> 's world" where
  "create_storages c [] w = w"
| "create_storages c (store # stores) w =
     (case db_Factory c (conf_StoreType c) store w of
        (Ok db, w1) \<Rightarrow> create_storages c stores (w1\<lparr>Storages := AList.update (store_Name store) db (Storages w1)\<rparr>)
      | (_, w1) \<Rightarrow> create_storages c stores w1)"

text \<open>\<open>iter\<close> is the order in which the map of the local stores is iterated over.\<close>

definition NewKeyValueHandler :: "'s env \<Rightarrow> (nat \<Rightarrow> connect_outcome list)
    \<Rightarrow> ((AvailabilityZone \<times> RkvNode list) list \<Rightarrow> (AvailabilityZone \<times> RkvNode list) list) \<Rightarrow> KeyValueHandler result" where
  "NewKeyValueHandler env probe iter =
     (let c = env_conf env; hash = env_hash env in
      case GetReplications c probe of
        Err e \<Rightarrow> Panic (PanicError (''error in get replications: '' @ error_text (env_quote env) e))
      | Panic p \<Rightarrow> Panic p
      | Ok (localStores, remoteStores) \<Rightarrow>
          (let m = (if conf_HashingManagerType c = Sync
                    then SyncHM (NewSyncHashingManager hash (ConsistentHash c) (concat (map snd (iter localStores))) (LocalReplicaNum c))
                    else SyncAsyncHM (NewSyncAsyncHashingManager hash (ConsistentHash c) (iter localStores) (LocalReplicaNum c)
                                        remoteStores (RemoteReplicaNum c)));
               p = (if conf_PipingType c = ChainType
                    then ChainP (NewChainPiping (conf_StoreType c) LINEARIZABLE (Concurrent c))
                    else SyncAsyncP (NewSyncAsyncPiping (conf_StoreType c)))
           in Ok \<lparr>hm = m, conf = c, indexTree = NewTreeIndex, piping = p\<rparr>))"

section \<open>The handlers\<close>

type_synonym ('s, 'a) step = "'s server \<Rightarrow> 'a result \<times> 's server"

definition getPrimaryRevBytesWithBucket :: "KVConfiguration \<Rightarrow> Revision \<Rightarrow> bytes result" where
  "getPrimaryRevBytesWithBucket c r =
     (if BucketSize c = 0 then Panic DivideByZero
      else let primaryRev = word_of_int (trunc_div (sint (main r)) (sint (BucketSize c)))
           in LittleEndian_PutUint64 (replicate 8 (CHR 0x00)) primaryRev)"

definition getValueByRev :: "'s env \<Rightarrow> choices \<Rightarrow> Revision \<Rightarrow> ('s, string) step" where
  "getValueByRev env ch r sv =
     (case piping_Read (conf (handler sv)) (env_api env) ch (piping (handler sv)) r (wd sv) of
        (res, w1) \<Rightarrow> (res, sv\<lparr>wd := w1\<rparr>))"

fun getValuesByRevs :: "'s env \<Rightarrow> choices \<Rightarrow> Revision list \<Rightarrow> ('s, string list) step" where
  "getValuesByRevs env ch [] sv = (Ok [], sv)"
| "getValuesByRevs env ch (r # rs) sv =
     (case getValueByRev env ch r sv of
        (Ok v, sv1) \<Rightarrow>
          (case getValuesByRevs env ch rs sv1 of
             (Ok vs, sv2) \<Rightarrow> (Ok (v # vs), sv2) | (Err e, sv2) \<Rightarrow> (Err e, sv2) | (Panic p, sv2) \<Rightarrow> (Panic p, sv2))
      | (Err e, sv1) \<Rightarrow> (Err e, sv1)
      | (Panic p, sv1) \<Rightarrow> (Panic p, sv1))"

text \<open>\<^verbatim>\<open>fromRevs[0]\<close> and \<^verbatim>\<open>key[0]\<close> panic on an empty list of values, which the query parser never makes.\<close>

definition getKV :: "'s env \<Rightarrow> choices \<Rightarrow> request \<Rightarrow> ('s, string) step" where
  "getKV env ch rq sv =
     (case map_of (Query rq) ''key'' of
        None \<Rightarrow> (Err (ErrorString (''the key is missing at the query '' @ fmt_query (Query rq))), sv)
      | Some [] \<Rightarrow> (Panic IndexOutOfRange, sv)
      | Some (key # _) \<Rightarrow>
          (case map_of (Query rq) ''fromRev'' of
             Some [] \<Rightarrow> (Panic IndexOutOfRange, sv)
           | Some (fromRev_s # _) \<Rightarrow>
               (case Atoi fromRev_s of
                  Err e \<Rightarrow> (Err e, sv)
                | Panic p \<Rightarrow> (Panic p, sv)
                | Ok fromRev \<Rightarrow>
                    (case RangeSince (env_sort_revs env) (indexTree (handler sv)) key None fromRev of
                       Err e \<Rightarrow> (Err e, sv)
                     | Panic p \<Rightarrow> (Panic p, sv)
                     | Ok rs \<Rightarrow>
                         (case getValuesByRevs env ch rs sv of
                            (Ok rets, sv1) \<Rightarrow>
                              (Ok (''The values are '' @
                                   fmt_map (fold (\<lambda>(r, v) m. AList.update (Revision_String r) v m) (zip rs rets) []) @
                                   '' from the revision '' @ FormatInt (sint fromRev) @ newline), sv1)
                          | (Err e, sv1) \<Rightarrow> (Err e, sv1)
                          | (Panic p, sv1) \<Rightarrow> (Panic p, sv1))))
           | None \<Rightarrow>
               (case Get (indexTree (handler sv)) key 0 of
                  Err e \<Rightarrow> (Err e, sv)
                | Panic p \<Rightarrow> (Panic p, sv)
                | Ok (r, _, _) \<Rightarrow>
                    (case getValueByRev env ch r sv of
                       (Ok ret, sv1) \<Rightarrow>
                         (Ok (''The value is '' @ ret @ '' with the revision '' @ Revision_String r @ newline), sv1)
                     | (Err e, sv1) \<Rightarrow> (Err e, sv1)
                     | (Panic p, sv1) \<Rightarrow> (Panic p, sv1)))))"

text \<open>\<^verbatim>\<open>r.URL.Query().Get("rev")\<close> and a lookup in the payload: the empty string when there is none.\<close>

definition Query_Get :: "request \<Rightarrow> string \<Rightarrow> string" where
  "Query_Get rq k = (case map_of (Query rq) k of Some (v # _) \<Rightarrow> v | _ \<Rightarrow> [])"

definition payload_Get :: "(string \<times> string) list \<Rightarrow> string \<Rightarrow> string" where
  "payload_Get p k = (case map_of p k of None \<Rightarrow> [] | Some v \<Rightarrow> v)"

text \<open>The end of \<^verbatim>\<open>createKV\<close>: the index is changed after the stores have been written.\<close>

definition index_kv :: "string \<Rightarrow> int64 \<Rightarrow> string \<Rightarrow> Revision \<Rightarrow> treeIndex \<Rightarrow> uint64
    \<Rightarrow> unit result \<times> treeIndex \<times> uint64" where
  "index_kv revParam revAssumed key r ti c =
     (if length revParam \<noteq> 0 then Update ti key r revAssumed c
      else (Ok (), Put ti key r c))"

definition set_index :: "treeIndex \<Rightarrow> uint64 \<Rightarrow> 's server \<Rightarrow> 's server" where
  "set_index ti c sv = sv\<lparr>handler := (handler sv)\<lparr>indexTree := ti\<rparr>, counter := c\<rparr>"

definition createKV_with :: "'s env \<Rightarrow> choices \<Rightarrow> request \<Rightarrow> string \<Rightarrow> int64 \<Rightarrow> ('s, string) step" where
  "createKV_with env ch rq revParam revAssumed sv =
     (let (rv, c1) = GetGlobalIncreasingRevision (counter sv);
          sv1 = sv\<lparr>counter := c1\<rparr>;
          h = handler sv
      in case result_bind (getPrimaryRevBytesWithBucket (conf h) (NewRevision rv 0 []))
                (hm_GetNodes (env_hash env) (env_sort_nodes env) (hm h)) of
           Err e \<Rightarrow> (Err e, sv1)
         | Panic p \<Rightarrow> (Panic p, sv1)
         | Ok ns \<Rightarrow>
             (let newRev = SetNodes (NewRevision rv 0 []) ns in
              case Body rq of
                BodyError e \<Rightarrow> (Err e, sv1)
              | JsonError e \<Rightarrow> (Err e, sv1)
              | Payload pl \<Rightarrow>
                  (case piping_Write (conf h) (env_api env) ch (piping h) newRev (payload_Get pl ''value'') (wd sv1) of
                     (Err e, js, w1) \<Rightarrow>
                       (Err (ErrorString (''system backend failed to write data: '' @ error_text (env_quote env) e)),
                        sv1\<lparr>wd := w1, pending := pending sv1 @ js\<rparr>)
                   | (Panic p, js, w1) \<Rightarrow> (Panic p, sv1\<lparr>wd := w1, pending := pending sv1 @ js\<rparr>)
                   | (Ok _, js, w1) \<Rightarrow>
                       (case index_kv revParam revAssumed (payload_Get pl ''key'') newRev (indexTree h) c1 of
                          (res, ti, c2) \<Rightarrow>
                            (result_bind res (\<lambda>_. Ok (''The key value pair ('' @ payload_Get pl ''key'' @ '','' @
                                payload_Get pl ''value'' @ '') has been saved as revision '' @ FormatUint rv @
                                '' at '' @ Join (nodes newRev) '','' @ newline)),
                             set_index ti c2 (sv1\<lparr>wd := w1, pending := pending sv1 @ js\<rparr>))))))"

definition createKV :: "'s env \<Rightarrow> choices \<Rightarrow> request \<Rightarrow> ('s, string) step" where
  "createKV env ch rq sv =
     (let revParam = Query_Get rq ''rev'' in
      if length revParam \<noteq> 0
      then (case ParseInt revParam of
              Ok revAssumed \<Rightarrow> createKV_with env ch rq revParam revAssumed sv
            | Err _ \<Rightarrow> (Err (ErrorString (''invalid rev in query string: '' @ revParam)), sv)
            | Panic p \<Rightarrow> (Panic p, sv))
      else createKV_with env ch rq revParam 0 sv)"

text \<open>\<^verbatim>\<open>deleteKV\<close>: the error of the piping is returned after the tombstone has been set; the error of
  the tombstone is dropped.\<close>

definition deleteKV :: "'s env \<Rightarrow> choices \<Rightarrow> request \<Rightarrow> ('s, string) step" where
  "deleteKV env ch rq sv =
     (case map_of (Query rq) ''key'' of
        None \<Rightarrow> (Err (ErrorString (''the key is missing at the query '' @ fmt_query (Query rq))), sv)
      | Some [] \<Rightarrow> (Panic IndexOutOfRange, sv)
      | Some (key # ks) \<Rightarrow>
          (case Get (indexTree (handler sv)) key 0 of
             Err e \<Rightarrow> (Err e, sv)
           | Panic p \<Rightarrow> (Panic p, sv)
           | Ok (r, _, _) \<Rightarrow>
               (let h = handler sv in
                case piping_Delete (conf h) (env_api env) ch (piping h) r (wd sv) of
                  (Panic p, js, w1) \<Rightarrow> (Panic p, sv\<lparr>wd := w1, pending := pending sv @ js\<rparr>)
                | (dres, js, w1) \<Rightarrow>
                    (let (rv, c1) = GetGlobalIncreasingRevision (counter sv);
                         (tres, ti, c2) = Tombstone (indexTree h) key (NewRevision rv (sub r) []) c1;
                         sv1 = set_index ti c2 (sv\<lparr>wd := w1, pending := pending sv @ js\<rparr>)
                     in case tres of
                          Panic p \<Rightarrow> (Panic p, sv1)
                        | _ \<Rightarrow> (result_bind dres (\<lambda>_. Ok (''The key '' @ fmt_slice (key # ks) @ '' has been removed at '' @
                                  fmt_slice (nodes r) @ newline)), sv1)))))"

section \<open>Requests\<close>

datatype response = Response int string

definition ServeHTTP :: "'s env \<Rightarrow> choices \<Rightarrow> request \<Rightarrow> ('s, response) step" where
  "ServeHTTP env ch rq sv =
     (if Path rq \<noteq> ''/kv'' then (Ok (Response 404 (''404 page not found'' @ newline)), sv)
      else let (statusCode, (res, sv1)) =
             (if Method rq = ''GET'' then (202, getKV env ch rq sv)
              else if Method rq = ''POST'' then (201, createKV env ch rq sv)
              else if Method rq = ''PUT'' then (201, createKV env ch rq sv)
              else if Method rq = ''DELETE'' then (202, deleteKV env ch rq sv)
              else (501, (Ok ''Not Implemented'', sv)))
           in case res of
                Err e \<Rightarrow> (Ok (Response 500 (error_text (env_quote env) e @ newline)), sv1)
              | Panic p \<Rightarrow> (Panic p, sv1)
              | Ok result \<Rightarrow>
                  (if result \<noteq> [] then (Ok (Response statusCode result), sv1)
                   else (Ok (Response 200 []), sv1)))"

section \<open>Requests that are refused\<close>

lemma serve_error:
  assumes "Path rq = ''/kv''" and "Method rq \<in> {''GET'', ''DELETE'', ''POST'', ''PUT''}"
    and "(if Method rq = ''GET'' then getKV env ch rq sv else if Method rq = ''DELETE'' then deleteKV env ch rq sv
          else createKV env ch rq sv) = (Err e, sv1)"
  shows "ServeHTTP env ch rq sv = (Ok (Response 500 (error_text (env_quote env) e @ newline)), sv1)"
  using assms by (auto simp: ServeHTTP_def)

lemma createKV_no_body:
  assumes "Query_Get rq ''rev'' = []" and "Body rq = BodyError e \<or> Body rq = JsonError e"
    and "BucketSize (conf (handler sv)) \<noteq> 0" and "\<forall>key p. hm_GetNodes (env_hash env) (env_sort_nodes env) (hm (handler sv)) key \<noteq> Panic p"
  shows "\<exists>e'. createKV env ch rq sv = (Err e', sv\<lparr>counter := counter sv + 1\<rparr>)"
proof -
  obtain b where b: "getPrimaryRevBytesWithBucket (conf (handler sv)) (NewRevision (counter sv + 1) 0 []) = Ok b"
    using assms(3) by (simp add: getPrimaryRevBytesWithBucket_def LittleEndian_PutUint64_def Let_def)
  then show ?thesis
    using assms by (cases "hm_GetNodes (env_hash env) (env_sort_nodes env) (hm (handler sv)) b")
      (auto simp: createKV_def createKV_with_def GetGlobalIncreasingRevision_def)
qed

text \<open>Requests that are refused before anything is written are answered and change neither the stores nor the index nor the
  pending jobs: another path gives 404, another method 501; a get or a delete without a key, a
  get from something that is no revision, and a create that assumes something that is no revision give
  500 and change nothing at all; a create whose body cannot be read or is no JSON object of
  strings gives 500 and only uses up a revision. (A create that assumes a revision which is not the latest one is refused after
  the stores have been written.)\<close>

theorem refused_requests_change_nothing:
  "(Path rq \<noteq> ''/kv'' \<longrightarrow> ServeHTTP env ch rq sv = (Ok (Response 404 (''404 page not found'' @ newline)), sv)) \<and>
   (Path rq = ''/kv'' \<and> Method rq \<notin> {''GET'', ''DELETE'', ''POST'', ''PUT''} \<longrightarrow>
      ServeHTTP env ch rq sv = (Ok (Response 501 ''Not Implemented''), sv)) \<and>
   (Path rq = ''/kv'' \<and> Method rq \<in> {''GET'', ''DELETE''} \<and> map_of (Query rq) ''key'' = None \<longrightarrow>
      ServeHTTP env ch rq sv = (Ok (Response 500 (''the key is missing at the query '' @ fmt_query (Query rq) @ newline)), sv)) \<and>
   (Path rq = ''/kv'' \<and> Method rq = ''GET'' \<and> map_of (Query rq) ''key'' = Some (k # ks) \<and>
      map_of (Query rq) ''fromRev'' = Some (f # fs) \<and> Atoi f = Err e \<longrightarrow>
      ServeHTTP env ch rq sv = (Ok (Response 500 (error_text (env_quote env) e @ newline)), sv)) \<and>
   (Path rq = ''/kv'' \<and> Method rq \<in> {''POST'', ''PUT''} \<and> Query_Get rq ''rev'' \<noteq> [] \<and> ParseInt (Query_Get rq ''rev'') = Err e \<longrightarrow>
      ServeHTTP env ch rq sv = (Ok (Response 500 (''invalid rev in query string: '' @ Query_Get rq ''rev'' @ newline)), sv)) \<and>
   (Path rq = ''/kv'' \<and> Method rq \<in> {''POST'', ''PUT''} \<and> Query_Get rq ''rev'' = [] \<and> (Body rq = BodyError e \<or> Body rq = JsonError e) \<and>
      BucketSize (conf (handler sv)) \<noteq> 0 \<and> (\<forall>key p. hm_GetNodes (env_hash env) (env_sort_nodes env) (hm (handler sv)) key \<noteq> Panic p) \<longrightarrow>
      (\<exists>msg. ServeHTTP env ch rq sv = (Ok (Response 500 msg), sv\<lparr>counter := counter sv + 1\<rparr>)))"
proof (intro conjI impI)
  assume "Path rq = ''/kv'' \<and> Method rq \<in> {''POST'', ''PUT''} \<and> Query_Get rq ''rev'' = [] \<and> (Body rq = BodyError e \<or> Body rq = JsonError e) \<and>
      BucketSize (conf (handler sv)) \<noteq> 0 \<and> (\<forall>key p. hm_GetNodes (env_hash env) (env_sort_nodes env) (hm (handler sv)) key \<noteq> Panic p)"
  then obtain e' where "createKV env ch rq sv = (Err e', sv\<lparr>counter := counter sv + 1\<rparr>)" "Path rq = ''/kv''" "Method rq \<in> {''POST'', ''PUT''}"
    using createKV_no_body by blast
  then show "\<exists>msg. ServeHTTP env ch rq sv = (Ok (Response 500 msg), sv\<lparr>counter := counter sv + 1\<rparr>)"
    using serve_error [of rq env ch sv e'] by auto
qed (auto simp: ServeHTTP_def getKV_def deleteKV_def createKV_def)

definition demo_choices :: choices where
  "demo_choices = \<lparr>read_idx = 0, db_order = List.rev, name_order = List.rev\<rparr>"

definition mem_env :: "redis_data env" where
  "mem_env = \<lparr>env_api = list_redis, env_hash = length_hash, env_sort_nodes = sort_Slice, env_sort_revs = sort_Slice,
     env_quote = (\<lambda>s. s), env_conf = demo_conf\<lparr>conf_StoreType := Memory\<rparr>\<rparr>"

definition demo_server :: "redis_data server" where
  "demo_server = \<lparr>handler = \<lparr>hm = SyncHM (NewSyncHashingManager length_hash RingType [node ''a'', node ''bb''] 2), conf = demo_conf,
     indexTree = NewTreeIndex, piping = SyncAsyncP (NewSyncAsyncPiping Memory)\<rparr>, counter = 5, wd = empty_world, pending = [],
     index_mu = unlocked\<rparr>"

definition no_key :: request where
  "no_key = \<lparr>Path = ''/kv'', Method = ''DELETE'', Query = [(''id'', [''7''])], Body = Payload []\<rparr>"

theorem refused_requests_change_nothing_witness:
  "ServeHTTP mem_env demo_choices no_key demo_server =
     (Ok (Response 500 (''the key is missing at the query '' @ fmt_query (Query no_key) @ newline)), demo_server)"
proof -
  have "Path no_key = ''/kv'' \<and> Method no_key \<in> {''GET'', ''DELETE''} \<and> map_of (Query no_key) ''key'' = None"
    by (simp add: no_key_def)
  with refused_requests_change_nothing [of no_key mem_env demo_choices demo_server] show ?thesis by blast
qed

end
