(* ===== verification/Service.thy ===== *)
theory Service
  imports Handler
begin

text \<open>
  The service as a whole: a map from keys to their versions. The specification below knows
  nothing of nodes, replicas, generations or goroutines. The theorems say that the handlers,
  with the synchronous/asynchronous piping and the zone manager, implement it: requests are
  served one after the other, while the jobs that the handlers left to goroutines run at any
  time and in any order between them.
\<close>

section \<open>The specification\<close>

text \<open>The versions of a key in the order of their revisions; \<open>None\<close> marks a removal.\<close>

type_synonym versions = "(int \<times> string option) list"
type_synonym kv_map = "string \<Rightarrow> versions"

datatype svc_op =
    SPut string string
  | SUpdate string string int64
  | SGet string
  | SGetSince string int64
  | SDelete string

definition newer :: "kv_map \<Rightarrow> int \<Rightarrow> bool" where
  "newer m n \<longleftrightarrow> 0 < n \<and> (\<forall>k. \<forall>e \<in> set (m k). fst e < n)"

abbreviation add_version :: "kv_map \<Rightarrow> string \<Rightarrow> int \<Rightarrow> string option \<Rightarrow> kv_map" where
  "add_version m k n x \<equiv> m(k := m k @ [(n, x)])"

definition saved_text :: "string \<Rightarrow> string \<Rightarrow> int \<Rightarrow> string \<Rightarrow> string" where
  "saved_text k v n at = ''The key value pair ('' @ k @ '','' @ v @ '') has been saved as revision '' @ FormatInt n @
     '' at '' @ at @ newline"

definition value_text :: "string \<Rightarrow> int \<Rightarrow> string" where
  "value_text v n = ''The value is '' @ v @ '' with the revision '' @ FormatInt n @ newline"

definition values_text :: "versions \<Rightarrow> int \<Rightarrow> string" where
  "values_text es from = ''The values are '' @ fmt_map (map (\<lambda>(n, x). (FormatInt n, the x)) es) @
     '' from the revision '' @ FormatInt from @ newline"

definition since_versions :: "versions \<Rightarrow> int \<Rightarrow> versions" where
  "since_versions es from = filter (\<lambda>(n, x). from \<le> n) es"

definition not_found :: response where
  "not_found = Response 500 (''mvcc: Revision not found'' @ newline)"

definition not_latest :: response where
  "not_latest = Response 500 (''the rev to assume is not the latest one'' @ newline)"

text \<open>The steps of the specification: an operation, its answer and the map after it.\<close>

inductive kv_step :: "kv_map \<Rightarrow> svc_op \<Rightarrow> response \<Rightarrow> kv_map \<Rightarrow> bool" where
  put: "newer m n \<Longrightarrow> kv_step m (SPut k v) (Response 201 (saved_text k v n at)) (add_version m k n (Some v))"
| update: "m k \<noteq> [] \<Longrightarrow> fst (last (m k)) = sint a \<Longrightarrow> newer m n \<Longrightarrow>
    kv_step m (SUpdate k v a) (Response 201 (saved_text k v n at)) (add_version m k n (Some v))"
| update_stale: "m k \<noteq> [] \<Longrightarrow> fst (last (m k)) \<noteq> sint a \<Longrightarrow> kv_step m (SUpdate k v a) not_latest m"
| update_missing: "m k = [] \<Longrightarrow> kv_step m (SUpdate k v a) not_found m"
| get: "m k \<noteq> [] \<Longrightarrow> last (m k) = (n, Some v) \<Longrightarrow> kv_step m (SGet k) (Response 202 (value_text v n)) m"
| get_missing: "m k = [] \<or> snd (last (m k)) = None \<Longrightarrow> kv_step m (SGet k) not_found m"
| since: "\<forall>e \<in> set (since_versions (m k) (sint a)). snd e \<noteq> None \<Longrightarrow>
    kv_step m (SGetSince k a) (Response 202 (values_text (since_versions (m k) (sint a)) (sint a))) m"
| since_removed: "\<exists>e \<in> set (since_versions (m k) (sint a)). snd e = None \<Longrightarrow>
    kv_step m (SGetSince k a) (Response 500 msg) m"
| delete: "m k \<noteq> [] \<Longrightarrow> last (m k) = (n, Some v) \<Longrightarrow> newer m n' \<Longrightarrow>
    kv_step m (SDelete k) (Response 202 msg) (add_version m k n' None)"
| delete_missing: "m k = [] \<or> snd (last (m k)) = None \<Longrightarrow> kv_step m (SDelete k) not_found m"

section \<open>The service and its schedules\<close>

fun request_of :: "svc_op \<Rightarrow> request" where
  "request_of (SPut k v) = \<lparr>Path = ''/kv'', Method = ''PUT'', Query = [], Body = Payload [(''key'', k), (''value'', v)]\<rparr>"
| "request_of (SUpdate k v a) = \<lparr>Path = ''/kv'', Method = ''PUT'', Query = [(''rev'', [FormatInt (sint a)])],
     Body = Payload [(''key'', k), (''value'', v)]\<rparr>"
| "request_of (SGet k) = \<lparr>Path = ''/kv'', Method = ''GET'', Query = [(''key'', [k])], Body = Payload []\<rparr>"
| "request_of (SGetSince k a) = \<lparr>Path = ''/kv'', Method = ''GET'',
     Query = [(''key'', [k]), (''fromRev'', [FormatInt (sint a)])], Body = Payload []\<rparr>"
| "request_of (SDelete k) = \<lparr>Path = ''/kv'', Method = ''DELETE'', Query = [(''key'', [k])], Body = Payload []\<rparr>"

text \<open>A schedule lists the requests, each with the choices made while it is served, and the points
  at which the \<open>i\<close>-th pending job runs.\<close>

datatype event = Request svc_op choices | RunJob nat

fun piping_type :: "Piping \<Rightarrow> StoreType" where
  "piping_type (ChainP p) = cp_databaseType p"
| "piping_type (SyncAsyncP p) = sap_databaseType p"

fun svc_exec :: "'s env \<Rightarrow> event \<Rightarrow> 's server \<Rightarrow> (svc_op \<times> response result) list \<times> 's server" where
  "svc_exec env (Request opn ch) sv = (case ServeHTTP env ch (request_of opn) sv of (res, sv1) \<Rightarrow> ([(opn, res)], sv1))"
| "svc_exec env (RunJob i) sv =
     (if i < length (pending sv) then
        (case run_job (conf (handler sv)) (env_api env) (piping_type (piping (handler sv))) (pending sv ! i) (wd sv) of
           (res, w1) \<Rightarrow> ([], sv\<lparr>wd := w1, pending := take i (pending sv) @ drop (Suc i) (pending sv)\<rparr>))
      else ([], sv))"

fun svc_run :: "'s env \<Rightarrow> event list \<Rightarrow> 's server \<Rightarrow> (svc_op \<times> response result) list \<times> 's server" where
  "svc_run env [] sv = ([], sv)"
| "svc_run env (e # es) sv =
     (let (os, sv1) = svc_exec env e sv; (os', sv2) = svc_run env es sv1 in (os @ os', sv2))"

section \<open>The invariant\<close>

text \<open>The versions whose values the stores still hold: a removal deletes the value before it.\<close>

definition live_step :: "(int \<times> string) list \<Rightarrow> int \<times> string option \<Rightarrow> (int \<times> string) list" where
  "live_step l e = (case snd e of Some v \<Rightarrow> l @ [(fst e, v)] | None \<Rightarrow> butlast l)"

definition live :: "versions \<Rightarrow> (int \<times> string) list" where
  "live es = foldl live_step [] es"

definition replicas_ok :: "string set \<Rightarrow> string list \<Rightarrow> bool" where
  "replicas_ok N ns \<longleftrightarrow> (\<exists>sns ans. ns = [Join sns '','', Join ans '',''] \<and> names_ok sns \<and> names_ok ans \<and> sns \<noteq> [] \<and>
     set sns \<union> set ans \<subseteq> N)"

definition primary :: "Revision \<Rightarrow> string" where
  "primary r = Split (nodes r ! 0) '','' ! 0"

definition entry_ok :: "string set \<Rightarrow> Revision \<times> bool \<Rightarrow> int \<times> string option \<Rightarrow> bool" where
  "entry_ok N e a \<longleftrightarrow> sint (main (fst e)) = fst a \<and> sub (fst e) = 0 \<and> snd e = (snd a = None) \<and>
     (if snd a = None then nodes (fst e) = [] else replicas_ok N (nodes (fst e)))"

definition service_ok :: "'s env \<Rightarrow> string set \<Rightarrow> ('s world \<Rightarrow> string \<Rightarrow> string \<Rightarrow> string option)
    \<Rightarrow> (string \<Rightarrow> 's world \<Rightarrow> bool) \<Rightarrow> KeyValueHandler \<Rightarrow> bool" where
  "service_ok env N content ok h \<longleftrightarrow> BucketSize (conf h) \<noteq> 0 \<and>
     (\<exists>sap. piping h = SyncAsyncP sap \<and> store_contract (conf h) (env_api env) (sap_databaseType sap) content ok) \<and>
     (\<forall>key. \<exists>ns. hm_GetNodes (env_hash env) (env_sort_nodes env) (hm h) key = Ok ns \<and> replicas_ok N ns)"

definition data_ok :: "('s world \<Rightarrow> string \<Rightarrow> string \<Rightarrow> string option) \<Rightarrow> 's world \<Rightarrow> treeIndex \<Rightarrow> kv_map \<Rightarrow> bool" where
  "data_ok content w ti m \<longleftrightarrow> (\<forall>k r v. (r, False) \<in> set (ti_hist ti k) \<and> (sint (main r), v) \<in> set (live (m k)) \<longrightarrow>
     content w (primary r) (Revision_String r) = Some v)"

text \<open>Every replica of a readable version holds its value or is about to receive it.\<close>

definition replica_names :: "Revision \<Rightarrow> string set" where
  "replica_names r = set (Split (nodes r ! 0) '','') \<union> (set (Split (nodes r ! 1) '','') - {[]})"

definition repl_ok :: "('s world \<Rightarrow> string \<Rightarrow> string \<Rightarrow> string option) \<Rightarrow> 's world \<Rightarrow> job list \<Rightarrow> treeIndex \<Rightarrow> kv_map \<Rightarrow> bool" where
  "repl_ok content w js ti m \<longleftrightarrow> (\<forall>k r v nm. (r, False) \<in> set (ti_hist ti k) \<and> (sint (main r), v) \<in> set (live (m k)) \<and>
     nm \<in> replica_names r \<longrightarrow> content w nm (Revision_String r) = Some v \<or> AsyncPut nm (Revision_String r) v \<in> set js)"

fun job_ok :: "string set \<Rightarrow> uint64 \<Rightarrow> kv_map \<Rightarrow> job \<Rightarrow> bool" where
  "job_ok N c m (ChainJob j) = False"
| "job_ok N c m (AsyncPut nm s v) = (nm \<in> N \<and> (\<exists>i. s = FormatInt i \<and> 0 < i \<and> i \<le> uint c \<and> uint c < 2 ^ 63) \<and>
     (\<forall>k n v'. (n, v') \<in> set (live (m k)) \<and> FormatInt n = s \<longrightarrow> v' = v))"
| "job_ok N c m (AsyncDelete nm s) = (nm \<in> N \<and> (\<exists>i. s = FormatInt i \<and> 0 < i \<and> i \<le> uint c \<and> uint c < 2 ^ 63) \<and>
     (\<forall>k n v'. (n, v') \<in> set (live (m k)) \<longrightarrow> FormatInt n \<noteq> s))"

definition svc_inv :: "'s env \<Rightarrow> string set \<Rightarrow> ('s world \<Rightarrow> string \<Rightarrow> string \<Rightarrow> string option)
    \<Rightarrow> (string \<Rightarrow> 's world \<Rightarrow> bool) \<Rightarrow> 's server \<Rightarrow> kv_map \<Rightarrow> bool" where
  "svc_inv env N content ok sv m \<longleftrightarrow>
     service_ok env N content ok (handler sv) \<and> ti_inv (indexTree (handler sv)) (counter sv) \<and>
     (\<forall>k. list_all2 (entry_ok N) (ti_hist (indexTree (handler sv)) k) (m k)) \<and>
     (\<forall>k k' n. n \<in> fst ` set (m k) \<and> n \<in> fst ` set (m k') \<longrightarrow> k = k') \<and>
     (\<forall>n \<in> N. ok n (wd sv)) \<and> data_ok content (wd sv) (indexTree (handler sv)) m \<and>
     (\<forall>j \<in> set (pending sv). job_ok N (counter sv) m j) \<and>
     repl_ok content (wd sv) (pending sv) (indexTree (handler sv)) m"

subsection \<open>Live versions\<close>

lemma live_snoc [simp]:
  "live [] = []" "live (es @ [(n, Some v)]) = live es @ [(n, v)]" "live (es @ [(n, None)]) = butlast (live es)"
  by (simp_all add: live_def live_step_def)

lemma live_append_all: "\<forall>e \<in> set es'. snd e \<noteq> None \<Longrightarrow> live (es @ es') = live es @ map (\<lambda>(n, x). (n, the x)) es'"
proof (induction es' rule: rev_induct)
  case (snoc e es')
  obtain n v where "e = (n, Some v)" using snoc.prems by (cases e) auto
  then show ?case using snoc live_snoc(2) [of "es @ es'" n v] by simp
qed simp

lemma live_entry: "(n, v) \<in> set (live es) \<Longrightarrow> (n, Some v) \<in> set es"
proof (induction es rule: rev_induct)
  case (snoc e es)
  obtain n' x where e: "e = (n', x)" by (cases e)
  show ?case using snoc by (cases x) (auto simp: e dest: in_set_butlastD)
qed simp

lemma live_fst: "(n, v) \<in> set (live es) \<Longrightarrow> n \<in> fst ` set es"
  using live_entry by force

lemma FormatInt_nonempty [simp]: "FormatInt i \<noteq> []"
  by (simp add: FormatInt_def FormatNat_nonempty)

lemma FormatUint_uint: "FormatUint w = FormatInt (uint w)"
  by (simp add: FormatUint_def FormatInt_def not_less)

lemma FormatInt_eq_iff:
  assumes "0 < a" and "a < 2 ^ 63" and "0 < b" and "b < 2 ^ 63"
  shows "FormatInt a = FormatInt b \<longleftrightarrow> a = b"
proof -
  have "nat a < 2 ^ 64" "nat b < 2 ^ 64" using assms by (simp_all add: nat_less_iff)
  then show ?thesis using assms FormatNat_inj [of "nat a" "nat b"] by (auto simp: FormatInt_def)
qed

subsection \<open>What the invariant says of revisions\<close>

lemma svc_invD:
  assumes "svc_inv env N content ok sv m"
  shows "service_ok env N content ok (handler sv)" and "ti_inv (indexTree (handler sv)) (counter sv)"
    and "list_all2 (entry_ok N) (ti_hist (indexTree (handler sv)) k) (m k)"
    and "n \<in> fst ` set (m k) \<Longrightarrow> n \<in> fst ` set (m k') \<Longrightarrow> k = k'"
    and "nm \<in> N \<Longrightarrow> ok nm (wd sv)" and "data_ok content (wd sv) (indexTree (handler sv)) m"
    and "j \<in> set (pending sv) \<Longrightarrow> job_ok N (counter sv) m j"
    and "repl_ok content (wd sv) (pending sv) (indexTree (handler sv)) m"
  using assms unfolding svc_inv_def by blast+

lemma ti_hist_mains:
  assumes "ti_inv ti c"
  shows "sorted_wrt (<) (map (rev_key \<circ> fst) (ti_hist ti k))"
    and "(r, t) \<in> set (ti_hist ti k) \<Longrightarrow> 0 < sint (main r) \<and> sint (main r) \<le> uint c"
proof -
  have "sorted_wrt (<) (map rev_key (map fst (ti_hist ti k))) \<and> (\<forall>r \<in> set (map fst (ti_hist ti k)). 0 < sint (main r) \<and> sint (main r) \<le> uint c)"
  proof (cases "lookup ti k")
    case None
    then show ?thesis by (simp add: ti_hist_def)
  next
    case (Some ki)
    have "ki_inv ki c" using assms lookup_Some [OF _ Some] by (auto simp: ti_inv_def)
    then have "sorted_wrt (<) (map rev_key (map fst (history ki))) \<and>
        (\<forall>r \<in> set (map fst (history ki)). 0 < sint (main r) \<and> sint (main r) \<le> uint c)"
      unfolding map_fst_history by (simp add: ki_inv_def)
    then show ?thesis using Some by (simp add: ti_hist_def)
  qed
  then show "sorted_wrt (<) (map (rev_key \<circ> fst) (ti_hist ti k))"
    and "(r, t) \<in> set (ti_hist ti k) \<Longrightarrow> 0 < sint (main r) \<and> sint (main r) \<le> uint c" by force+
qed

lemma entries_mains: "list_all2 (entry_ok N) h es \<Longrightarrow> map fst es = map (sint \<circ> main \<circ> fst) h"
  by (induction rule: list_all2_induct) (auto simp: entry_ok_def)

lemma entries_keys: "list_all2 (entry_ok N) h es \<Longrightarrow> map (rev_key \<circ> fst) h = map (\<lambda>e. (fst e, 0)) es"
  by (induction rule: list_all2_induct) (auto simp: entry_ok_def rev_key_def)

lemma svc_versions_sorted:
  assumes "svc_inv env N content ok sv m"
  shows "sorted_wrt (<) (map fst (m k))"
proof -
  let ?h = "ti_hist (indexTree (handler sv)) k"
  have "sorted_wrt (<) (map (\<lambda>e. (fst e, 0 :: int)) (m k))"
    using ti_hist_mains(1) [OF svc_invD(2) [OF assms], of k] entries_keys [OF svc_invD(3) [OF assms, of k]] by simp
  then show ?thesis by (simp add: sorted_wrt_map)
qed

lemma svc_versions_bounds:
  assumes "svc_inv env N content ok sv m" and "n \<in> fst ` set (m k)"
  shows "0 < n" and "n \<le> uint (counter sv)"
proof -
  let ?h = "ti_hist (indexTree (handler sv)) k"
  have "n \<in> set (map (sint \<circ> main \<circ> fst) ?h)"
    using assms(2) entries_mains [OF svc_invD(3) [OF assms(1), of k]] by (metis set_map)
  then obtain r t where "(r, t) \<in> set ?h" "n = sint (main r)" by auto
  then show "0 < n" and "n \<le> uint (counter sv)" using ti_hist_mains(2) [OF svc_invD(2) [OF assms(1)]] by auto
qed

lemma svc_fresh:
  assumes "svc_inv env N content ok sv m" and "uint (counter sv) < n"
  shows "newer m n" and "n \<notin> fst ` set (m k)"
proof -
  have "fst e < n" if "e \<in> set (m k)" for e k
    using svc_versions_bounds(2) [OF assms(1), of "fst e" k] assms(2) that by simp
  moreover have "0 < n" using assms(2) by (rule le_less_trans [rotated]) simp
  ultimately show "newer m n" by (simp add: newer_def)
  then show "n \<notin> fst ` set (m k)" by (auto simp: newer_def)
qed

lemma hist_entry:
  assumes "list_all2 (entry_ok N) h es" and "(r, t) \<in> set h"
  shows "\<exists>a \<in> set es. entry_ok N (r, t) a"
  using assms by (induction rule: list_all2_induct) auto

lemma entries_removed: "list_all2 (entry_ok N) h es \<Longrightarrow> (\<exists>e \<in> set h. snd e) \<longleftrightarrow> (\<exists>e \<in> set es. snd e = None)"
  by (induction rule: list_all2_induct) (auto simp: entry_ok_def)

lemma hist_last:
  assumes "list_all2 (entry_ok N) h es"
  shows "h = [] \<longleftrightarrow> es = []" and "h \<noteq> [] \<Longrightarrow> entry_ok N (last h) (last es)"
  using assms by (induction rule: list_all2_induct) auto

subsection \<open>Steps that keep the invariant\<close>

lemma job_ok_later: "job_ok N c m j \<Longrightarrow> uint c \<le> uint c' \<Longrightarrow> uint c' < 2 ^ 63 \<Longrightarrow> job_ok N c' m j"
  by (cases j) (fastforce intro: order.trans)+

text \<open>A change of one key in some stores, as the writes, deletes and jobs make it.\<close>

lemma content_keeps_inv:
  assumes "svc_inv env N content ok sv m"
    and "content w1 = (\<lambda>i. if i \<in> S then (content (wd sv) i)(s := x) else content (wd sv) i)"
    and "\<forall>e. ok e (wd sv) \<longrightarrow> ok e w1"
    and "\<forall>k n v. (n, v) \<in> set (live (m k)) \<and> FormatInt n = s \<longrightarrow> x = Some v"
    and "\<forall>j \<in> set js. job_ok N (counter sv) m j"
    and "\<forall>nm s' v. AsyncPut nm s' v \<in> set (pending sv) \<longrightarrow> AsyncPut nm s' v \<in> set js \<or> content w1 nm s' = Some v"
  shows "svc_inv env N content ok (sv\<lparr>wd := w1, pending := js\<rparr>) m"
proof -
  have keep: "content w1 nm (FormatInt n) = Some v"
    if "(n, v) \<in> set (live (m k))" "content (wd sv) nm (FormatInt n) = Some v" for n v k nm
    using assms(4) that by (auto simp: assms(2))
  have "content w1 (primary r) (Revision_String r) = Some v"
    if "(r, False) \<in> set (ti_hist (indexTree (handler sv)) k)" "(sint (main r), v) \<in> set (live (m k))" for k r v
    using keep [OF that(2)] that svc_invD(6) [OF assms(1)] unfolding data_ok_def Revision_String_def by blast
  then have "data_ok content w1 (indexTree (handler sv)) m" unfolding data_ok_def by blast
  moreover have "repl_ok content w1 js (indexTree (handler sv)) m"
    using svc_invD(8) [OF assms(1)] keep assms(6) unfolding repl_ok_def Revision_String_def by meson
  ultimately show ?thesis using assms(1,3,5) by (simp add: svc_inv_def)
qed

text \<open>A version appended to the history of a key.\<close>

lemma live_add_version:
  "(i, v) \<in> set (live (add_version m k n x k')) \<Longrightarrow> (i, v) \<in> set (live (m k')) \<or> (k' = k \<and> i = n \<and> x = Some v)"
  by (cases x) (auto split: if_splits dest: in_set_butlastD)

lemma append_live_entry:
  assumes "svc_inv env N content ok sv m" and "entry_ok N (r, t) (n, x)" and "newer m n"
    and "(q, False) \<in> set (((ti_hist (indexTree (handler sv)))(k := ti_hist (indexTree (handler sv)) k @ [(r, t)])) k')"
    and "(sint (main q), v) \<in> set (live (add_version m k n x k'))"
  shows "((q, False) \<in> set (ti_hist (indexTree (handler sv)) k') \<and> (sint (main q), v) \<in> set (live (m k'))) \<or> (q = r \<and> x = Some v)"
proof (cases "(q, False) \<in> set (ti_hist (indexTree (handler sv)) k')")
  case True
  have "sint (main q) \<in> fst ` set (m k')"
    using hist_entry [OF svc_invD(3) [OF assms(1)] True] by (auto simp: entry_ok_def)
  moreover have "n \<notin> fst ` set (m k')" using assms(3) by (auto simp: newer_def)
  ultimately have "(sint (main q), v) \<in> set (live (m k'))" using live_add_version [OF assms(5)] by auto
  with True show ?thesis by blast
next
  case False
  then have "q = r" "k' = k" using assms(4) by (auto split: if_splits)
  moreover have "sint (main r) = n" using assms(2) by (simp add: entry_ok_def)
  moreover have "n \<notin> fst ` set (m k)" using assms(3) by (auto simp: newer_def)
  ultimately show ?thesis using live_add_version [OF assms(5)] live_fst by blast
qed

lemma append_job_ok:
  assumes "job_ok N c m j" and "\<forall>v. x = Some v \<longrightarrow> (\<forall>nm s v'. j = AsyncPut nm s v' \<and> s = FormatInt n \<longrightarrow> v' = v) \<and>
      (\<forall>nm s. j = AsyncDelete nm s \<longrightarrow> s \<noteq> FormatInt n)"
  shows "job_ok N c (add_version m k n x) j"
proof (cases j)
  case (AsyncPut nm s v')
  then have "v = v'" if "(i, v) \<in> set (live (add_version m k n x k'))" "FormatInt i = s" for i v k'
    using live_add_version [OF that(1)] assms that(2) by (elim disjE) auto
  then show ?thesis using assms(1) AsyncPut by (simp del: fun_upd_apply) blast
next
  case (AsyncDelete nm s)
  then have "FormatInt i \<noteq> s" if "(i, v) \<in> set (live (add_version m k n x k'))" for i v k'
    using live_add_version [OF that(1)] assms unfolding AsyncDelete job_ok.simps by blast
  then show ?thesis using assms(1) AsyncDelete by (simp del: fun_upd_apply)
qed (use assms(1) in simp)

lemma append_keeps_inv:
  assumes "svc_inv env N content ok sv m"
    and "ti_inv ti' c'" and "uint (counter sv) \<le> uint c'" and "uint c' < 2 ^ 63"
    and "ti_hist ti' = (ti_hist (indexTree (handler sv)))(k := ti_hist (indexTree (handler sv)) k @ [(r, t)])"
    and "entry_ok N (r, t) (n, x)" and "newer m n"
    and "\<forall>v. x = Some v \<longrightarrow> content (wd sv) (primary r) (Revision_String r) = Some v \<and>
      (\<forall>nm \<in> replica_names r. content (wd sv) nm (Revision_String r) = Some v \<or> AsyncPut nm (Revision_String r) v \<in> set (pending sv)) \<and>
      (\<forall>j \<in> set (pending sv). (\<forall>nm s v'. j = AsyncPut nm s v' \<and> s = FormatInt n \<longrightarrow> v' = v) \<and>
         (\<forall>nm s. j = AsyncDelete nm s \<longrightarrow> s \<noteq> FormatInt n))"
  shows "svc_inv env N content ok (set_index ti' c' sv) (add_version m k n x)"
proof -
  let ?m = "add_version m k n x"
  note cases = append_live_entry [where k = k, OF assms(1,6,7), folded assms(5)]
  have "data_ok content (wd sv) ti' ?m"
    unfolding data_ok_def
  proof (intro allI impI, elim conjE)
    fix k' q v assume q: "(q, False) \<in> set (ti_hist ti' k')" "(sint (main q), v) \<in> set (live (?m k'))"
    from cases [OF q] show "content (wd sv) (primary q) (Revision_String q) = Some v"
      using svc_invD(6) [OF assms(1)] assms(8) unfolding data_ok_def by blast
  qed
  moreover have "repl_ok content (wd sv) (pending sv) ti' ?m"
    unfolding repl_ok_def
  proof (intro allI impI, elim conjE)
    fix k' q v nm assume q: "(q, False) \<in> set (ti_hist ti' k')" "(sint (main q), v) \<in> set (live (?m k'))" and nm: "nm \<in> replica_names q"
    from cases [OF q] nm show "content (wd sv) nm (Revision_String q) = Some v \<or> AsyncPut nm (Revision_String q) v \<in> set (pending sv)"
      using svc_invD(8) [OF assms(1)] assms(8) unfolding repl_ok_def by blast
  qed
  moreover have "job_ok N c' ?m j" if "j \<in> set (pending sv)" for j
    using that assms(8) by (intro append_job_ok [OF job_ok_later [OF svc_invD(7) [OF assms(1) that] assms(3,4)]]) blast
  moreover have "list_all2 (entry_ok N) (ti_hist ti' k') (?m k')" for k'
    using svc_invD(3) [OF assms(1)] assms(5,6) by (simp add: list_all2_appendI)
  moreover have "n \<notin> fst ` set (m k')" for k' using assms(7) by (auto simp: newer_def)
  then have "i \<in> fst ` set (?m k1) \<Longrightarrow> i \<in> fst ` set (?m k2) \<Longrightarrow> k1 = k2" for i k1 k2
    using svc_invD(4) [OF assms(1), of i k1 k2] by (auto split: if_splits)
  ultimately show ?thesis
    using svc_invD(1,5) [OF assms(1)] assms(2) unfolding svc_inv_def set_index_def service_ok_def
    by (simp del: fun_upd_apply) blast
qed

lemma counter_keeps_inv:
  assumes "svc_inv env N content ok sv m" and "uint (counter sv) \<le> uint c'" and "uint c' < 2 ^ 63"
  shows "svc_inv env N content ok (sv\<lparr>counter := c'\<rparr>) m"
proof -
  have "ti_inv (indexTree (handler sv)) c'"
    using svc_invD(2) [OF assms(1)] assms(2) by (auto simp: ti_inv_def word_le_def intro: ki_inv_later)
  moreover have "job_ok N c' m j" if "j \<in> set (pending sv)" for j
    by (rule job_ok_later [OF svc_invD(7) [OF assms(1) that] assms(2,3)])
  ultimately show ?thesis using assms(1) unfolding svc_inv_def by simp
qed

section \<open>Reading, writing and deleting under the invariant\<close>

lemma primary_eq: "nodes r = [Join sns '','', Join ans '',''] \<Longrightarrow> names_ok sns \<Longrightarrow> sns \<noteq> [] \<Longrightarrow> primary r = sns ! 0"
  by (simp add: primary_def Split_names(2))

lemma replica_names_eq:
  assumes "nodes r = [Join sns '','', Join ans '','']" and "names_ok sns" and "names_ok ans" and "sns \<noteq> []"
  shows "replica_names r = set sns \<union> set ans"
proof -
  have "set (Split (Join ans '','') '','') - {[]} = set (filter (\<lambda>n. n \<noteq> []) (Split (Join ans '','') '',''))" by auto
  then show ?thesis using assms Split_names by (simp add: replica_names_def)
qed

lemma service_piping:
  assumes "svc_inv env N content ok sv m"
  obtains sap where "piping (handler sv) = SyncAsyncP sap"
    and "store_contract (conf (handler sv)) (env_api env) (sap_databaseType sap) content ok"
  using svc_invD(1) [OF assms] by (auto simp: service_ok_def)

text \<open>A write of a revision whose number no version has; \<open>no_conflict\<close> says that a
  pending job will not change the new version.\<close>

definition no_conflict :: "int \<Rightarrow> string \<Rightarrow> job \<Rightarrow> bool" where
  "no_conflict n v j \<longleftrightarrow> (\<forall>nm s v'. j = AsyncPut nm s v' \<and> s = FormatInt n \<longrightarrow> v' = v) \<and>
     (\<forall>nm s. j = AsyncDelete nm s \<longrightarrow> s \<noteq> FormatInt n)"

lemma old_job_no_conflict:
  assumes "job_ok N c m j" and "uint c < n" and "n < 2 ^ 63"
  shows "no_conflict n v j"
proof -
  have "FormatInt i \<noteq> FormatInt n" if "0 < i" "i \<le> uint c" for i
    using FormatInt_eq_iff [of i n] that assms(2,3) by simp
  with assms(1) show ?thesis by (cases j) (auto simp: no_conflict_def)
qed

lemma fresh_name:
  assumes "svc_inv env N content ok sv m" and "uint (counter sv) + 1 < 2 ^ 63" and "(i, v) \<in> set (live (m k))"
  shows "FormatInt i \<noteq> FormatInt (uint (counter sv) + 1)"
  using svc_versions_bounds [OF assms(1) live_fst [OF assms(3)]] FormatInt_eq_iff [of i "uint (counter sv) + 1"] assms(2) by simp

lemma new_put_job_ok:
  assumes "svc_inv env N content ok sv m" and "uint (counter sv) + 1 < 2 ^ 63" and "nm \<in> N"
  shows "job_ok N (counter sv + 1) m (AsyncPut nm (FormatInt (uint (counter sv) + 1)) v)"
proof -
  let ?n = "uint (counter sv) + 1"
  have "\<exists>i. FormatInt ?n = FormatInt i \<and> 0 < i \<and> i \<le> uint (counter sv + 1) \<and> uint (counter sv + 1) < 2 ^ 63"
    using sint_counter_Suc(2) [OF assms(2)] assms(2) by (intro exI [of _ ?n]) simp
  then show ?thesis using assms(3) fresh_name [OF assms(1,2)] unfolding job_ok.simps by blast
qed

lemma write_keeps_inv:
  assumes "svc_inv env N content ok sv m" and "uint (counter sv) + 1 < 2 ^ 63" and "fair ch" and "replicas_ok N ns"
    and "r = NewRevision (counter sv + 1) 0 ns"
    and "piping_Write (conf (handler sv)) (env_api env) ch (piping (handler sv)) r v (wd sv) = (res, js, w1)"
  shows "res = Ok ()"
    and "svc_inv env N content ok (sv\<lparr>counter := counter sv + 1, wd := w1, pending := pending sv @ js\<rparr>) m"
    and "content w1 (primary r) (Revision_String r) = Some v"
    and "\<forall>j \<in> set (pending sv @ js). no_conflict (uint (counter sv) + 1) v j"
    and "\<forall>nm \<in> replica_names r. content w1 nm (Revision_String r) = Some v \<or> AsyncPut nm (Revision_String r) v \<in> set (pending sv @ js)"
proof -
  let ?n = "uint (counter sv) + 1"
  obtain sap where sap: "piping (handler sv) = SyncAsyncP sap"
    and con: "store_contract (conf (handler sv)) (env_api env) (sap_databaseType sap) content ok"
    using service_piping [OF assms(1)] .
  obtain sns ans where ns: "nodes r = [Join sns '','', Join ans '','']" "names_ok sns" "names_ok ans" "sns \<noteq> []" "set sns \<union> set ans \<subseteq> N"
    using assms(4,5) by (auto simp: replicas_ok_def NewRevision_def)
  have okN: "\<forall>n \<in> set sns. ok n (wd sv)" using ns(5) svc_invD(5) [OF assms(1)] by blast
  have s: "Revision_String r = FormatInt ?n"
    using assms(5) sint_counter_Suc(1) [OF assms(2)] by (simp add: Revision_String_def NewRevision_def)
  have ord: "mset (name_order ch sns) = mset sns" using assms(3) by (simp add: fair_def)
  have "sap_Write (conf (handler sv)) (env_api env) (name_order ch) sap r v (wd sv) = (res, js, w1)"
    using assms(6) sap by simp
  note W = sap_Write_law [OF con ns(1-4) okN _ this, OF ord, unfolded s]
  have old: "FormatInt i \<noteq> FormatInt ?n" if "(i, v') \<in> set (live (m k))" for i v' k
    by (rule fresh_name [OF assms(1,2) that])
  let ?sv1 = "sv\<lparr>counter := counter sv + 1\<rparr>"
  have wd1: "wd ?sv1 = wd sv" by simp
  have inv1: "svc_inv env N content ok ?sv1 m"
    using counter_keeps_inv [OF assms(1)] sint_counter_Suc(2) [OF assms(2)] assms(2) by simp
  show "res = Ok ()" by (rule W(1))
  have "job_ok N (counter sv + 1) m j" if "j \<in> set (pending sv @ js)" for j
    using that svc_invD(7) [OF inv1] W(2) ns(5) new_put_job_ok [OF assms(1,2)] by auto
  then have "svc_inv env N content ok (?sv1\<lparr>wd := w1, pending := pending sv @ js\<rparr>) m"
    using old by (intro content_keeps_inv [OF inv1, of w1 "set sns" "FormatInt ?n" "Some v", unfolded wd1, OF W(3,4)]) auto
  then show "svc_inv env N content ok (sv\<lparr>counter := counter sv + 1, wd := w1, pending := pending sv @ js\<rparr>) m" by simp
  show "content w1 (primary r) (Revision_String r) = Some v"
    using W(3) primary_eq [OF ns(1,2,4)] ns(4) s by simp
  show "\<forall>nm \<in> replica_names r. content w1 nm (Revision_String r) = Some v \<or> AsyncPut nm (Revision_String r) v \<in> set (pending sv @ js)"
    using W(2,3) s unfolding replica_names_eq [OF ns(1-4)] by auto
  show "\<forall>j \<in> set (pending sv @ js). no_conflict ?n v j"
  proof
    fix j assume "j \<in> set (pending sv @ js)"
    then consider "j \<in> set (pending sv)" | nm where "j = AsyncPut nm (FormatInt ?n) v" using W(2) by auto
    then show "no_conflict ?n v j"
    proof cases
      case 1
      then show ?thesis using old_job_no_conflict [OF svc_invD(7) [OF assms(1)], of j ?n v] assms(2) by simp
    qed (simp add: no_conflict_def)
  qed
qed

lemma delete_keeps_inv:
  assumes "svc_inv env N content ok sv m" and "fair ch" and "replicas_ok N (nodes r)"
    and "0 < sint (main r)" and "sint (main r) \<le> uint (counter sv)" and "uint (counter sv) < 2 ^ 63"
    and "\<forall>k v. (sint (main r), v) \<notin> set (live (m k))"
    and "piping_Delete (conf (handler sv)) (env_api env) ch (piping (handler sv)) r (wd sv) = (res, js, w1)"
  shows "res = Ok () \<and> svc_inv env N content ok (sv\<lparr>wd := w1, pending := pending sv @ js\<rparr>) m"
proof -
  let ?n = "sint (main r)"
  obtain sap where sap: "piping (handler sv) = SyncAsyncP sap"
    and con: "store_contract (conf (handler sv)) (env_api env) (sap_databaseType sap) content ok"
    using service_piping [OF assms(1)] .
  obtain sns ans where ns: "nodes r = [Join sns '','', Join ans '','']" "names_ok sns" "names_ok ans" "sns \<noteq> []" "set sns \<union> set ans \<subseteq> N"
    using assms(3) by (auto simp: replicas_ok_def)
  have okN: "\<forall>n \<in> set sns. ok n (wd sv)" using ns(5) svc_invD(5) [OF assms(1)] by blast
  have ord: "mset (name_order ch sns) = mset sns" using assms(2) by (simp add: fair_def)
  have "sap_Delete (conf (handler sv)) (env_api env) (name_order ch) sap r (wd sv) = (res, js, w1)"
    using assms(8) sap by simp
  note D = sap_Delete_law [OF con ns(1-4) okN _ this, OF ord, unfolded Revision_String_def]
  have gone: "FormatInt i \<noteq> FormatInt ?n" if "(i, v) \<in> set (live (m k))" for i v k
    using svc_versions_bounds [OF assms(1) live_fst [OF that]] FormatInt_eq_iff [of i ?n] assms(4-7) that by auto
  have "job_ok N (counter sv) m j" if j: "j \<in> set (pending sv @ js)" for j
  proof (cases "j \<in> set (pending sv)")
    case False
    then obtain nm where "j = AsyncDelete nm (FormatInt ?n)" "nm \<in> N" using j D(2) ns(5) by auto
    then show ?thesis using gone assms(4-6) by auto
  qed (rule svc_invD(7) [OF assms(1)])
  then have "svc_inv env N content ok (sv\<lparr>wd := w1, pending := pending sv @ js\<rparr>) m"
    using gone by (intro content_keeps_inv [OF assms(1), of w1 "set sns" "FormatInt ?n" None, OF D(3,4)]) auto
  with D(1) show ?thesis by simp
qed

lemma read_keeps_inv:
  assumes "svc_inv env N content ok sv m" and "(r, False) \<in> set (ti_hist (indexTree (handler sv)) k)"
    and "(sint (main r), v) \<in> set (live (m k))"
    and "getValueByRev env ch r sv = (res, sv1)"
  shows "res = Ok v \<and> svc_inv env N content ok sv1 m \<and> handler sv1 = handler sv \<and> counter sv1 = counter sv"
proof -
  obtain sap where sap: "piping (handler sv) = SyncAsyncP sap"
    and con: "store_contract (conf (handler sv)) (env_api env) (sap_databaseType sap) content ok"
    using service_piping [OF assms(1)] .
  obtain a where "a \<in> set (m k)" "entry_ok N (r, False) a" using hist_entry [OF svc_invD(3) [OF assms(1)] assms(2)] by blast
  then obtain sns ans where ns: "nodes r = [Join sns '','', Join ans '','']" "names_ok sns" "sns \<noteq> []" "set sns \<subseteq> N"
    by (auto simp: entry_ok_def replicas_ok_def)
  have "sns ! 0 \<in> N" using ns(3,4) nth_mem [of 0 sns] by auto
  then have okp: "ok (sns ! 0) (wd sv)" by (rule svc_invD(5) [OF assms(1)])
  have val: "content (wd sv) (sns ! 0) (Revision_String r) = Some v"
    using svc_invD(6) [OF assms(1)] assms(2,3) primary_eq [OF ns(1-3)] unfolding data_ok_def by metis
  obtain w1 where rd: "sap_Read (conf (handler sv)) (env_api env) sap r (wd sv) = (res, w1)" "sv1 = sv\<lparr>wd := w1\<rparr>"
    using assms(4) sap by (cases "sap_Read (conf (handler sv)) (env_api env) sap r (wd sv)") (simp add: getValueByRev_def)
  note R = sap_Read_law [OF con ns(1-3) okp rd(1)]
  have "svc_inv env N content ok (sv\<lparr>wd := w1, pending := pending sv\<rparr>) m"
    by (rule content_keeps_inv [OF assms(1), of w1 "{}" "[]" None]) (use R svc_invD(7) [OF assms(1)] in simp_all)
  then show ?thesis using R(1) [OF val] rd(2) by simp
qed

lemma read_any_keeps_inv:
  assumes "svc_inv env N content ok sv m" and "(r, t) \<in> set (ti_hist (indexTree (handler sv)) k)"
    and "getValueByRev env ch r sv = (res, sv1)"
  shows "svc_inv env N content ok sv1 m \<and> handler sv1 = handler sv \<and> counter sv1 = counter sv \<and>
    (\<forall>p. res \<noteq> Panic p) \<and> (t \<longrightarrow> (\<exists>e. res = Err e))"
proof -
  obtain sap where sap: "piping (handler sv) = SyncAsyncP sap"
    and con: "store_contract (conf (handler sv)) (env_api env) (sap_databaseType sap) content ok"
    using service_piping [OF assms(1)] .
  obtain a where a: "entry_ok N (r, t) a" using hist_entry [OF svc_invD(3) [OF assms(1)] assms(2)] by blast
  obtain w1 where rd: "sap_Read (conf (handler sv)) (env_api env) sap r (wd sv) = (res, w1)" "sv1 = sv\<lparr>wd := w1\<rparr>"
    using assms(3) sap by (cases "sap_Read (conf (handler sv)) (env_api env) sap r (wd sv)") (simp add: getValueByRev_def)
  show ?thesis
  proof (cases t)
    case True
    then have "nodes r = []" using a by (auto simp: entry_ok_def split: if_splits)
    then show ?thesis using rd assms(1) by (auto simp: sap_Read_def splitStores_def)
  next
    case False
    then obtain sns ans where ns: "nodes r = [Join sns '','', Join ans '','']" "names_ok sns" "sns \<noteq> []" "set sns \<subseteq> N"
      using a by (auto simp: entry_ok_def replicas_ok_def split: if_splits)
    have "sns ! 0 \<in> N" using ns(3,4) nth_mem [of 0 sns] by auto
    then have okp: "ok (sns ! 0) (wd sv)" by (rule svc_invD(5) [OF assms(1)])
    note R = sap_Read_law [OF con ns(1-3) okp rd(1)]
    have "svc_inv env N content ok (sv\<lparr>wd := w1, pending := pending sv\<rparr>) m"
      by (rule content_keeps_inv [OF assms(1), of w1 "{}" "[]" None]) (use R svc_invD(7) [OF assms(1)] in simp_all)
    then show ?thesis using R(4) rd(2) False by simp
  qed
qed

end
