(* ===== verification/Service_Requests.thy ===== *)
theory Service_Requests
  imports Service
begin

text \<open>
  Each request under the invariant of the service: it is answered, its answer and its effect are
  a step of the specification, and the invariant holds again; a pending job keeps the invariant
  and changes no answer.
\<close>

section \<open>The index under the invariant\<close>

lemma newest_greater:
  assumes "ti_inv ti c" and "uint c < sint (main r)" and "lookup ti k = Some ki"
  shows "GreaterThan r (modified ki)"
proof -
  have ki: "ki_inv ki c" using assms(1) lookup_Some [OF _ assms(3)] by (auto simp: ti_inv_def)
  have "last (history ki) = (modified ki, snd (last (history ki)))"
    using kidx.hist_nonempty [OF ki] by (metis prod.collapse)
  then have "(modified ki, snd (last (history ki))) \<in> set (ti_hist ti k)"
    using kidx.hist_nonempty [OF ki] last_in_set [of "history ki"] assms(3) by (simp add: ti_hist_def)
  then have "sint (main (modified ki)) \<le> uint c" using ti_hist_mains(2) [OF assms(1)] by blast
  with assms(2) show ?thesis by (simp add: GreaterThan_def)
qed

lemma tree_mutate_same: "tree_ok (tree ti) \<Longrightarrow> lookup ti k = Some ki \<Longrightarrow> tree_mutate ki (tree ti) = tree ti"
  unfolding tree_mutate_def by (rule map_idI) (metis tree_Get_iff newKeyIndex_sel(1) option.inject)

lemma Update_cases:
  assumes "ti_inv ti c"
  shows "ti_hist ti k = [] \<Longrightarrow> Update ti k r a c = (Err ErrRevisionNotFound, ti, c)"
    and "ti_hist ti k \<noteq> [] \<Longrightarrow> main (fst (last (ti_hist ti k))) \<noteq> a \<Longrightarrow> Update ti k r a c = (Err ErrNotLatest, ti, c)"
    and "ti_hist ti k \<noteq> [] \<Longrightarrow> main (fst (last (ti_hist ti k))) = a \<Longrightarrow> Update ti k r a c = (Ok (), Put ti k r c)"
proof -
  have ok: "tree_ok (tree ti)" using assms by (simp add: ti_inv_def)
  have ki: "ki_inv ki c" if "lookup ti k = Some ki" for ki using assms lookup_Some [OF ok that] by (auto simp: ti_inv_def)
  have h: "ti_hist ti k = history ki \<and> history ki \<noteq> [] \<and> fst (last (history ki)) = modified ki" if "lookup ti k = Some ki" for ki
    using kidx.hist_nonempty [OF ki [OF that]] that by (simp add: ti_hist_def)
  show "Update ti k r a c = (Err ErrRevisionNotFound, ti, c)" if "ti_hist ti k = []"
    using that h by (cases "lookup ti k") (auto simp: Update_def)
  assume ne: "ti_hist ti k \<noteq> []"
  then obtain q where q: "lookup ti k = Some q" by (cases "lookup ti k") (auto simp: ti_hist_def)
  show "Update ti k r a c = (Err ErrNotLatest, ti, c)" if "main (fst (last (ti_hist ti k))) \<noteq> a"
    using that h [OF q] q tree_mutate_same [OF ok q] by (simp add: Update_def update_def)
  show "Update ti k r a c = (Ok (), Put ti k r c)" if "main (fst (last (ti_hist ti k))) = a"
    using that h [OF q] q by (simp add: Update_def update_def Put_def split: prod.splits)
qed

section \<open>Requests\<close>

lemma primary_bytes:
  assumes "BucketSize c \<noteq> 0"
  shows "\<exists>b. getPrimaryRevBytesWithBucket c r = Ok b"
  using assms by (simp add: getPrimaryRevBytesWithBucket_def LittleEndian_PutUint64_def Let_def)

text \<open>What a create has done when it reaches the index.\<close>

lemma create_writes:
  assumes "svc_inv env N content ok sv m" and "uint (counter sv) + 1 < 2 ^ 63" and "fair ch" and "Body rq = Payload pl"
  obtains ns w1 js where "createKV_with env ch rq revParam a sv =
      (case index_kv revParam a (payload_Get pl ''key'') (NewRevision (counter sv + 1) 0 ns) (indexTree (handler sv)) (counter sv + 1) of
         (res, ti, c2) \<Rightarrow> (result_bind res (\<lambda>_. Ok (saved_text (payload_Get pl ''key'') (payload_Get pl ''value'')
            (uint (counter sv) + 1) (Join ns '',''))),
          set_index ti c2 (sv\<lparr>counter := counter sv + 1, wd := w1, pending := pending sv @ js\<rparr>)))"
    and "replicas_ok N ns"
    and "svc_inv env N content ok (sv\<lparr>counter := counter sv + 1, wd := w1, pending := pending sv @ js\<rparr>) m"
    and "content w1 (primary (NewRevision (counter sv + 1) 0 ns)) (FormatInt (uint (counter sv) + 1)) = Some (payload_Get pl ''value'')"
    and "\<forall>j \<in> set (pending sv @ js). no_conflict (uint (counter sv) + 1) (payload_Get pl ''value'') j"
    and "\<forall>nm \<in> replica_names (NewRevision (counter sv + 1) 0 ns). content w1 nm (FormatInt (uint (counter sv) + 1)) = Some (payload_Get pl ''value'') \<or>
      AsyncPut nm (FormatInt (uint (counter sv) + 1)) (payload_Get pl ''value'') \<in> set (pending sv @ js)"
proof -
  let ?c = "counter sv" and ?h = "handler sv"
  note ok = svc_invD(1) [OF assms(1), unfolded service_ok_def]
  obtain b where b: "getPrimaryRevBytesWithBucket (conf ?h) (NewRevision (?c + 1) 0 []) = Ok b"
    using primary_bytes ok by blast
  obtain ns where ns: "hm_GetNodes (env_hash env) (env_sort_nodes env) (hm ?h) b = Ok ns" "replicas_ok N ns"
    using ok by blast
  let ?r = "NewRevision (?c + 1) 0 ns"
  obtain res js w1 where w: "piping_Write (conf ?h) (env_api env) ch (piping ?h) ?r (payload_Get pl ''value'') (wd sv) = (res, js, w1)"
    by (metis prod_cases3)
  note W = write_keeps_inv [OF assms(1-3) ns(2) refl w]
  have s: "Revision_String ?r = FormatInt (uint ?c + 1)"
    using sint_counter_Suc(1) [OF assms(2)] by (simp add: Revision_String_def NewRevision_def)
  have u: "FormatUint (?c + 1) = FormatInt (uint ?c + 1)"
    using sint_counter_Suc(2) [OF assms(2)] FormatUint_uint [of "?c + 1"] by simp
  have e: "createKV_with env ch rq revParam a sv =
      (case index_kv revParam a (payload_Get pl ''key'') ?r (indexTree ?h) (?c + 1) of
         (res, ti, c2) \<Rightarrow> (result_bind res (\<lambda>_. Ok (saved_text (payload_Get pl ''key'') (payload_Get pl ''value'')
            (uint ?c + 1) (Join ns '',''))),
          set_index ti c2 (sv\<lparr>counter := ?c + 1, wd := w1, pending := pending sv @ js\<rparr>)))"
    using b ns(1) w W(1) assms(4)
    by (simp add: createKV_with_def GetGlobalIncreasingRevision_def SetNodes_def NewRevision_def saved_text_def u)
  show thesis by (rule that [OF e ns(2) W(2) W(3) [unfolded s] W(4) W(5) [unfolded s]])
qed

lemma put_keeps_inv:
  assumes "svc_inv env N content ok sv m" and "uint (counter sv) + 2 < 2 ^ 63" and "fair ch" and "Body rq = Payload pl"
    and "index_kv revParam a k = (\<lambda>r ti c. (Ok (), Put ti k r c)) \<or>
      (revParam \<noteq> [] \<and> m k \<noteq> [] \<and> fst (last (m k)) = sint a)"
    and "k = payload_Get pl ''key''" and "v = payload_Get pl ''value''"
    and "createKV_with env ch rq revParam a sv = (res, sv1)"
  shows "\<exists>at n. res = Ok (saved_text k v n at) \<and> newer m n \<and> svc_inv env N content ok sv1 (add_version m k n (Some v)) \<and>
    uint (counter sv1) \<le> uint (counter sv) + 2"
proof -
  let ?c1 = "counter sv + 1" and ?n = "uint (counter sv) + 1" and ?ti = "indexTree (handler sv)"
  have c: "uint (counter sv) + 1 < 2 ^ 63" using assms(2) by simp
  note c1 = sint_counter_Suc [OF c]
  obtain ns w1 js where e: "createKV_with env ch rq revParam a sv =
      (case index_kv revParam a k (NewRevision ?c1 0 ns) ?ti ?c1 of
         (res, ti, c2) \<Rightarrow> (result_bind res (\<lambda>_. Ok (saved_text k v ?n (Join ns '',''))),
          set_index ti c2 (sv\<lparr>counter := ?c1, wd := w1, pending := pending sv @ js\<rparr>)))"
    and ns: "replicas_ok N ns"
    and inv: "svc_inv env N content ok (sv\<lparr>counter := ?c1, wd := w1, pending := pending sv @ js\<rparr>) m"
    and val: "content w1 (primary (NewRevision ?c1 0 ns)) (FormatInt ?n) = Some v"
    and jobs: "\<forall>j \<in> set (pending sv @ js). no_conflict ?n v j"
    and repl: "\<forall>nm \<in> replica_names (NewRevision ?c1 0 ns). content w1 nm (FormatInt ?n) = Some v \<or>
      AsyncPut nm (FormatInt ?n) v \<in> set (pending sv @ js)"
    by (rule create_writes [where revParam = revParam and a = a, OF assms(1) c assms(3,4), folded assms(6,7)]) (rule that)
  let ?r = "NewRevision ?c1 0 ns" and ?sv2 = "sv\<lparr>counter := ?c1, wd := w1, pending := pending sv @ js\<rparr>"
  have r: "sint (main ?r) = ?n" "Revision_String ?r = FormatInt ?n" "sub ?r = 0" "nodes ?r = ns"
    using c1(1) by (simp_all add: NewRevision_def Revision_String_def)
  have ti1: "ti_inv ?ti ?c1" using svc_invD(2) [OF inv] by simp
  note h = hist_last [OF svc_invD(3) [OF assms(1), of k]]
  have "index_kv revParam a k ?r ?ti ?c1 = (Ok (), Put ?ti k ?r ?c1)"
    using assms(5)
  proof
    assume u: "revParam \<noteq> [] \<and> m k \<noteq> [] \<and> fst (last (m k)) = sint a"
    then have "ti_hist ?ti k \<noteq> []" "main (fst (last (ti_hist ?ti k))) = a" using h by (auto simp: entry_ok_def)
    from Update_cases(3) [OF ti1 this] u show ?thesis by (simp add: index_kv_def)
  qed simp
  moreover obtain ti' c2 where p: "Put ?ti k ?r ?c1 = (ti', c2)" by force
  ultimately have res: "res = Ok (saved_text k v ?n (Join ns '',''))" "sv1 = set_index ti' c2 ?sv2"
    using e assms(8) by simp_all
  have gt: "\<forall>ki. lookup ?ti k = Some ki \<longrightarrow> GreaterThan ?r (modified ki)"
    using newest_greater [OF svc_invD(2) [OF assms(1)], of ?r k] r(1) by simp
  have "ti_inv ti' c2 \<and> ti_hist ti' = (ti_hist ?ti)(k := ti_hist ?ti k @ [(?r, False)]) \<and> uint ?c1 \<le> uint c2 \<and> uint c2 \<le> uint ?c1 + 1"
    by (rule Put_refines [OF ti1 _ _ _ gt p]) (use r(1) c1 assms(2) in simp_all)
  moreover have new: "newer m ?n" by (rule svc_fresh(1) [OF assms(1)]) simp
  moreover have "entry_ok N (?r, False) (?n, Some v)" using r ns by (simp add: entry_ok_def)
  ultimately have "svc_inv env N content ok (set_index ti' c2 ?sv2) (add_version m k ?n (Some v))"
    using append_keeps_inv [OF inv, of ti' c2 k ?r False ?n "Some v"] c1(2) assms(2) val jobs repl r(2)
    by (simp add: no_conflict_def)
  moreover have "uint c2 \<le> uint (counter sv) + 2"
    using \<open>ti_inv ti' c2 \<and> _\<close> c1(2) by simp
  ultimately show ?thesis using res new by (auto simp: set_index_def)
qed

lemma update_rejected:
  assumes "svc_inv env N content ok sv m" and "uint (counter sv) + 2 < 2 ^ 63" and "fair ch" and "Body rq = Payload pl"
    and "revParam \<noteq> []" and "k = payload_Get pl ''key''" and "m k = [] \<or> fst (last (m k)) \<noteq> sint a"
    and "createKV_with env ch rq revParam a sv = (res, sv1)"
  shows "res = Err (if m k = [] then ErrRevisionNotFound else ErrNotLatest) \<and> svc_inv env N content ok sv1 m \<and>
    uint (counter sv1) \<le> uint (counter sv) + 2"
proof -
  let ?c1 = "counter sv + 1" and ?ti = "indexTree (handler sv)"
  have c: "uint (counter sv) + 1 < 2 ^ 63" using assms(2) by simp
  obtain ns w1 js where e: "createKV_with env ch rq revParam a sv =
      (case index_kv revParam a k (NewRevision ?c1 0 ns) ?ti ?c1 of
         (res, ti, c2) \<Rightarrow> (result_bind res (\<lambda>_. Ok (saved_text k (payload_Get pl ''value'') (uint (counter sv) + 1) (Join ns '',''))),
          set_index ti c2 (sv\<lparr>counter := ?c1, wd := w1, pending := pending sv @ js\<rparr>)))"
    and inv: "svc_inv env N content ok (sv\<lparr>counter := ?c1, wd := w1, pending := pending sv @ js\<rparr>) m"
    by (rule create_writes [where revParam = revParam and a = a, OF assms(1) c assms(3,4), folded assms(6)]) (rule that)
  have ti1: "ti_inv ?ti ?c1" using svc_invD(2) [OF inv] by simp
  note h = hist_last [OF svc_invD(3) [OF assms(1), of k]]
  have "Update ?ti k (NewRevision ?c1 0 ns) a ?c1 = (Err (if m k = [] then ErrRevisionNotFound else ErrNotLatest), ?ti, ?c1)"
  proof (cases "m k = []")
    case True
    then show ?thesis using Update_cases(1) [OF ti1] h(1) by simp
  next
    case False
    then have "ti_hist ?ti k \<noteq> []" "main (fst (last (ti_hist ?ti k))) \<noteq> a" using h assms(7) by (auto simp: entry_ok_def)
    from Update_cases(2) [OF ti1 this] False show ?thesis by simp
  qed
  then have "res = Err (if m k = [] then ErrRevisionNotFound else ErrNotLatest)"
    "sv1 = set_index ?ti ?c1 (sv\<lparr>counter := ?c1, wd := w1, pending := pending sv @ js\<rparr>)"
    using e assms(5,8) by (simp_all add: index_kv_def split: if_splits)
  moreover have "set_index ?ti ?c1 (sv\<lparr>counter := ?c1, wd := w1, pending := pending sv @ js\<rparr>) =
      sv\<lparr>counter := ?c1, wd := w1, pending := pending sv @ js\<rparr>" by (simp add: set_index_def)
  ultimately show ?thesis using inv sint_counter_Suc(2) [OF c] by simp
qed

lemma last_live: "es \<noteq> [] \<Longrightarrow> last es = (n, Some v) \<Longrightarrow> live es = live (butlast es) @ [(n, v)]"
  by (metis append_butlast_last_id live_snoc(2))

lemma butlast_fresh: "distinct (map fst es) \<Longrightarrow> es \<noteq> [] \<Longrightarrow> fst (last es) \<notin> fst ` set (butlast es)"
  by (cases es rule: rev_cases) auto

text \<open>The entry of the index for the last version of a key.\<close>

lemma last_revision:
  assumes "svc_inv env N content ok sv m" and "m k \<noteq> []" and "last (m k) = (n, Some v)"
  obtains r cr vs where "Get (indexTree (handler sv)) k 0 = Ok (r, cr, vs)" and "(r, False) \<in> set (ti_hist (indexTree (handler sv)) k)"
    and "last (ti_hist (indexTree (handler sv)) k) = (r, False)" and "sint (main r) = n" and "sub r = 0" and "replicas_ok N (nodes r)"
proof -
  let ?h = "ti_hist (indexTree (handler sv)) k"
  have ne: "?h \<noteq> []" and e: "entry_ok N (last ?h) (n, Some v)"
    using hist_last [OF svc_invD(3) [OF assms(1), of k]] assms(2,3) by auto
  obtain r where l: "last ?h = (r, False)" using e by (cases "last ?h") (auto simp: entry_ok_def)
  then have "(r, False) \<in> set ?h" using ne last_in_set by metis
  moreover obtain cr vs where "Get (indexTree (handler sv)) k 0 = Ok (r, cr, vs)"
    using Get_refines(3) [OF svc_invD(2) [OF assms(1)] ne] l by auto
  ultimately show thesis using that e l by (auto simp: entry_ok_def)
qed

lemma no_revision:
  assumes "svc_inv env N content ok sv m" and "m k = [] \<or> snd (last (m k)) = None"
  shows "Get (indexTree (handler sv)) k 0 = Err ErrRevisionNotFound"
proof -
  let ?h = "ti_hist (indexTree (handler sv)) k"
  have "?h = [] \<or> snd (last ?h)"
    using hist_last [OF svc_invD(3) [OF assms(1), of k]] assms(2) by (auto simp: entry_ok_def)
  then show ?thesis by (rule Get_refines(2) [OF svc_invD(2) [OF assms(1)]])
qed

lemma removed_not_live:
  assumes "svc_inv env N content ok sv m" and "m k \<noteq> []" and "last (m k) = (n, Some v)"
  shows "(n, v') \<notin> set (live (add_version m k n' None k'))"
proof
  assume l: "(n, v') \<in> set (live (add_version m k n' None k'))"
  have "n \<in> fst ` set (m k)" using assms(2,3) last_in_set by force
  moreover have "(n, v') \<in> set (live (m k'))" using live_add_version [OF l] by simp
  ultimately have "k' = k" using svc_invD(4) [OF assms(1)] live_fst by blast
  then have "n \<in> fst ` set (butlast (m k))" using l last_live [OF assms(2,3)] live_fst by (auto simp: butlast_append)
  moreover have "distinct (map fst (m k))" using svc_versions_sorted [OF assms(1), of k] by (simp add: strict_sorted_iff)
  then have "n \<notin> fst ` set (butlast (m k))" using butlast_fresh [of "m k"] assms(2,3) by simp
  ultimately show False by blast
qed

lemma delete_request:
  assumes "svc_inv env N content ok sv m" and "uint (counter sv) + 2 < 2 ^ 63" and "fair ch"
    and "m k \<noteq> []" and "last (m k) = (n, Some v)"
    and "Query rq = [(''key'', [k])]" and "deleteKV env ch rq sv = (res, sv1)"
  shows "\<exists>txt n'. res = Ok txt \<and> txt \<noteq> [] \<and> newer m n' \<and> svc_inv env N content ok sv1 (add_version m k n' None) \<and>
    uint (counter sv1) \<le> uint (counter sv) + 2"
proof -
  let ?c1 = "counter sv + 1" and ?n = "uint (counter sv) + 1" and ?ti = "indexTree (handler sv)" and ?h = "handler sv"
  have c: "uint (counter sv) + 1 < 2 ^ 63" using assms(2) by simp
  note c1 = sint_counter_Suc [OF c]
  obtain r cr vs where g: "Get ?ti k 0 = Ok (r, cr, vs)" and rh: "(r, False) \<in> set (ti_hist ?ti k)"
    and rl: "last (ti_hist ?ti k) = (r, False)" and rn: "sint (main r) = n" and rs: "sub r = 0" and rr: "replicas_ok N (nodes r)"
    by (rule last_revision [OF assms(1,4,5)])
  let ?t = "NewRevision ?c1 0 []"
  obtain dres js w1 where d: "piping_Delete (conf ?h) (env_api env) ch (piping ?h) r (wd sv) = (dres, js, w1)" by (metis prod_cases3)
  obtain tres ti' c2 where t: "Tombstone ?ti k ?t ?c1 = (tres, ti', c2)" by (metis prod_cases3)
  have ti1: "ti_inv ?ti ?c1" using svc_invD(2) [OF counter_keeps_inv [OF assms(1), of ?c1]] c1(2) c by simp
  have gt: "\<forall>ki. lookup ?ti k = Some ki \<longrightarrow> GreaterThan ?t (modified ki)"
    using newest_greater [OF svc_invD(2) [OF assms(1)], of ?t k] c1(1) by (simp add: NewRevision_def)
  have "ti_hist ?ti k \<noteq> []" using rh by auto
  then have T: "ti_inv ti' c2" "uint ?c1 \<le> uint c2" "uint c2 \<le> uint ?c1 + 1" "tres = Ok ()"
      "ti_hist ti' = (ti_hist ?ti)(k := ti_hist ?ti k @ [(?t, True)])"
    using Tombstone_refines [OF ti1 _ _ _ gt t] c1 assms(2) rl by (simp_all add: NewRevision_def)
  let ?m = "add_version m k ?n None" and ?sv2 = "set_index ti' c2 sv"
  have new: "newer m ?n" by (rule svc_fresh(1) [OF assms(1)]) simp
  have "entry_ok N (?t, True) (?n, None)" using c1(1) by (simp add: entry_ok_def NewRevision_def)
  then have inv2: "svc_inv env N content ok ?sv2 ?m"
    using append_keeps_inv [OF assms(1) T(1), of k ?t True ?n None] T c1(2) assms(2) new by simp
  have "(n, v') \<notin> set (live (?m k'))" for k' v' by (rule removed_not_live [OF assms(1,4,5)])
  moreover have "piping_Delete (conf (handler ?sv2)) (env_api env) ch (piping (handler ?sv2)) r (wd ?sv2) = (dres, js, w1)"
    using d by (simp add: set_index_def)
  moreover have "0 < sint (main r)" "sint (main r) \<le> uint (counter ?sv2)" "uint (counter ?sv2) < 2 ^ 63"
    using ti_hist_mains(2) [OF svc_invD(2) [OF assms(1)] rh] T(2,3) c1(2) assms(2) by (simp_all add: set_index_def)
  ultimately have D: "dres = Ok ()" "svc_inv env N content ok (?sv2\<lparr>wd := w1, pending := pending ?sv2 @ js\<rparr>) ?m"
    using delete_keeps_inv [OF inv2 assms(3) rr] rn by simp_all
  have sv2: "set_index ti' c2 (sv\<lparr>wd := w1, pending := pending sv @ js\<rparr>) = ?sv2\<lparr>wd := w1, pending := pending ?sv2 @ js\<rparr>"
    by (cases sv) (simp add: set_index_def)
  have "res = Ok (''The key '' @ fmt_slice [k] @ '' has been removed at '' @ fmt_slice (nodes r) @ newline)"
    "sv1 = ?sv2\<lparr>wd := w1, pending := pending ?sv2 @ js\<rparr>"
    using assms(6,7) g d t D(1) T(4) rs unfolding sv2 [symmetric]
    by (simp_all add: deleteKV_def GetGlobalIncreasingRevision_def)
  then show ?thesis using D(2) new T(3) c1(2) by (auto simp: set_index_def)
qed

subsection \<open>The versions from a revision on\<close>

lemma last_of_main_id: "sorted_wrt (<) (map rev_key rs) \<Longrightarrow> \<forall>r \<in> set rs. sub r = 0 \<Longrightarrow> last_of_main rs = rs"
proof (induction rs rule: last_of_main.induct)
  case (3 r q rs)
  have "rev_key r < rev_key q" "sub r = 0" "sub q = 0" using 3(3,4) by simp_all
  then have "main r \<noteq> main q" by (auto simp: rev_key_def)
  moreover have "last_of_main (q # rs) = q # rs" by (rule 3(2)) (use 3(3,4) calculation in simp_all)
  ultimately show ?case by simp
qed simp_all

lemma list_all2_filter:
  assumes "list_all2 R xs ys" and "\<And>x y. R x y \<Longrightarrow> P x = Q y"
  shows "list_all2 R (filter P xs) (filter Q ys)"
  using assms by (induction rule: list_all2_induct) auto

lemma since_entries:
  assumes "list_all2 (entry_ok N) h es" and "sorted_wrt (<) (map (rev_key \<circ> fst) h)"
  shows "\<exists>h'. since_spec h a = map fst h' \<and> set h' \<subseteq> set h \<and> list_all2 (entry_ok N) h' (since_versions es (sint a))"
proof (intro exI conjI)
  let ?P = "\<lambda>e. (sint a, 0) \<le> rev_key (fst e)"
  have f: "filter (\<lambda>r. (sint a, 0) \<le> rev_key r) (map fst h) = map fst (filter ?P h)" by (simp add: filter_map comp_def)
  have "sorted_wrt (<) (map rev_key (map fst (filter ?P h)))"
    using assms(2) sorted_wrt_filter [of "\<lambda>x y. rev_key (fst x) < rev_key (fst y)" h ?P] by (simp add: sorted_wrt_map)
  moreover have "sub (fst e) = 0" if "e \<in> set h" for e
    using hist_entry [OF assms(1), of "fst e" "snd e"] that by (auto simp: entry_ok_def)
  ultimately show "since_spec h a = map fst (filter ?P h)" unfolding since_spec_def f by (intro last_of_main_id) auto
  show "set (filter ?P h) \<subseteq> set h" by auto
  show "list_all2 (entry_ok N) (filter ?P h) (since_versions es (sint a))"
    unfolding since_versions_def by (rule list_all2_filter [OF assms(1)]) (auto simp: entry_ok_def rev_key_def)
qed

lemma since_suffix: "sorted_wrt (<) (map fst es) \<Longrightarrow> \<exists>pre. es = pre @ since_versions es from"
proof (induction es)
  case (Cons e es)
  then obtain pre where pre: "es = pre @ since_versions es from" by auto
  show ?case
  proof (cases "from \<le> fst e")
    case True
    with Cons.prems have "\<forall>d \<in> set es. from \<le> fst d" by auto
    then have "since_versions es from = es" by (simp add: since_versions_def case_prod_unfold filter_id_conv)
    with True show ?thesis by (intro exI [of _ "[]"]) (simp add: since_versions_def case_prod_unfold)
  next
    case False
    with pre show ?thesis by (intro exI [of _ "e # pre"]) (simp add: since_versions_def case_prod_unfold)
  qed
qed (simp add: since_versions_def)

lemma getValuesByRevs_live:
  assumes "list_all2 (entry_ok N) h es" and "svc_inv env N content ok sv m" and "set h \<subseteq> set (ti_hist (indexTree (handler sv)) k)"
    and "\<forall>e \<in> set es. \<exists>v. snd e = Some v \<and> (fst e, v) \<in> set (live (m k))"
    and "getValuesByRevs env ch (map fst h) sv = (res, sv1)"
  shows "res = Ok (map (the \<circ> snd) es) \<and> svc_inv env N content ok sv1 m \<and> counter sv1 = counter sv"
  using assms
proof (induction h es arbitrary: sv res sv1 rule: list_all2_induct)
  case (Cons x h y es)
  obtain v where v: "snd y = Some v" "(fst y, v) \<in> set (live (m k))" using Cons.prems by auto
  obtain r1 sv2 where r1: "getValueByRev env ch (fst x) sv = (r1, sv2)" by force
  have x: "(fst x, False) \<in> set (ti_hist (indexTree (handler sv)) k)" "sint (main (fst x)) = fst y"
    using Cons.hyps(1) Cons.prems(2) v(1) by (cases x, auto simp: entry_ok_def)+
  then have R: "r1 = Ok v \<and> svc_inv env N content ok sv2 m \<and> handler sv2 = handler sv \<and> counter sv2 = counter sv"
    using read_keeps_inv [OF Cons.prems(1) x(1) _ r1] v(2) by simp
  obtain r2 sv3 where r2: "getValuesByRevs env ch (map fst h) sv2 = (r2, sv3)" by force
  have "r2 = Ok (map (the \<circ> snd) es) \<and> svc_inv env N content ok sv3 m \<and> counter sv3 = counter sv2"
    by (rule Cons.IH [OF _ _ _ r2]) (use R Cons.prems in auto)
  then show ?case using Cons.prems(4) r1 r2 R v(1) by auto
qed simp

lemma getValuesByRevs_removed:
  assumes "svc_inv env N content ok sv m" and "set h \<subseteq> set (ti_hist (indexTree (handler sv)) k)"
    and "\<exists>e \<in> set h. snd e" and "getValuesByRevs env ch (map fst h) sv = (res, sv1)"
  shows "(\<exists>e. res = Err e) \<and> svc_inv env N content ok sv1 m \<and> counter sv1 = counter sv"
  using assms
proof (induction h arbitrary: sv res sv1)
  case (Cons x h)
  obtain r1 sv2 where r1: "getValueByRev env ch (fst x) sv = (r1, sv2)" by force
  have x: "(fst x, snd x) \<in> set (ti_hist (indexTree (handler sv)) k)" using Cons.prems(2) by simp
  note R = read_any_keeps_inv [OF Cons.prems(1) x r1]
  show ?case
  proof (cases r1)
    case (Ok v)
    obtain r2 sv3 where r2: "getValuesByRevs env ch (map fst h) sv2 = (r2, sv3)" by force
    have "(\<exists>e. r2 = Err e) \<and> svc_inv env N content ok sv3 m \<and> counter sv3 = counter sv2"
      by (rule Cons.IH [OF _ _ _ r2]) (use R Ok Cons.prems in auto)
    then show ?thesis using Cons.prems(4) r1 r2 Ok R by auto
  next
    case (Err e)
    then show ?thesis using Cons.prems(4) r1 R by auto
  qed (use R in auto)
qed simp

lemma fold_update_fresh:
  "distinct (map fst (al @ kvs)) \<Longrightarrow> fold (\<lambda>(k, v). AList.update k v) kvs al = al @ kvs"
proof (induction kvs arbitrary: al)
  case (Cons kv kvs)
  obtain k v where kv: "kv = (k, v)" by (cases kv)
  have "k \<notin> fst ` set al" using Cons.prems kv by auto
  then have "AList.update k v al = al @ [(k, v)]" by (rule update_fresh)
  then show ?case using Cons.IH [of "al @ [(k, v)]"] Cons.prems kv by simp
qed simp

lemma values_map:
  assumes "list_all2 (entry_ok N) h es" and "distinct (map (FormatInt \<circ> fst) es)"
  shows "fold (\<lambda>(r, v) m. AList.update (Revision_String r) v m) (zip (map fst h) (map (the \<circ> snd) es)) [] =
    map (\<lambda>(n, x). (FormatInt n, the x)) es"
proof -
  have e: "zip (map fst h) (map (the \<circ> snd) es) = map (\<lambda>(x, y). (fst x, the (snd y))) (zip h es)" by (simp add: zip_map_map)
  have "fold (\<lambda>(r, v) m. AList.update (Revision_String r) v m) (zip (map fst h) (map (the \<circ> snd) es)) al =
      fold (\<lambda>(k, v). AList.update k v) (map (\<lambda>(n, x). (FormatInt n, the x)) es) al" for al
    using assms(1) by (induction arbitrary: al rule: list_all2_induct) (auto simp: Revision_String_def entry_ok_def)
  then show ?thesis using fold_update_fresh [of "[]" "map (\<lambda>(n, x). (FormatInt n, the x)) es"] assms(2)
    by (simp add: comp_def case_prod_unfold)
qed

subsection \<open>Every request is a step of the specification\<close>

lemma text_nonempty [simp]: "saved_text k v n at \<noteq> []" "value_text v n \<noteq> []" "values_text es from \<noteq> []"
  by (simp_all add: saved_text_def value_text_def values_text_def)

lemma ParseInt_FormatInt [simp]: "ParseInt (FormatInt (sint a)) = Ok a" "Atoi (FormatInt (sint a)) = Ok a"
  by (simp_all add: ParseInt_def Atoi_def ParseInt_as_FormatInt)

definition svc_simulates :: "'s env \<Rightarrow> string set \<Rightarrow> ('s world \<Rightarrow> string \<Rightarrow> string \<Rightarrow> string option)
    \<Rightarrow> (string \<Rightarrow> 's world \<Rightarrow> bool) \<Rightarrow> 's server \<Rightarrow> kv_map \<Rightarrow> svc_op \<Rightarrow> response result \<Rightarrow> 's server \<Rightarrow> bool" where
  "svc_simulates env N content ok sv m opn res sv1 \<longleftrightarrow> (\<exists>rsp m'. res = Ok rsp \<and> kv_step m opn rsp m' \<and>
     svc_inv env N content ok sv1 m' \<and> uint (counter sv1) \<le> uint (counter sv) + 2)"

lemma serve_put:
  assumes "svc_inv env N content ok sv m" and "uint (counter sv) + 2 < 2 ^ 63" and "fair ch"
    and "ServeHTTP env ch (request_of (SPut k v)) sv = (res, sv1)"
  shows "svc_simulates env N content ok sv m (SPut k v) res sv1"
proof -
  let ?rq = "request_of (SPut k v)"
  obtain r1 sv2 where c: "createKV_with env ch ?rq [] 0 sv = (r1, sv2)" by force
  have "\<exists>at n. r1 = Ok (saved_text k v n at) \<and> newer m n \<and> svc_inv env N content ok sv2 (add_version m k n (Some v)) \<and>
      uint (counter sv2) \<le> uint (counter sv) + 2"
    by (rule put_keeps_inv [OF assms(1-3) _ _ _ _ c, of "[(''key'', k), (''value'', v)]"])
      (simp_all add: payload_Get_def index_kv_def fun_eq_iff)
  then obtain at n where n: "r1 = Ok (saved_text k v n at)" "newer m n"
    "svc_inv env N content ok sv2 (add_version m k n (Some v))" "uint (counter sv2) \<le> uint (counter sv) + 2" by blast
  have "res = Ok (Response 201 (saved_text k v n at))" "sv1 = sv2"
    using assms(4) c n(1) by (simp_all add: ServeHTTP_def createKV_def Query_Get_def)
  with n kv_step.put [OF n(2)] show ?thesis by (auto simp: svc_simulates_def)
qed

lemma serve_update:
  assumes "svc_inv env N content ok sv m" and "uint (counter sv) + 2 < 2 ^ 63" and "fair ch"
    and "ServeHTTP env ch (request_of (SUpdate k v a)) sv = (res, sv1)"
  shows "svc_simulates env N content ok sv m (SUpdate k v a) res sv1"
proof -
  let ?rq = "request_of (SUpdate k v a)" and ?p = "FormatInt (sint a)"
  obtain r1 sv2 where c: "createKV_with env ch ?rq ?p a sv = (r1, sv2)" by force
  have serve: "ServeHTTP env ch ?rq sv = (case r1 of
      Err e \<Rightarrow> (Ok (Response 500 (error_text (env_quote env) e @ newline)), sv2) | Panic p \<Rightarrow> (Panic p, sv2)
    | Ok txt \<Rightarrow> if txt \<noteq> [] then (Ok (Response 201 txt), sv2) else (Ok (Response 200 []), sv2))"
    using c by (simp add: ServeHTTP_def createKV_def Query_Get_def)
  show ?thesis
  proof (cases "m k \<noteq> [] \<and> fst (last (m k)) = sint a")
    case True
    have "\<exists>at n. r1 = Ok (saved_text k v n at) \<and> newer m n \<and> svc_inv env N content ok sv2 (add_version m k n (Some v)) \<and>
        uint (counter sv2) \<le> uint (counter sv) + 2"
      by (rule put_keeps_inv [OF assms(1-3) _ _ _ _ c, of "[(''key'', k), (''value'', v)]"])
        (use True in \<open>simp_all add: payload_Get_def\<close>)
    then obtain at n where n: "r1 = Ok (saved_text k v n at)" "newer m n"
      "svc_inv env N content ok sv2 (add_version m k n (Some v))" "uint (counter sv2) \<le> uint (counter sv) + 2" by blast
    with True assms(4) serve kv_step.update [of m k a n v at] show ?thesis by (auto simp: svc_simulates_def)
  next
    case False
    then have "m k = [] \<or> fst (last (m k)) \<noteq> sint a" by blast
    then have R: "r1 = Err (if m k = [] then ErrRevisionNotFound else ErrNotLatest) \<and> svc_inv env N content ok sv2 m \<and>
        uint (counter sv2) \<le> uint (counter sv) + 2"
      by (intro update_rejected [OF assms(1-3) _ _ _ _ c, of "[(''key'', k), (''value'', v)]" k]) (simp_all add: payload_Get_def)
    then have "res = Ok (if m k = [] then not_found else not_latest)" "sv1 = sv2"
      using assms(4) serve by (simp_all add: not_found_def not_latest_def ErrRevisionNotFound_def ErrNotLatest_def)
    with R False kv_step.update_missing [of m k v a] kv_step.update_stale [of m k a v] show ?thesis
      by (auto simp: svc_simulates_def)
  qed
qed

lemma serve_get:
  assumes "svc_inv env N content ok sv m"
    and "ServeHTTP env ch (request_of (SGet k)) sv = (res, sv1)"
  shows "svc_simulates env N content ok sv m (SGet k) res sv1"
proof (cases "m k = [] \<or> snd (last (m k)) = None")
  case True
  then have "res = Ok not_found" "sv1 = sv"
    using assms(2) no_revision [OF assms(1) True]
    by (simp_all add: ServeHTTP_def getKV_def not_found_def ErrRevisionNotFound_def)
  with True assms(1) kv_step.get_missing [of m k] show ?thesis by (auto simp: svc_simulates_def)
next
  case False
  then obtain n v where l: "m k \<noteq> []" "last (m k) = (n, Some v)" by (cases "last (m k)") auto
  obtain r cr vs where g: "Get (indexTree (handler sv)) k 0 = Ok (r, cr, vs)" and rh: "(r, False) \<in> set (ti_hist (indexTree (handler sv)) k)"
    and rn: "sint (main r) = n"
    by (rule last_revision [OF assms(1) l])
  obtain r1 sv2 where r1: "getValueByRev env ch r sv = (r1, sv2)" by force
  have "(sint (main r), v) \<in> set (live (m k))" using last_live [OF l] rn by simp
  then have R: "r1 = Ok v \<and> svc_inv env N content ok sv2 m \<and> handler sv2 = handler sv \<and> counter sv2 = counter sv"
    by (rule read_keeps_inv [OF assms(1) rh _ r1])
  then have "res = Ok (Response 202 (value_text v n))" "sv1 = sv2"
    using assms(2) g r1 rn by (simp_all add: ServeHTTP_def getKV_def value_text_def Revision_String_def)
  with R l kv_step.get [of m k n v] show ?thesis by (auto simp: svc_simulates_def)
qed

lemma serve_delete:
  assumes "svc_inv env N content ok sv m" and "uint (counter sv) + 2 < 2 ^ 63" and "fair ch"
    and "ServeHTTP env ch (request_of (SDelete k)) sv = (res, sv1)"
  shows "svc_simulates env N content ok sv m (SDelete k) res sv1"
proof (cases "m k = [] \<or> snd (last (m k)) = None")
  case True
  then have "res = Ok not_found" "sv1 = sv"
    using assms(4) no_revision [OF assms(1) True]
    by (simp_all add: ServeHTTP_def deleteKV_def not_found_def ErrRevisionNotFound_def)
  with True assms(1) kv_step.delete_missing [of m k] show ?thesis by (auto simp: svc_simulates_def)
next
  case False
  then obtain n v where l: "m k \<noteq> []" "last (m k) = (n, Some v)" by (cases "last (m k)") auto
  obtain r1 sv2 where d: "deleteKV env ch (request_of (SDelete k)) sv = (r1, sv2)" by force
  obtain msg n' where R: "r1 = Ok msg" "msg \<noteq> []" "newer m n'" "svc_inv env N content ok sv2 (add_version m k n' None)"
      "uint (counter sv2) \<le> uint (counter sv) + 2"
    using delete_request [OF assms(1-3) l _ d] by auto
  then have "res = Ok (Response 202 msg)" "sv1 = sv2" using assms(4) d by (simp_all add: ServeHTTP_def)
  with R l kv_step.delete [of m k n v n' msg] show ?thesis by (auto simp: svc_simulates_def)
qed

lemma serve_since:
  assumes "svc_inv env N content ok sv m" and "uint (counter sv) + 2 < 2 ^ 63"
    and "ServeHTTP env ch (request_of (SGetSince k a)) sv = (res, sv1)"
  shows "svc_simulates env N content ok sv m (SGetSince k a) res sv1"
proof -
  let ?h = "ti_hist (indexTree (handler sv)) k" and ?es = "since_versions (m k) (sint a)"
  obtain h' where h': "since_spec ?h a = map fst h'" "set h' \<subseteq> set ?h" "list_all2 (entry_ok N) h' ?es"
    using since_entries [OF svc_invD(3) [OF assms(1), of k] ti_hist_mains(1) [OF svc_invD(2) [OF assms(1)], of k], of a] by blast
  have rs: "RangeSince (env_sort_revs env) (indexTree (handler sv)) k None a = Ok (map fst h')"
    using RangeSince_key_refines [OF svc_invD(2) [OF assms(1)]] h'(1) by simp
  obtain r1 sv2 where v: "getValuesByRevs env ch (map fst h') sv = (r1, sv2)" by force
  show ?thesis
  proof (cases "\<forall>e \<in> set ?es. snd e \<noteq> None")
    case True
    obtain pre where "m k = pre @ ?es" using since_suffix [OF svc_versions_sorted [OF assms(1)]] by blast
    then have "live (m k) = live pre @ map (\<lambda>(n, x). (n, the x)) ?es" using live_append_all [OF True] by metis
    then have "\<forall>e \<in> set ?es. \<exists>v. snd e = Some v \<and> (fst e, v) \<in> set (live (m k))" using True by force
    from getValuesByRevs_live [OF h'(3) assms(1) h'(2) this v]
    have R: "r1 = Ok (map (the \<circ> snd) ?es)" "svc_inv env N content ok sv2 m" "counter sv2 = counter sv" by simp_all
    have "distinct (map fst ?es)"
      using svc_versions_sorted [OF assms(1), of k] \<open>m k = pre @ ?es\<close> by (metis distinct_append map_append strict_sorted_iff)
    moreover have "inj_on FormatInt (fst ` set ?es)"
    proof (rule inj_onI)
      fix i j assume "i \<in> fst ` set ?es" "j \<in> fst ` set ?es" and eq: "FormatInt i = FormatInt j"
      then have "i \<in> fst ` set (m k)" "j \<in> fst ` set (m k)" by (auto simp: since_versions_def)
      then show "i = j" using svc_versions_bounds [OF assms(1)] assms(2) eq FormatInt_eq_iff [of i j] by fastforce
    qed
    ultimately have "distinct (map (FormatInt \<circ> fst) ?es)" by (metis distinct_map map_map set_map)
    note vm = values_map [OF h'(3) this]
    have "res = Ok (Response 202 (values_text ?es (sint a)))" "sv1 = sv2"
      using assms(3) rs v R(1) vm by (simp_all add: ServeHTTP_def getKV_def values_text_def)
    with R(2,3) True kv_step.since [of m k a] show ?thesis by (auto simp: svc_simulates_def)
  next
    case False
    then have "\<exists>e \<in> set h'. snd e" using entries_removed [OF h'(3)] by simp
    from getValuesByRevs_removed [OF assms(1) h'(2) this v]
    obtain e where R: "r1 = Err e" "svc_inv env N content ok sv2 m" "counter sv2 = counter sv" by auto
    then have "res = Ok (Response 500 (error_text (env_quote env) e @ newline))" "sv1 = sv2"
      using assms(3) rs v by (simp_all add: ServeHTTP_def getKV_def)
    with R(2,3) False kv_step.since_removed [of m k a] show ?thesis by (auto simp: svc_simulates_def)
  qed
qed

lemma serve_request:
  assumes "svc_inv env N content ok sv m" and "uint (counter sv) + 2 < 2 ^ 63" and "fair ch"
    and "ServeHTTP env ch (request_of opn) sv = (res, sv1)"
  shows "svc_simulates env N content ok sv m opn res sv1"
proof (cases opn)
  case (SPut k v)
  with assms(4) show ?thesis by (simp only: serve_put [OF assms(1-3)])
next
  case (SUpdate k v a)
  with assms(4) show ?thesis by (simp only: serve_update [OF assms(1-3)])
next
  case (SGet k)
  with assms(4) show ?thesis by (simp only: serve_get [OF assms(1)])
next
  case (SGetSince k a)
  with assms(4) show ?thesis by (simp only: serve_since [OF assms(1,2)])
next
  case (SDelete k)
  with assms(4) show ?thesis by (simp only: serve_delete [OF assms(1-3)])
qed

lemma in_removed:
  assumes "x \<in> set xs" and "i < length xs"
  shows "x \<in> set (take i xs @ drop (Suc i) xs) \<or> x = xs ! i"
  using assms by (metis Un_iff id_take_nth_drop set_append set_ConsD)

lemma job_keeps_inv:
  assumes "svc_inv env N content ok sv m" and "i < length (pending sv)"
    and "run_job (conf (handler sv)) (env_api env) (piping_type (piping (handler sv))) (pending sv ! i) (wd sv) = (res, w1)"
  shows "svc_inv env N content ok (sv\<lparr>wd := w1, pending := take i (pending sv) @ drop (Suc i) (pending sv)\<rparr>) m"
proof -
  obtain sap where sap: "piping (handler sv) = SyncAsyncP sap"
    and con: "store_contract (conf (handler sv)) (env_api env) (sap_databaseType sap) content ok"
    using service_piping [OF assms(1)] .
  let ?js = "take i (pending sv) @ drop (Suc i) (pending sv)"
  have js: "\<forall>j \<in> set ?js. job_ok N (counter sv) m j"
    using svc_invD(7) [OF assms(1)] by (auto dest: in_set_takeD in_set_dropD)
  have j: "job_ok N (counter sv) m (pending sv ! i)" using svc_invD(7) [OF assms(1)] assms(2) by simp
  show ?thesis
  proof (cases "pending sv ! i")
    case (AsyncPut nm s v)
    have "ok nm (wd sv)" using j AsyncPut svc_invD(5) [OF assms(1)] by simp
    moreover have "store_put (conf (handler sv)) (env_api env) (sap_databaseType sap) nm s v (wd sv) = (res, w1)"
      using assms(3) sap AsyncPut by simp
    ultimately have c: "content w1 = (content (wd sv))(nm := (content (wd sv) nm)(s \<mapsto> v))" and o: "\<forall>e. ok e (wd sv) \<longrightarrow> ok e w1"
      using kv_backend.put_law [OF con] by blast+
    have c': "content w1 = (\<lambda>x. if x \<in> {nm} then (content (wd sv) x)(s \<mapsto> v) else content (wd sv) x)" using c by auto
    have l: "\<forall>k n v'. (n, v') \<in> set (live (m k)) \<and> FormatInt n = s \<longrightarrow> Some v = Some v'" using j AsyncPut by auto
    have "\<forall>nm' s' v'. AsyncPut nm' s' v' \<in> set (pending sv) \<longrightarrow> AsyncPut nm' s' v' \<in> set ?js \<or> content w1 nm' s' = Some v'"
      using in_removed [OF _ assms(2)] AsyncPut c by fastforce
    then show ?thesis by (rule content_keeps_inv [OF assms(1) c' o l js])
  next
    case (AsyncDelete nm s)
    have "ok nm (wd sv)" using j AsyncDelete svc_invD(5) [OF assms(1)] by simp
    moreover have "store_delete (conf (handler sv)) (env_api env) (sap_databaseType sap) nm s (wd sv) = (res, w1)"
      using assms(3) sap AsyncDelete by simp
    ultimately have c: "content w1 = (content (wd sv))(nm := (content (wd sv) nm)(s := None))" and o: "\<forall>e. ok e (wd sv) \<longrightarrow> ok e w1"
      using kv_backend.del_law [OF con] by blast+
    have c': "content w1 = (\<lambda>x. if x \<in> {nm} then (content (wd sv) x)(s := None) else content (wd sv) x)" using c by auto
    have l: "\<forall>k n v'. (n, v') \<in> set (live (m k)) \<and> FormatInt n = s \<longrightarrow> None = Some v'" using j AsyncDelete by auto
    have "\<forall>nm' s' v'. AsyncPut nm' s' v' \<in> set (pending sv) \<longrightarrow> AsyncPut nm' s' v' \<in> set ?js \<or> content w1 nm' s' = Some v'"
      using in_removed [OF _ assms(2)] AsyncDelete by fastforce
    then show ?thesis by (rule content_keeps_inv [OF assms(1) c' o l js])
  qed (use j in simp)
qed

end
