(* ===== verification/Service_Refinement.thy ===== *)
theory Service_Refinement
  imports Service_Requests
begin

text \<open>
  The service refines the map of versions: the simulation of single events gives the refinement of
  whole schedules, and the configuration with which the program starts establishes the invariant.
\<close>

section \<open>Simulation\<close>

fun run_events :: "('e \<Rightarrow> 'c \<Rightarrow> 'o list \<times> 'c) \<Rightarrow> 'e list \<Rightarrow> 'c \<Rightarrow> 'o list \<times> 'c" where
  "run_events step [] c = ([], c)"
| "run_events step (e # es) c = (let (os, c1) = step e c; (os', c2) = run_events step es c1 in (os @ os', c2))"

fun explains :: "('a \<Rightarrow> 'o \<Rightarrow> 'a \<Rightarrow> bool) \<Rightarrow> 'a \<Rightarrow> 'o list \<Rightarrow> 'a \<Rightarrow> bool" where
  "explains st a [] b \<longleftrightarrow> a = b"
| "explains st a (x # os) b \<longleftrightarrow> (\<exists>a1. st a x a1 \<and> explains st a1 os b)"

lemma explains_append: "explains st a (os @ os') b \<longleftrightarrow> (\<exists>a1. explains st a os a1 \<and> explains st a1 os' b)"
  by (induction os arbitrary: a) auto

text \<open>A system whose events, \<open>n\<close> of them at most from now on, are explained by an abstract system.\<close>

locale simulation =
  fixes step :: "'e \<Rightarrow> 'c \<Rightarrow> 'o list \<times> 'c"
    and spec :: "'a \<Rightarrow> 'o \<Rightarrow> 'a \<Rightarrow> bool"
    and allowed :: "'e \<Rightarrow> bool"
    and sim :: "nat \<Rightarrow> 'c \<Rightarrow> 'a \<Rightarrow> bool"
  assumes sim_step: "sim (Suc n) c a \<Longrightarrow> allowed e \<Longrightarrow> step e c = (os, c') \<Longrightarrow> \<exists>a'. explains spec a os a' \<and> sim n c' a'"
begin

lemma sim_run:
  "sim (length es + n) c a \<Longrightarrow> \<forall>e \<in> set es. allowed e \<Longrightarrow> run_events step es c = (os, c') \<Longrightarrow>
    \<exists>a'. explains spec a os a' \<and> sim n c' a'"
proof (induction es arbitrary: c a os)
  case (Cons e es)
  obtain o1 c1 where s: "step e c = (o1, c1)" by force
  obtain o2 where r: "run_events step es c1 = (o2, c')" and os: "os = o1 @ o2"
    using Cons.prems(3) s by (auto split: prod.splits)
  obtain a1 where a1: "explains spec a o1 a1" "sim (length es + n) c1 a1"
    using sim_step [of "length es + n" c a e o1 c1] s Cons.prems(1,2) by auto
  then obtain a2 where "explains spec a1 o2 a2" "sim n c' a2" using Cons.IH [OF a1(2) _ r] Cons.prems(2) by auto
  with a1(1) os show ?case by (auto simp: explains_append)
qed simp

end

text \<open>An answer other than one that the specification allows, in particular a panic, is not explained.\<close>

fun kv_answer :: "kv_map \<Rightarrow> svc_op \<times> response result \<Rightarrow> kv_map \<Rightarrow> bool" where
  "kv_answer m (opn, res) m' \<longleftrightarrow> (\<exists>rsp. res = Ok rsp \<and> kv_step m opn rsp m')"

fun fair_event :: "event \<Rightarrow> bool" where
  "fair_event (Request opn ch) = fair ch"
| "fair_event (RunJob i) = True"

text \<open>Every event raises the counter of revisions by at most 2; it must stay below \<open>2 ^ 63\<close>.\<close>

interpretation svc: simulation "svc_exec env" kv_answer fair_event
  "\<lambda>n sv m. svc_inv env N content ok sv m \<and> uint (counter sv) + 2 * int n < 2 ^ 63" for env N content ok
proof
  fix n sv m e os sv'
  assume inv: "svc_inv env N content ok sv m \<and> uint (counter sv) + 2 * int (Suc n) < 2 ^ 63" and f: "fair_event e"
    and s: "svc_exec env e sv = (os, sv')"
  show "\<exists>m'. explains kv_answer m os m' \<and> (svc_inv env N content ok sv' m' \<and> uint (counter sv') + 2 * int n < 2 ^ 63)"
  proof (cases e)
    case (Request opn ch)
    obtain res sv1 where r: "ServeHTTP env ch (request_of opn) sv = (res, sv1)" by force
    have "uint (counter sv) + 2 < 2 ^ 63" using inv by simp
    then have "svc_simulates env N content ok sv m opn res sv1"
      using serve_request [OF conjunct1 [OF inv] _ _ r] f Request by simp
    then show ?thesis using s Request r inv by (auto simp: svc_simulates_def)
  next
    case (RunJob i)
    show ?thesis
    proof (cases "i < length (pending sv)")
      case True
      obtain res w1 where r: "run_job (conf (handler sv)) (env_api env) (piping_type (piping (handler sv))) (pending sv ! i) (wd sv) = (res, w1)"
        by force
      have "os = []" "sv' = sv\<lparr>wd := w1, pending := take i (pending sv) @ drop (Suc i) (pending sv)\<rparr>"
        using s RunJob r True by simp_all
      then show ?thesis using job_keeps_inv [OF conjunct1 [OF inv] True r] inv by auto
    next
      case False
      then show ?thesis using s RunJob inv by auto
    qed
  qed
qed

lemma svc_run_eq: "svc_run env es sv = run_events (svc_exec env) es sv"
  by (induction es arbitrary: sv) simp_all

section \<open>The program as it starts\<close>

text \<open>What the theorems ask of a configuration: buckets, the zone manager, the
  synchronous/asynchronous piping, names without commas and with different hashes, and no more
  replicas than there are zones and remote stores.\<close>

definition deployment_ok :: "'s env \<Rightarrow> (nat \<Rightarrow> connect_outcome list) \<Rightarrow> bool" where
  "deployment_ok env probe \<longleftrightarrow>
     BucketSize (env_conf env) \<noteq> 0 \<and> conf_HashingManagerType (env_conf env) \<noteq> Sync \<and>
     conf_PipingType (env_conf env) \<noteq> ChainType \<and> conf_names_ok (env_hash env) (env_conf env) \<and>
     names_ok (map (node_name (env_conf env)) (Stores (env_conf env))) \<and> go_sort (env_sort_nodes env) \<and>
     1 \<le> LocalReplicaNum (env_conf env) \<and>
     (case GetReplications (env_conf env) probe of
        Ok (ls, rs) \<Rightarrow> LocalReplicaNum (env_conf env) \<le> int (length ls) \<and> RemoteReplicaNum (env_conf env) \<le> int (length rs)
      | _ \<Rightarrow> False)"

text \<open>The stores are in memory, or Redis servers that answer as documented.\<close>

definition backend_ok :: "'s env \<Rightarrow> ('s \<Rightarrow> string \<Rightarrow> string \<Rightarrow> string option) \<Rightarrow> ('s \<Rightarrow> string \<Rightarrow> bool) \<Rightarrow> 's world \<Rightarrow> bool" where
  "backend_ok env store up w \<longleftrightarrow> conf_StoreType (env_conf env) = Memory \<or>
     (conf_StoreType (env_conf env) = Redis \<and> redis_service (env_api env) store up \<and>
      (\<forall>s \<in> set (Stores (env_conf env)). store_url s \<in> pool_urls (env_conf env) w \<and> up (redis w) (store_url s)))"

definition booted :: "KeyValueHandler \<Rightarrow> 's world \<Rightarrow> 's server" where
  "booted h w = \<lparr>handler = h, counter = 0, wd = w, pending = [], index_mu = unlocked\<rparr>"

abbreviation store_names :: "'s env \<Rightarrow> string set" where
  "store_names env \<equiv> node_name (env_conf env) ` set (Stores (env_conf env))"

lemma names_ok_subset: "names_ok ys \<Longrightarrow> set xs \<subseteq> set ys \<Longrightarrow> names_ok xs"
  by (auto simp: names_ok_def)

lemma manager_replicas:
  assumes "deployment_ok env probe" and "GetReplications (env_conf env) probe = Ok (ls, rs)" and "mset ls' = mset ls"
    and "am = NewSyncAsyncHashingManager (env_hash env) (ConsistentHash (env_conf env)) ls' (LocalReplicaNum (env_conf env)) rs (RemoteReplicaNum (env_conf env))"
  shows "\<exists>ns. hm_GetNodes (env_hash env) (env_sort_nodes env) (SyncAsyncHM am) key = Ok ns \<and> replicas_ok (store_names env) ns"
proof -
  let ?c = "env_conf env"
  note d = assms(1) [unfolded deployment_ok_def]
  have pl: "placement_ok (env_hash env) ls' rs" using GetReplications_placement [OF _ assms(2,3)] d by blast
  have srt: "go_sort (env_sort_nodes env)" and lc: "1 \<le> LocalReplicaNum ?c" using d by blast+
  have "length ls' = length ls" using assms(3) by (metis size_mset)
  then have n: "LocalReplicaNum ?c \<le> int (length ls')" "RemoteReplicaNum ?c \<le> int (length rs)" using d assms(2) by simp_all
  obtain sn azs ns0 where sn: "sahm_GetSyncNodes (env_hash env) (env_sort_nodes env) am key = Ok sn" "int (length sn) = LocalReplicaNum ?c"
      "mset sn = mset ns0" "list_all2 (of_zone ls') azs ns0"
    using GetSyncNodes_Ok [OF pl srt lc n(1) assms(4)] by blast
  obtain an where an: "sahm_GetAsyncNodes (env_hash env) am key = Ok an" "set an \<subseteq> set rs"
  proof (cases "RemoteReplicaNum ?c < 1")
    case True
    have "RemoteCount am = RemoteReplicaNum ?c" using NewSyncAsync_sel(5) [OF pl] assms(4) by simp
    then show thesis using True that [of "[]"] by (simp add: sahm_GetAsyncNodes_def)
  next
    case False
    then show thesis using GetAsyncNodes_Ok [OF pl refl _ n(2), of "ConsistentHash ?c" "LocalReplicaNum ?c" key] that assms(4) by auto
  qed
  have zone: "Name n \<in> store_names env" if "n \<in> set sn" for n
  proof -
    have "n \<in> set ns0" using that sn(3) by (metis set_mset_mset)
    then obtain az where "of_zone ls' az n" using sn(4) by (metis in_set_conv_nth list_all2_conv_all_nth)
    then obtain ss s where "(az, ss) \<in> set ls'" "s \<in> set ss" "Name n = Name s" by (auto simp: of_zone_def dest: map_of_SomeD)
    moreover have "set ls' = set ls" using assms(3) by (metis set_mset_mset)
    ultimately show ?thesis using GetReplications_names [OF assms(2), of s] by auto
  qed
  have remote: "Name n \<in> store_names env" if "n \<in> set an" for n
    using GetReplications_names [OF assms(2), of n] an(2) that by blast
  have names: "names_ok xs" if "set xs \<subseteq> store_names env" for xs
    using names_ok_subset [of "map (node_name ?c) (Stores ?c)" xs] d that by simp
  have sub: "set (map Name sn) \<union> set (map Name an) \<subseteq> store_names env" using zone remote by auto
  have "sn \<noteq> []" using sn(2) lc by auto
  then have "replicas_ok (store_names env) [Join (map Name sn) '','', Join (map Name an) '','']"
    unfolding replicas_ok_def using sub names [of "map Name sn"] names [of "map Name an"]
    by (metis Un_subset_iff map_is_Nil_conv)
  moreover have "hm_GetNodes (env_hash env) (env_sort_nodes env) (SyncAsyncHM am) key = Ok [Join (map Name sn) '','', Join (map Name an) '','']"
    using sn(1) an(1) by (simp add: sahm_GetNodes_def convertNodeArrToStringArr_def Node_String_def [abs_def])
  ultimately show ?thesis by blast
qed

lemma backend_contract:
  assumes "backend_ok env store up w"
  obtains content ok where "store_contract (env_conf env) (env_api env) (conf_StoreType (env_conf env)) content ok"
    and "\<forall>n \<in> store_names env. ok n w"
proof (cases "conf_StoreType (env_conf env) = Memory")
  case True
  show thesis by (rule that [of mem_content "\<lambda>_ _. True"]) (simp_all add: True ms.kv_backend_axioms)
next
  case False
  with assms have r: "conf_StoreType (env_conf env) = Redis" "redis_service (env_api env) store up"
    "\<forall>s \<in> set (Stores (env_conf env)). redis_usable (env_conf env) up (store_url s) w"
    by (auto simp: backend_ok_def redis_usable_def)
  then have "\<forall>n \<in> store_names env. redis_usable (env_conf env) up n w" by (auto simp: node_name_def)
  with that redis_store_backend [OF r(2)] r(1) show thesis by metis
qed

lemma booted_inv:
  assumes "deployment_ok env probe" and "NewKeyValueHandler env probe iter = Ok h" and "\<forall>ls. mset (iter ls) = mset ls"
    and "store_contract (env_conf env) (env_api env) (conf_StoreType (env_conf env)) content ok" and "\<forall>n \<in> store_names env. ok n w"
  shows "svc_inv env (store_names env) content ok (booted h w) (\<lambda>_. [])"
proof -
  let ?c = "env_conf env"
  obtain ls rs where g: "GetReplications ?c probe = Ok (ls, rs)"
    using assms(1) by (auto simp: deployment_ok_def split: result.splits)
  let ?am = "NewSyncAsyncHashingManager (env_hash env) (ConsistentHash ?c) (iter ls) (LocalReplicaNum ?c) rs (RemoteReplicaNum ?c)"
  have h: "h = \<lparr>hm = SyncAsyncHM ?am, conf = ?c, indexTree = NewTreeIndex, piping = SyncAsyncP (NewSyncAsyncPiping (conf_StoreType ?c))\<rparr>"
    using assms(1,2) g by (simp add: NewKeyValueHandler_def deployment_ok_def Let_def)
  have "\<forall>key. \<exists>ns. hm_GetNodes (env_hash env) (env_sort_nodes env) (hm h) key = Ok ns \<and> replicas_ok (store_names env) ns"
    using manager_replicas [OF assms(1) g _ refl] assms(3) h by simp
  moreover have "BucketSize ?c \<noteq> 0" using assms(1) by (simp add: deployment_ok_def)
  ultimately have "service_ok env (store_names env) content ok h"
    using assms(4) h by (simp add: service_ok_def NewSyncAsyncPiping_def)
  then show ?thesis using assms(5) NewTreeIndex_inv(1,3) h
    by (simp add: svc_inv_def booted_def data_ok_def repl_ok_def)
qed

section \<open>Histories of the service\<close>

fun requests :: "event list \<Rightarrow> svc_op list" where
  "requests [] = []"
| "requests (Request opn ch # es) = opn # requests es"
| "requests (RunJob i # es) = requests es"

text \<open>The answers to the requests of a schedule \<open>es\<close>, from the start of the program on.\<close>

definition service_history :: "'s env \<Rightarrow> event list \<Rightarrow> (svc_op \<times> response result) list \<Rightarrow> 's server \<Rightarrow> bool" where
  "service_history env es answers sv \<longleftrightarrow> (\<exists>probe iter h w store up.
     deployment_ok env probe \<and> NewKeyValueHandler env probe iter = Ok h \<and> (\<forall>ls. mset (iter ls) = mset ls) \<and>
     backend_ok env store up w \<and> (\<forall>e \<in> set es. fair_event e) \<and> 2 * int (length es) < 2 ^ 63 \<and>
     svc_run env es (booted h w) = (answers, sv))"

lemma run_requests: "svc_run env es sv = (answers, sv') \<Longrightarrow> map fst answers = requests es"
  by (induction env es sv arbitrary: answers rule: svc_run.induct)
    (auto split: prod.splits if_splits elim!: svc_exec.elims)

lemma run_append: "svc_run env (es @ es') sv =
    (let (os, sv1) = svc_run env es sv; (os', sv2) = svc_run env es' sv1 in (os @ os', sv2))"
  by (induction es arbitrary: sv) (auto split: prod.splits)

lemma history_inv:
  assumes "service_history env es answers sv"
  obtains content ok m where "explains kv_answer (\<lambda>_. []) answers m" and "svc_inv env (store_names env) content ok sv m"
proof -
  obtain probe iter h w store up where a: "deployment_ok env probe" "NewKeyValueHandler env probe iter = Ok h"
      "\<forall>ls. mset (iter ls) = mset ls" "backend_ok env store up w" and f: "\<forall>e \<in> set es. fair_event e"
      "2 * int (length es) < 2 ^ 63" and r: "svc_run env es (booted h w) = (answers, sv)"
    using assms unfolding service_history_def by blast
  obtain content ok where c: "store_contract (env_conf env) (env_api env) (conf_StoreType (env_conf env)) content ok"
    and n: "\<forall>n \<in> store_names env. ok n w" by (rule backend_contract [OF a(4)])
  have "svc_inv env (store_names env) content ok (booted h w) (\<lambda>_. []) \<and> uint (counter (booted h w)) + 2 * int (length es + 0) < 2 ^ 63"
    using booted_inv [OF a(1-3) c n] f(2) by (simp add: booted_def)
  from svc.sim_run [OF this f(1) r [unfolded svc_run_eq]] that show thesis by blast
qed

section \<open>Properties\<close>

text \<open>C1: The service refines the map of versions. For every schedule of requests and background jobs
  (fewer than \<open>2 ^ 62\<close> events), started on a sensible configuration with in-memory stores or with
  Redis servers that answer as documented: every request is answered, without a panic, and the
  answers are those of the specification: a put or a conditional update saves a version with a
  revision larger than all before, an update that assumes another revision than the latest one
  is refused, a get returns the latest version with its revision, a get from a revision on
  returns exactly the versions from there, a delete makes the key absent. The choices of the scheduler and the points at
  which the asynchronous puts and deletes run make no difference.\<close>

theorem service_refines_map:
  assumes "service_history env es answers sv"
  shows "map fst answers = requests es \<and> (\<exists>m. explains kv_answer (\<lambda>_. []) answers m)"
proof
  show "map fst answers = requests es" using assms run_requests unfolding service_history_def by blast
  show "\<exists>m. explains kv_answer (\<lambda>_. []) answers m" using history_inv [OF assms] by blast
qed

definition mem_probe :: "nat \<Rightarrow> connect_outcome list" where
  "mem_probe i = (if i = 2 then [(90000000, None)] else [(1000000, None)])"

definition demo_events :: "event list" where
  "demo_events = [Request (SPut ''k'' ''v'') demo_choices, Request (SGet ''k'') demo_choices, RunJob 0,
     Request (SUpdate ''k'' ''w'' 7) demo_choices, Request (SDelete ''k'') demo_choices, Request (SGet ''k'') demo_choices]"

lemma mem_env_ok: "deployment_ok mem_env mem_probe"
proof -
  note conf = mem_env_def demo_conf_def demo_store_def
  have "case GetReplications (env_conf mem_env) mem_probe of
      Ok (ls, rs) \<Rightarrow> LocalReplicaNum (env_conf mem_env) \<le> int (length ls) \<and> RemoteReplicaNum (env_conf mem_env) \<le> int (length rs)
    | _ \<Rightarrow> False" by code_simp
  moreover have "conf_names_ok (env_hash mem_env) (env_conf mem_env)"
    by (auto simp: conf conf_names_ok_def node_name_def length_hash_def store_types)
  moreover have "names_ok (map (node_name (env_conf mem_env)) (Stores (env_conf mem_env)))"
    by (simp add: conf names_ok_def node_name_def store_types)
  moreover have "go_sort (env_sort_nodes mem_env)" by (simp add: mem_env_def go_sort_Slice.go_sort_axioms)
  moreover have "BucketSize (env_conf mem_env) \<noteq> 0" "conf_HashingManagerType (env_conf mem_env) \<noteq> Sync"
      "conf_PipingType (env_conf mem_env) \<noteq> ChainType" "1 \<le> LocalReplicaNum (env_conf mem_env)"
    by (simp_all add: conf SyncAsync_def Sync_def LocalSyncRemoteAsync_def ChainType_def)
  ultimately show ?thesis unfolding deployment_ok_def by blast
qed

lemma mem_history:
  assumes "\<forall>e \<in> set es. fair_event e" and "2 * int (length es) < 2 ^ 63"
  shows "\<exists>answers sv. service_history mem_env es answers sv"
proof -
  have "case NewKeyValueHandler mem_env mem_probe List.rev of Ok _ \<Rightarrow> True | _ \<Rightarrow> False" by code_simp
  then obtain h where h: "NewKeyValueHandler mem_env mem_probe List.rev = Ok h" by (auto split: result.splits)
  obtain answers sv where r: "svc_run mem_env es (booted h empty_world) = (answers, sv)" by force
  have "backend_ok mem_env (\<lambda>_ _ _. None) (\<lambda>_ _. True) empty_world" by (simp add: backend_ok_def mem_env_def)
  then show ?thesis unfolding service_history_def using mem_env_ok h r assms by (metis mset_rev)
qed

theorem service_refines_map_witness:
  "\<exists>answers sv m. service_history mem_env demo_events answers sv \<and>
     map fst answers = [SPut ''k'' ''v'', SGet ''k'', SUpdate ''k'' ''w'' 7, SDelete ''k'', SGet ''k''] \<and>
     explains kv_answer (\<lambda>_. []) answers m"
proof -
  have "\<forall>e \<in> set demo_events. fair_event e" by (simp add: demo_events_def demo_choices_def fair_def)
  then obtain answers sv where h: "service_history mem_env demo_events answers sv"
    using mem_history [of demo_events] by (auto simp: demo_events_def)
  from service_refines_map [OF h] h show ?thesis by (auto simp: demo_events_def)
qed

text \<open>What the specification says of one key over time.\<close>

fun writes_key :: "string \<Rightarrow> svc_op \<Rightarrow> bool" where
  "writes_key k (SPut k' v) = (k' = k)"
| "writes_key k (SUpdate k' v a) = (k' = k)"
| "writes_key k (SDelete k') = (k' = k)"
| "writes_key k _ = False"

inductive_cases kv_put_cases: "kv_step m (SPut k v) rsp m'"
inductive_cases kv_update_cases: "kv_step m (SUpdate k v a) rsp m'"
inductive_cases kv_get_cases: "kv_step m (SGet k) rsp m'"

lemma kv_step_key:
  assumes "kv_step m opn rsp m'"
  shows "m' k = m k \<or> writes_key k opn \<and> (\<exists>n x. m' k = m k @ [(n, x)] \<and> newer m n)"
  using assms by cases auto

lemma kv_explains_key:
  assumes "explains kv_answer m os m'" and "\<forall>a \<in> set os. \<not> writes_key k (fst a)"
  shows "m' k = m k"
  using assms
proof (induction os arbitrary: m)
  case (Cons x os)
  then obtain m1 where m1: "kv_answer m x m1" "explains kv_answer m1 os m'" by auto
  then have "m1 k = m k" using kv_step_key [of m "fst x" _ m1 k] Cons.prems(2) by (cases x) auto
  with Cons.IH [OF m1(2)] Cons.prems(2) show ?case by simp
qed simp

lemma newer_last: "newer m n \<Longrightarrow> m k \<noteq> [] \<Longrightarrow> fst (last (m k)) < n"
  unfolding newer_def by (meson last_in_set)

text \<open>Once the latest revision of a key is past \<open>a\<close> it stays past \<open>a\<close>.\<close>

lemma kv_explains_past:
  assumes "explains kv_answer m os m'" and "m k \<noteq> []" and "a < fst (last (m k))"
  shows "m' k \<noteq> [] \<and> a < fst (last (m' k))"
  using assms
proof (induction os arbitrary: m)
  case (Cons x os)
  then obtain m1 where m1: "kv_answer m x m1" "explains kv_answer m1 os m'" by auto
  obtain rsp where "kv_step m (fst x) rsp m1" using m1(1) by (cases x) auto
  from kv_step_key [OF this, of k] have "m1 k \<noteq> [] \<and> a < fst (last (m1 k))"
    using Cons.prems(2,3) newer_last [of m _ k] by (auto intro: less_trans)
  with Cons.IH [OF m1(2)] show ?case by blast
qed simp

text \<open>C3: A get returns the value of the last put, whatever else happened in between: after a put of \<open>v\<close>
  under \<open>k\<close> and any requests other than writes of that key, with background jobs running at any
  time, a get of \<open>k\<close> answers \<open>v\<close> and the revision that the put was answered with.\<close>

theorem get_returns_last_put:
  assumes "service_history env es answers sv"
    and "answers = ans1 @ (SPut k v, res1) # ans2 @ (SGet k, res2) # ans3"
    and "\<forall>a \<in> set ans2. \<not> writes_key k (fst a)"
  shows "\<exists>n at. res1 = Ok (Response 201 (saved_text k v n at)) \<and> res2 = Ok (Response 202 (value_text v n))"
proof -
  obtain m where "explains kv_answer (\<lambda>_. []) answers m" using history_inv [OF assms(1)] by blast
  then obtain m1 m2 m3 m4 where s: "kv_answer m1 (SPut k v, res1) m2" "explains kv_answer m2 ans2 m3" "kv_answer m3 (SGet k, res2) m4"
    unfolding assms(2) by (auto simp: explains_append)
  from s(1) obtain n at where p: "res1 = Ok (Response 201 (saved_text k v n at))" "m2 k = m1 k @ [(n, Some v)]"
    by (auto elim: kv_put_cases)
  have "m3 k = m1 k @ [(n, Some v)]" using kv_explains_key [OF s(2) assms(3)] p(2) by simp
  with s(3) have "res2 = Ok (Response 202 (value_text v n))" by (auto elim!: kv_get_cases)
  with p(1) show ?thesis by blast
qed

theorem get_returns_last_put_witness:
  "\<exists>answers sv ans1 res1 ans2 res2 n at. service_history mem_env demo_events answers sv \<and>
     answers = ans1 @ (SPut ''k'' ''v'', res1) # [] @ (SGet ''k'', res2) # ans2 \<and>
     res1 = Ok (Response 201 (saved_text ''k'' ''v'' n at)) \<and> res2 = Ok (Response 202 (value_text ''v'' n))"
proof -
  have "\<forall>e \<in> set demo_events. fair_event e" by (simp add: demo_events_def demo_choices_def fair_def)
  then obtain answers sv where h: "service_history mem_env demo_events answers sv"
    using mem_history [of demo_events] by (auto simp: demo_events_def)
  then have "map fst answers = requests demo_events" using run_requests unfolding service_history_def by blast
  then obtain res1 res2 ans2 where a: "answers = [] @ (SPut ''k'' ''v'', res1) # [] @ (SGet ''k'', res2) # ans2"
    by (auto simp: demo_events_def)
  obtain n at where "res1 = Ok (Response 201 (saved_text ''k'' ''v'' n at)) \<and> res2 = Ok (Response 202 (value_text ''v'' n))"
    using get_returns_last_put [OF h a] by auto
  with h a show ?thesis by blast
qed

text \<open>C4: Conditional updates that run one after the other exclude each other: when requests do not overlap, of the updates of a key that
  assume the same revision at most one is ever accepted; every later one is answered that the revision is not the latest
  one, whatever requests and background jobs came in between. (Updates that overlap can both be
  accepted: \<open>overlapping_updates_both_saved\<close> in \<open>Linearizability\<close>.)\<close>

theorem conditional_updates_exclusive:
  assumes "service_history env es answers sv"
    and "answers = ans1 @ (SUpdate k v a, Ok (Response 201 msg)) # ans2 @ (SUpdate k v' a, res) # ans3"
  shows "res = Ok not_latest"
proof -
  obtain m where "explains kv_answer (\<lambda>_. []) answers m" using history_inv [OF assms(1)] by blast
  then obtain m1 m2 m3 m4 where s: "kv_step m1 (SUpdate k v a) (Response 201 msg) m2" "explains kv_answer m2 ans2 m3"
      "kv_answer m3 (SUpdate k v' a, res) m4"
    unfolding assms(2) by (auto simp: explains_append)
  from s(1) have "m2 k \<noteq> [] \<and> sint a < fst (last (m2 k))"
    by (rule kv_update_cases) (use newer_last [of m1 _ k] in \<open>auto simp: not_latest_def not_found_def\<close>)
  with kv_explains_past [OF s(2), of k "sint a"] have "m3 k \<noteq> []" "sint a < fst (last (m3 k))" by auto
  with s(3) show ?thesis by (auto elim!: kv_update_cases)
qed

theorem conditional_updates_exclusive_witness:
  "\<exists>a es answers sv msg ans1 res. service_history mem_env es answers sv \<and>
     answers = ans1 @ (SUpdate ''k'' ''w'' a, Ok (Response 201 msg)) # [] @ (SUpdate ''k'' ''x'' a, res) # [] \<and> res = Ok not_latest"
proof -
  have fair: "fair demo_choices" by (simp add: demo_choices_def fair_def)
  have "case NewKeyValueHandler mem_env mem_probe List.rev of Ok _ \<Rightarrow> True | _ \<Rightarrow> False" by code_simp
  then obtain h where h: "NewKeyValueHandler mem_env mem_probe List.rev = Ok h" by (auto split: result.splits)
  have b: "backend_ok mem_env (\<lambda>_ _ _. None) (\<lambda>_ _. True) empty_world" by (simp add: backend_ok_def mem_env_def)
  obtain content ok where "store_contract (env_conf mem_env) (env_api mem_env) (conf_StoreType (env_conf mem_env)) content ok"
    and "\<forall>n \<in> store_names mem_env. ok n empty_world" by (rule backend_contract [OF b])
  then have inv: "svc_inv mem_env (store_names mem_env) content ok (booted h empty_world) (\<lambda>_. [])"
    by (intro booted_inv [OF mem_env_ok h]) simp_all
  have c0: "uint (counter (booted h empty_world)) = 0" by (simp add: booted_def)
  obtain res1 sv1 where r1: "ServeHTTP mem_env demo_choices (request_of (SPut ''k'' ''v'')) (booted h empty_world) = (res1, sv1)" by force
  obtain rsp m where m: "kv_step (\<lambda>_. []) (SPut ''k'' ''v'') rsp m" and inv1: "svc_inv mem_env (store_names mem_env) content ok sv1 m"
      and c1: "uint (counter sv1) \<le> 2"
    using serve_request [OF inv _ fair r1] c0 by (auto simp: svc_simulates_def)
  obtain n where n: "m ''k'' = [(n, Some ''v'')]" using m by (auto elim: kv_put_cases)
  have nb: "0 < n" "n \<le> 2" using svc_versions_bounds [OF inv1, of n "''k''"] n c1 by auto
  define a :: int64 where "a = word_of_int n"
  have a: "sint a = n" unfolding a_def using nb by (intro sint64_of_int) auto
  obtain res2 sv2 where r2: "ServeHTTP mem_env demo_choices (request_of (SUpdate ''k'' ''w'' a)) sv1 = (res2, sv2)" by force
  obtain rsp2 m2 where m2: "res2 = Ok rsp2" "kv_step m (SUpdate ''k'' ''w'' a) rsp2 m2"
    using serve_request [OF inv1 _ fair r2] c1 by (auto simp: svc_simulates_def)
  obtain msg where msg: "res2 = Ok (Response 201 msg)" using m2 n a by (auto elim!: kv_update_cases)
  obtain res3 sv3 where r3: "ServeHTTP mem_env demo_choices (request_of (SUpdate ''k'' ''x'' a)) sv2 = (res3, sv3)" by force
  let ?es = "[Request (SPut ''k'' ''v'') demo_choices, Request (SUpdate ''k'' ''w'' a) demo_choices, Request (SUpdate ''k'' ''x'' a) demo_choices]"
  let ?ans = "[(SPut ''k'' ''v'', res1)] @ (SUpdate ''k'' ''w'' a, Ok (Response 201 msg)) # [] @ (SUpdate ''k'' ''x'' a, res3) # []"
  have "svc_run mem_env ?es (booted h empty_world) = (?ans, sv3)" using r1 r2 r3 msg by (simp del: request_of.simps)
  moreover have "\<forall>e \<in> set ?es. fair_event e" "2 * int (length ?es) < 2 ^ 63" using fair by simp_all
  moreover have "\<forall>ls. mset (List.rev ls) = mset ls" by simp
  ultimately have hist: "service_history mem_env ?es ?ans sv3"
    unfolding service_history_def using mem_env_ok h b by blast
  from conditional_updates_exclusive [OF this refl] hist show ?thesis by blast
qed

section \<open>The replicas converge\<close>

lemma drain: "pending (snd (svc_run env (replicate (length (pending sv)) (RunJob 0)) sv)) = []"
proof (induction "pending sv" arbitrary: sv)
  case (Cons j js)
  obtain res w1 where "run_job (conf (handler sv)) (env_api env) (piping_type (piping (handler sv))) (pending sv ! 0) (wd sv) = (res, w1)" by force
  then have e: "svc_exec env (RunJob 0) sv = ([], sv\<lparr>wd := w1, pending := js\<rparr>)" using Cons.hyps(2) [symmetric] by simp
  have l: "length (pending sv) = Suc (length js)" using Cons.hyps(2) [symmetric] by simp
  have "pending (snd (svc_run env (replicate (length js) (RunJob 0)) (sv\<lparr>wd := w1, pending := js\<rparr>))) = []"
    using Cons.hyps(1) [of "sv\<lparr>wd := w1, pending := js\<rparr>"] by simp
  then show ?case unfolding l replicate_Suc svc_run.simps e by (simp split: prod.splits)
qed simp

lemma replica_reads:
  assumes "svc_inv env N content ok sv m" and "pending sv = []" and "piping (handler sv) = SyncAsyncP sap"
    and "m k \<noteq> []" and "last (m k) = (n, Some v)" and "Get (indexTree (handler sv)) k 0 = Ok (r, cr, vs)" and "nm \<in> replica_names r"
  shows "fst (store_get (conf (handler sv)) (env_api env) (sap_databaseType sap) nm (Revision_String r) (wd sv)) = Ok v"
proof -
  obtain q c' v' where q: "Get (indexTree (handler sv)) k 0 = Ok (q, c', v')" "(q, False) \<in> set (ti_hist (indexTree (handler sv)) k)"
      "sint (main q) = n" "replicas_ok N (nodes q)"
    by (rule last_revision [OF assms(1,4,5)])
  have r: "r = q" using q(1) assms(6) by simp
  have con: "store_contract (conf (handler sv)) (env_api env) (sap_databaseType sap) content ok"
    using service_piping [OF assms(1)] assms(3) by (metis Piping.inject(2))
  obtain sns ans where ns: "nodes q = [Join sns '','', Join ans '','']" "names_ok sns" "names_ok ans" "sns \<noteq> []" "set sns \<union> set ans \<subseteq> N"
    using q(4) by (auto simp: replicas_ok_def)
  have "nm \<in> N" using assms(7) ns(5) unfolding r replica_names_eq [OF ns(1-4)] by blast
  then have okn: "ok nm (wd sv)" by (rule svc_invD(5) [OF assms(1)])
  have "(sint (main q), v) \<in> set (live (m k))" using last_live [OF assms(4,5)] q(3) by simp
  then have val: "content (wd sv) nm (Revision_String r) = Some v"
    using svc_invD(8) [OF assms(1)] q(2) assms(2,7) r unfolding repl_ok_def by fastforce
  obtain g w1 where "store_get (conf (handler sv)) (env_api env) (sap_databaseType sap) nm (Revision_String r) (wd sv) = (g, w1)" by force
  with kv_backend.get_law [OF con okn this] val show ?thesis by simp
qed

text \<open>Every replica of the latest version of a key returns its value when it is asked itself.\<close>

definition replicas_hold :: "'s env \<Rightarrow> SyncAsyncPiping \<Rightarrow> 's server \<Rightarrow> kv_map \<Rightarrow> bool" where
  "replicas_hold env sap sv m \<longleftrightarrow> (\<forall>k n v r cr vs nm.
     m k \<noteq> [] \<and> last (m k) = (n, Some v) \<and> Get (indexTree (handler sv)) k 0 = Ok (r, cr, vs) \<and> nm \<in> replica_names r \<longrightarrow>
     fst (store_get (conf (handler sv)) (env_api env) (sap_databaseType sap) nm (Revision_String r) (wd sv)) = Ok v)"

text \<open>C5: The replicas converge. The background jobs that are pending can always be run to the end, and
  whenever none is pending, every replica of the latest version of a key, synchronous or
  asynchronous, returns the value that the specification has for the key when it is asked itself.\<close>

theorem replicas_converge:
  assumes "service_history env es answers sv" and "piping (handler sv) = SyncAsyncP sap"
  shows "pending (snd (svc_run env (replicate (length (pending sv)) (RunJob 0)) sv)) = [] \<and>
    (pending sv = [] \<longrightarrow> (\<exists>m. explains kv_answer (\<lambda>_. []) answers m \<and> replicas_hold env sap sv m))"
proof (intro conjI impI drain)
  assume p: "pending sv = []"
  obtain content ok m where m: "explains kv_answer (\<lambda>_. []) answers m" "svc_inv env (store_names env) content ok sv m"
    by (rule history_inv [OF assms(1)])
  have "replicas_hold env sap sv m" unfolding replicas_hold_def using replica_reads [OF m(2) p assms(2)] by blast
  with m(1) show "\<exists>m. explains kv_answer (\<lambda>_. []) answers m \<and> replicas_hold env sap sv m" by blast
qed

definition put_events :: "event list" where
  "put_events = [Request (SPut ''k'' ''v'') demo_choices, RunJob 0]"

theorem replicas_converge_witness:
  "\<exists>answers sv sap m. service_history mem_env put_events answers sv \<and> pending sv = [] \<and>
     explains kv_answer (\<lambda>_. []) answers m \<and> replicas_hold mem_env sap sv m"
proof -
  let ?run = "\<lambda>h. svc_run mem_env put_events (booted h empty_world)"
  have "case NewKeyValueHandler mem_env mem_probe List.rev of
      Ok h \<Rightarrow> pending (snd (?run h)) = [] \<and> (case piping (handler (snd (?run h))) of SyncAsyncP _ \<Rightarrow> True | _ \<Rightarrow> False) | _ \<Rightarrow> False"
    by code_simp
  then obtain h where h: "NewKeyValueHandler mem_env mem_probe List.rev = Ok h" and p: "pending (snd (?run h)) = []"
    and "case piping (handler (snd (?run h))) of SyncAsyncP _ \<Rightarrow> True | _ \<Rightarrow> False"
    by (auto split: result.splits)
  then obtain sap where s: "piping (handler (snd (?run h))) = SyncAsyncP sap"
    by (cases "piping (handler (snd (?run h)))") simp_all
  have "backend_ok mem_env (\<lambda>_ _ _. None) (\<lambda>_ _. True) empty_world" by (simp add: backend_ok_def mem_env_def)
  moreover have "\<forall>e \<in> set put_events. fair_event e" by (simp add: put_events_def demo_choices_def fair_def)
  moreover have "2 * int (length put_events) < 2 ^ 63" by (simp add: put_events_def)
  moreover have "\<forall>ls. mset (List.rev ls) = mset ls" by simp
  moreover obtain answers sv where r: "?run h = (answers, sv)" by force
  ultimately have hist: "service_history mem_env put_events answers sv"
    unfolding service_history_def using mem_env_ok h by blast
  have "pending sv = []" "piping (handler sv) = SyncAsyncP sap" using p s unfolding r by simp_all
  from replicas_converge [OF hist this(2)] this(1) hist show ?thesis by blast
qed

end
