(* ===== verification/Threads.thy ===== *)
theory Threads
  imports Service_Refinement
begin

text \<open>
  Handlers that overlap (\<^verbatim>\<open>cmd/http/main.go\<close> under \<^verbatim>\<open>net/http\<close>, which runs every request in a goroutine
  of its own). A handler is a thread; its steps are the accesses to what the handlers share: the
  atomic add and the load of the revision counter, one call of the index, the put, get
  or delete of one store, and, for \<^verbatim>\<open>Update\<close>, which holds the read lock only, the test and the change
  of the key index. A call of the index takes the lock of the index and releases it at its end; a thread that
  cannot take the lock stays where it is. Any number of threads interleave, and so do the goroutines they leave behind.
  The two calls of \<^verbatim>\<open>sync/atomic\<close> inside \<^verbatim>\<open>put\<close>, which only fill in \<^verbatim>\<open>created\<close>, belong to the
  index step, and a call on a chain is one step.
\<close>

section \<open>The threads\<close>

record create =
  c_key :: string
  c_value :: string
  c_rev :: string
  c_assumed :: int64

text \<open>Where a handler stands. A thread that is \<open>Arrived\<close> has not begun; \<open>Writing\<close> and \<open>Deleting\<close> carry the names
  of the stores that the goroutines they wait for have not yet written.\<close>

datatype pc =
    Arrived request
  | Drawing request string int64
  | Writing create Revision "string list"
  | ChainWriting create Revision
  | Updating create Revision
  | Reading Revision
  | ReadingSince int64 "Revision list" "Revision list" "string list"
  | Deleting "string list" Revision "string list" "unit result"
  | ChainDeleting "string list" Revision
  | Removing "string list" Revision "unit result"
  | Burying "string list" Revision "unit result" uint64
  | Done "response result"

definition respond :: "'s env \<Rightarrow> int \<Rightarrow> string result \<Rightarrow> response result" where
  "respond env statusCode res =
     (case res of
        Err e \<Rightarrow> Ok (Response 500 (error_text (env_quote env) e @ newline))
      | Panic p \<Rightarrow> Panic p
      | Ok result \<Rightarrow> Ok (if result \<noteq> [] then Response statusCode result else Response 200 []))"

definition answer :: "'s env \<Rightarrow> int \<Rightarrow> string result \<Rightarrow> 's server \<Rightarrow> pc \<times> 's server" where
  "answer env statusCode res sv = (Done (respond env statusCode res), sv)"

definition saved :: "create \<Rightarrow> Revision \<Rightarrow> string" where
  "saved cr r = ''The key value pair ('' @ c_key cr @ '','' @ c_value cr @ '') has been saved as revision '' @
     FormatUint (main r) @ '' at '' @ Join (nodes r) '','' @ newline"

subsection \<open>The lock of the index\<close>

text \<open>\<^verbatim>\<open>sync.RWMutex\<close>; \<open>None\<close> is a call that has to wait.\<close>

definition RLock :: "RWMutex \<Rightarrow> RWMutex option" where
  "RLock mu = (if writing mu then None else Some (mu\<lparr>readers := readers mu + 1\<rparr>))"

definition RUnlock :: "RWMutex \<Rightarrow> RWMutex" where
  "RUnlock mu = mu\<lparr>readers := readers mu - 1\<rparr>"

definition Lock :: "RWMutex \<Rightarrow> RWMutex option" where
  "Lock mu = (if writing mu \<or> readers mu \<noteq> 0 then None else Some (mu\<lparr>writing := True\<rparr>))"

definition Unlock :: "RWMutex \<Rightarrow> RWMutex" where
  "Unlock mu = mu\<lparr>writing := False\<rparr>"

text \<open>A call of the index that reads, between \<^verbatim>\<open>RLock\<close> and the deferred \<^verbatim>\<open>RUnlock\<close>, and one that changes it, between \<^verbatim>\<open>Lock\<close> and the
  deferred \<^verbatim>\<open>Unlock\<close>; \<open>after\<close> is how the handler goes on with the result, and \<open>p\<close> where it stays as long as it has to wait.\<close>

definition reading_index :: "pc \<Rightarrow> (treeIndex \<Rightarrow> 'a) \<Rightarrow> ('a \<Rightarrow> 's server \<Rightarrow> pc \<times> 's server) \<Rightarrow> 's server \<Rightarrow> pc \<times> 's server" where
  "reading_index p call after sv =
     (case RLock (index_mu sv) of
        None \<Rightarrow> (p, sv)
      | Some mu \<Rightarrow> (let sv1 = sv\<lparr>index_mu := mu\<rparr>; res = call (indexTree (handler sv1)) in after res (sv1\<lparr>index_mu := RUnlock (index_mu sv1)\<rparr>)))"

definition writing_index :: "pc \<Rightarrow> (treeIndex \<Rightarrow> uint64 \<Rightarrow> 'a \<times> treeIndex \<times> uint64) \<Rightarrow> ('a \<Rightarrow> 's server \<Rightarrow> pc \<times> 's server) \<Rightarrow> 's server \<Rightarrow> pc \<times> 's server" where
  "writing_index p call after sv =
     (case Lock (index_mu sv) of
        None \<Rightarrow> (p, sv)
      | Some mu \<Rightarrow>
          (let sv1 = sv\<lparr>index_mu := mu\<rparr>;
               (res, ti, c) = call (indexTree (handler sv1)) (counter sv1);
               sv2 = set_index ti c sv1
           in after res (sv2\<lparr>index_mu := Unlock (index_mu sv2)\<rparr>)))"

lemmas lock_defs = reading_index_def writing_index_def RLock_def RUnlock_def Lock_def Unlock_def

text \<open>A call leaves the lock as it has found it.\<close>

lemma reading_index_unlocked [simp]:
  "\<not> writing (index_mu sv) \<Longrightarrow> reading_index p call after sv = after (call (indexTree (handler sv))) sv"
  by (simp add: reading_index_def RLock_def RUnlock_def Let_def)

lemma writing_index_unlocked [simp]:
  assumes "\<not> writing (index_mu sv)"
  shows "writing_index p call after sv =
    (if readers (index_mu sv) = 0
     then (case call (indexTree (handler sv)) (counter sv) of (res, ti, c) \<Rightarrow> after res (set_index ti c sv))
     else (p, sv))"
  using assms by (auto simp: writing_index_def Lock_def Unlock_def Let_def set_index_def split: prod.splits)

subsection \<open>Reads\<close>

definition get_arrived :: "'s env \<Rightarrow> request \<Rightarrow> 's server \<Rightarrow> pc \<times> 's server" where
  "get_arrived env rq sv =
     (case map_of (Query rq) ''key'' of
        None \<Rightarrow> answer env 202 (Err (ErrorString (''the key is missing at the query '' @ fmt_query (Query rq)))) sv
      | Some [] \<Rightarrow> answer env 202 (Panic IndexOutOfRange) sv
      | Some (key # _) \<Rightarrow>
          (case map_of (Query rq) ''fromRev'' of
             Some [] \<Rightarrow> answer env 202 (Panic IndexOutOfRange) sv
           | Some (fromRev_s # _) \<Rightarrow>
               (case Atoi fromRev_s of
                  Err e \<Rightarrow> answer env 202 (Err e) sv
                | Panic p \<Rightarrow> answer env 202 (Panic p) sv
                | Ok fromRev \<Rightarrow>
                    reading_index (Arrived rq) (\<lambda>ti. RangeSince (env_sort_revs env) ti key None fromRev)
                      (\<lambda>res sv1. case res of
                         Err e \<Rightarrow> answer env 202 (Err e) sv1
                       | Panic p \<Rightarrow> answer env 202 (Panic p) sv1
                       | Ok rs \<Rightarrow> (ReadingSince fromRev rs rs [], sv1)) sv)
           | None \<Rightarrow>
               reading_index (Arrived rq) (\<lambda>ti. Get ti key 0)
                 (\<lambda>res sv1. case res of
                    Err e \<Rightarrow> answer env 202 (Err e) sv1
                  | Panic p \<Rightarrow> answer env 202 (Panic p) sv1
                  | Ok (r, _, _) \<Rightarrow> (Reading r, sv1)) sv))"

definition read_step :: "'s env \<Rightarrow> choices \<Rightarrow> Revision \<Rightarrow> 's server \<Rightarrow> pc \<times> 's server" where
  "read_step env ch r sv =
     (case getValueByRev env ch r sv of
        (Ok ret, sv1) \<Rightarrow> answer env 202 (Ok (''The value is '' @ ret @ '' with the revision '' @ Revision_String r @ newline)) sv1
      | (Err e, sv1) \<Rightarrow> answer env 202 (Err e) sv1
      | (Panic p, sv1) \<Rightarrow> answer env 202 (Panic p) sv1)"

fun since_step :: "'s env \<Rightarrow> choices \<Rightarrow> int64 \<Rightarrow> Revision list \<Rightarrow> Revision list \<Rightarrow> string list \<Rightarrow> 's server \<Rightarrow> pc \<times> 's server" where
  "since_step env ch fromRev rs [] vs sv =
     answer env 202 (Ok (''The values are '' @ fmt_map (fold (\<lambda>(r, v) m. AList.update (Revision_String r) v m) (zip rs vs) []) @
       '' from the revision '' @ FormatInt (sint fromRev) @ newline)) sv"
| "since_step env ch fromRev rs (r # left) vs sv =
     (case getValueByRev env ch r sv of
        (Ok v, sv1) \<Rightarrow> (ReadingSince fromRev rs left (vs @ [v]), sv1)
      | (Err e, sv1) \<Rightarrow> answer env 202 (Err e) sv1
      | (Panic p, sv1) \<Rightarrow> answer env 202 (Panic p) sv1)"

subsection \<open>Creates and updates\<close>

definition create_arrived :: "'s env \<Rightarrow> request \<Rightarrow> 's server \<Rightarrow> pc \<times> 's server" where
  "create_arrived env rq sv =
     (let revParam = Query_Get rq ''rev'' in
      if length revParam \<noteq> 0
      then (case ParseInt revParam of
              Ok revAssumed \<Rightarrow> (Drawing rq revParam revAssumed, sv\<lparr>counter := counter sv + 1\<rparr>)
            | Err _ \<Rightarrow> answer env 201 (Err (ErrorString (''invalid rev in query string: '' @ revParam))) sv
            | Panic p \<Rightarrow> answer env 201 (Panic p) sv)
      else (Drawing rq revParam 0, sv\<lparr>counter := counter sv + 1\<rparr>))"

definition write_failed :: "'s env \<Rightarrow> error \<Rightarrow> string result" where
  "write_failed env e = Err (ErrorString (''system backend failed to write data: '' @ error_text (env_quote env) e))"

text \<open>The load of the counter and what the handler computes until the first store is written; the
  goroutines for the asynchronous replicas are started before the synchronous ones.\<close>

definition create_drawn :: "'s env \<Rightarrow> request \<Rightarrow> string \<Rightarrow> int64 \<Rightarrow> 's server \<Rightarrow> pc \<times> 's server" where
  "create_drawn env rq revParam revAssumed sv =
     (let rv = counter sv; h = handler sv
      in case result_bind (getPrimaryRevBytesWithBucket (conf h) (NewRevision rv 0 []))
                (hm_GetNodes (env_hash env) (env_sort_nodes env) (hm h)) of
           Err e \<Rightarrow> answer env 201 (Err e) sv
         | Panic p \<Rightarrow> answer env 201 (Panic p) sv
         | Ok ns \<Rightarrow>
             (let newRev = SetNodes (NewRevision rv 0 []) ns in
              case Body rq of
                BodyError e \<Rightarrow> answer env 201 (Err e) sv
              | JsonError e \<Rightarrow> answer env 201 (Err e) sv
              | Payload pl \<Rightarrow>
                  (let cr = \<lparr>c_key = payload_Get pl ''key'', c_value = payload_Get pl ''value'', c_rev = revParam, c_assumed = revAssumed\<rparr> in
                   case piping h of
                     ChainP p \<Rightarrow> (ChainWriting cr newRev, sv)
                   | SyncAsyncP p \<Rightarrow>
                       (case splitStores (nodes newRev) of
                          Err e \<Rightarrow> answer env 201 (write_failed env e) sv
                        | Panic q \<Rightarrow> answer env 201 (Panic q) sv
                        | Ok (syncNodes, asyncNodes) \<Rightarrow>
                            (Writing cr newRev (filter (\<lambda>n. \<not> length n < 1) syncNodes),
                             sv\<lparr>pending := pending sv @ map (\<lambda>n. AsyncPut n (Revision_String newRev) (c_value cr))
                                                       (filter (\<lambda>n. \<not> length n < 1) asyncNodes)\<rparr>)))))"

text \<open>The goroutine that runs next is the \<open>i\<close>-th of those that are left.\<close>

abbreviation drop_nth :: "nat \<Rightarrow> 'a list \<Rightarrow> 'a list" where
  "drop_nth i xs \<equiv> take i xs @ drop (Suc i) xs"

definition write_step :: "'s env \<Rightarrow> nat \<Rightarrow> create \<Rightarrow> Revision \<Rightarrow> string list \<Rightarrow> 's server \<Rightarrow> pc \<times> 's server" where
  "write_step env i cr r names sv =
     (let j = i mod length names in
      case store_put (conf (handler sv)) (env_api env) (piping_type (piping (handler sv))) (names ! j) (Revision_String r) (c_value cr) (wd sv) of
        (Panic p, w1) \<Rightarrow> (Done (Panic p), sv\<lparr>wd := w1\<rparr>)
      | (_, w1) \<Rightarrow> (Writing cr r (drop_nth j names), sv\<lparr>wd := w1\<rparr>))"

text \<open>The index is changed when every store has been written: \<^verbatim>\<open>Put\<close> under the write lock. \<^verbatim>\<open>Update\<close> takes the read
  lock and tests the latest revision; when the test succeeds it still has the lock, and releases it after the change.\<close>

definition index_step :: "'s env \<Rightarrow> create \<Rightarrow> Revision \<Rightarrow> 's server \<Rightarrow> pc \<times> 's server" where
  "index_step env cr r sv =
     (if length (c_rev cr) \<noteq> 0
      then (case RLock (index_mu sv) of
              None \<Rightarrow> (Writing cr r [], sv)
            | Some mu \<Rightarrow>
                (let sv1 = sv\<lparr>index_mu := mu\<rparr>; sv2 = sv1\<lparr>index_mu := RUnlock (index_mu sv1)\<rparr>
                 in case tree_Get (tree (indexTree (handler sv1))) (newKeyIndex (c_key cr)) of
                      None \<Rightarrow> answer env 201 (Err ErrRevisionNotFound) sv2
                    | Some oki \<Rightarrow>
                        if main (modified oki) \<noteq> c_assumed cr then answer env 201 (Err ErrNotLatest) sv2 else (Updating cr r, sv1)))
      else writing_index (Writing cr r []) (\<lambda>ti c. ((), Put ti (c_key cr) r c)) (\<lambda>_. answer env 201 (Ok (saved cr r))) sv)"

definition update_step :: "'s env \<Rightarrow> create \<Rightarrow> Revision \<Rightarrow> 's server \<Rightarrow> pc \<times> 's server" where
  "update_step env cr r sv =
     (case tree_Get (tree (indexTree (handler sv))) (newKeyIndex (c_key cr)) of
        None \<Rightarrow> (Updating cr r, sv)
      | Some oki \<Rightarrow>
          (case put oki (main r) (sub r) (nodes r) (counter sv) of
             (ki, c') \<Rightarrow>
               (let sv1 = set_index ((indexTree (handler sv))\<lparr>tree := tree_mutate ki (tree (indexTree (handler sv)))\<rparr>) c' sv
                in answer env 201 (Ok (saved cr r)) (sv1\<lparr>index_mu := RUnlock (index_mu sv1)\<rparr>))))"

text \<open>The read lock as \<^verbatim>\<open>Update\<close> takes it.\<close>

abbreviation rlocked :: "'s server \<Rightarrow> 's server" where
  "rlocked sv \<equiv> sv\<lparr>index_mu := (index_mu sv)\<lparr>readers := Suc (readers (index_mu sv))\<rparr>\<rparr>"

lemma index_step_unlocked:
  assumes "\<not> writing (index_mu sv)"
  shows "index_step env cr r sv =
     (if length (c_rev cr) \<noteq> 0
      then (case tree_Get (tree (indexTree (handler sv))) (newKeyIndex (c_key cr)) of
              None \<Rightarrow> answer env 201 (Err ErrRevisionNotFound) sv
            | Some oki \<Rightarrow> if main (modified oki) \<noteq> c_assumed cr then answer env 201 (Err ErrNotLatest) sv else (Updating cr r, rlocked sv))
      else if readers (index_mu sv) = 0
      then (case Put (indexTree (handler sv)) (c_key cr) r (counter sv) of
              (ti, c') \<Rightarrow> answer env 201 (Ok (saved cr r)) (set_index ti c' sv))
      else (Writing cr r [], sv))"
  using assms by (auto simp: index_step_def RLock_def RUnlock_def Let_def split: option.splits prod.splits)

definition chain_write_step :: "'s env \<Rightarrow> choices \<Rightarrow> create \<Rightarrow> Revision \<Rightarrow> 's server \<Rightarrow> pc \<times> 's server" where
  "chain_write_step env ch cr r sv =
     (case piping_Write (conf (handler sv)) (env_api env) ch (piping (handler sv)) r (c_value cr) (wd sv) of
        (Err e, js, w1) \<Rightarrow> answer env 201 (write_failed env e) (sv\<lparr>wd := w1, pending := pending sv @ js\<rparr>)
      | (Panic p, js, w1) \<Rightarrow> answer env 201 (Panic p) (sv\<lparr>wd := w1, pending := pending sv @ js\<rparr>)
      | (Ok _, js, w1) \<Rightarrow> (Writing cr r [], sv\<lparr>wd := w1, pending := pending sv @ js\<rparr>))"

subsection \<open>Deletes\<close>

definition delete_arrived :: "'s env \<Rightarrow> request \<Rightarrow> 's server \<Rightarrow> pc \<times> 's server" where
  "delete_arrived env rq sv =
     (case map_of (Query rq) ''key'' of
        None \<Rightarrow> answer env 202 (Err (ErrorString (''the key is missing at the query '' @ fmt_query (Query rq)))) sv
      | Some [] \<Rightarrow> answer env 202 (Panic IndexOutOfRange) sv
      | Some (key # ks) \<Rightarrow>
          reading_index (Arrived rq) (\<lambda>ti. Get ti key 0)
            (\<lambda>res sv1. case res of
               Err e \<Rightarrow> answer env 202 (Err e) sv1
             | Panic p \<Rightarrow> answer env 202 (Panic p) sv1
             | Ok (r, _, _) \<Rightarrow>
                 (case piping (handler sv1) of
                    ChainP p \<Rightarrow> (ChainDeleting (key # ks) r, sv1)
                  | SyncAsyncP p \<Rightarrow>
                      (case splitStores (nodes r) of
                         Err e \<Rightarrow> (Deleting (key # ks) r [] (Err e), sv1)
                       | Panic q \<Rightarrow> answer env 202 (Panic q) sv1
                       | Ok (syncNodes, asyncNodes) \<Rightarrow>
                           (Deleting (key # ks) r (filter (\<lambda>n. \<not> length n < 1) syncNodes) (Ok ()),
                            sv1\<lparr>pending := pending sv1 @ map (\<lambda>n. AsyncDelete n (Revision_String r))
                                                       (filter (\<lambda>n. \<not> length n < 1) asyncNodes)\<rparr>)))) sv)"

definition delete_step :: "'s env \<Rightarrow> nat \<Rightarrow> string list \<Rightarrow> Revision \<Rightarrow> string list \<Rightarrow> unit result \<Rightarrow> 's server \<Rightarrow> pc \<times> 's server" where
  "delete_step env i keys r names dres sv =
     (let j = i mod length names in
      case store_delete (conf (handler sv)) (env_api env) (piping_type (piping (handler sv))) (names ! j) (Revision_String r) (wd sv) of
        (Panic p, w1) \<Rightarrow> (Done (Panic p), sv\<lparr>wd := w1\<rparr>)
      | (_, w1) \<Rightarrow> (Deleting keys r (drop_nth j names) dres, sv\<lparr>wd := w1\<rparr>))"

definition chain_delete_step :: "'s env \<Rightarrow> choices \<Rightarrow> string list \<Rightarrow> Revision \<Rightarrow> 's server \<Rightarrow> pc \<times> 's server" where
  "chain_delete_step env ch keys r sv =
     (case piping_Delete (conf (handler sv)) (env_api env) ch (piping (handler sv)) r (wd sv) of
        (Panic p, js, w1) \<Rightarrow> answer env 202 (Panic p) (sv\<lparr>wd := w1, pending := pending sv @ js\<rparr>)
      | (dres, js, w1) \<Rightarrow> (Deleting keys r [] dres, sv\<lparr>wd := w1, pending := pending sv @ js\<rparr>))"

definition bury_step :: "'s env \<Rightarrow> string list \<Rightarrow> Revision \<Rightarrow> unit result \<Rightarrow> uint64 \<Rightarrow> 's server \<Rightarrow> pc \<times> 's server" where
  "bury_step env keys r dres rv sv =
     writing_index (Burying keys r dres rv) (\<lambda>ti c. Tombstone ti (hd keys) (NewRevision rv (sub r) []) c)
       (\<lambda>tres sv1. case tres of
          Panic p \<Rightarrow> answer env 202 (Panic p) sv1
        | _ \<Rightarrow> answer env 202 (result_bind dres (\<lambda>_. Ok (''The key '' @ fmt_slice keys @ '' has been removed at '' @
                  fmt_slice (nodes r) @ newline))) sv1) sv"

subsection \<open>One step of a thread\<close>

text \<open>\<open>i\<close> is the choice of the scheduler.\<close>

fun hstep :: "'s env \<Rightarrow> choices \<Rightarrow> nat \<Rightarrow> pc \<Rightarrow> 's server \<Rightarrow> pc \<times> 's server" where
  "hstep env ch i (Arrived rq) sv =
     (if Path rq \<noteq> ''/kv'' then (Done (Ok (Response 404 (''404 page not found'' @ newline))), sv)
      else if Method rq = ''GET'' then get_arrived env rq sv
      else if Method rq = ''POST'' then create_arrived env rq sv
      else if Method rq = ''PUT'' then create_arrived env rq sv
      else if Method rq = ''DELETE'' then delete_arrived env rq sv
      else answer env 501 (Ok ''Not Implemented'') sv)"
| "hstep env ch i (Drawing rq revParam revAssumed) sv = create_drawn env rq revParam revAssumed sv"
| "hstep env ch i (Writing cr r []) sv = index_step env cr r sv"
| "hstep env ch i (Writing cr r (n # names)) sv = write_step env i cr r (n # names) sv"
| "hstep env ch i (ChainWriting cr r) sv = chain_write_step env ch cr r sv"
| "hstep env ch i (Updating cr r) sv = update_step env cr r sv"
| "hstep env ch i (Reading r) sv = read_step env ch r sv"
| "hstep env ch i (ReadingSince fromRev rs left vs) sv = since_step env ch fromRev rs left vs sv"
| "hstep env ch i (Deleting keys r [] dres) sv = (Removing keys r dres, sv\<lparr>counter := counter sv + 1\<rparr>)"
| "hstep env ch i (Deleting keys r (n # names) dres) sv = delete_step env i keys r (n # names) dres sv"
| "hstep env ch i (ChainDeleting keys r) sv = chain_delete_step env ch keys r sv"
| "hstep env ch i (Removing keys r dres) sv = (Burying keys r dres (counter sv), sv)"
| "hstep env ch i (Burying keys r dres rv) sv = bury_step env keys r dres rv sv"
| "hstep env ch i (Done res) sv = (Done res, sv)"

section \<open>Interleaving\<close>

text \<open>\<open>draws\<close> records which thread loaded which revision from the counter.\<close>

record 's conc =
  shared :: "'s server"
  threads :: "pc list"
  draws :: "(nat \<times> uint64) list"

datatype cevent = Step nat choices nat | Job nat

fun loads :: "pc \<Rightarrow> bool" where
  "loads (Drawing rq revParam revAssumed) = True"
| "loads (Removing keys r dres) = True"
| "loads _ = False"

fun conc_exec :: "'s env \<Rightarrow> cevent \<Rightarrow> 's conc \<Rightarrow> 's conc" where
  "conc_exec env (Step t ch i) s =
     (if t < length (threads s)
      then (case hstep env ch i (threads s ! t) (shared s) of
              (p, sv) \<Rightarrow> s\<lparr>shared := sv, threads := (threads s)[t := p],
                draws := draws s @ (if loads (threads s ! t) then [(t, counter (shared s))] else [])\<rparr>)
      else s)"
| "conc_exec env (Job i) s = s\<lparr>shared := snd (svc_exec env (RunJob i) (shared s))\<rparr>"

definition conc_run :: "'s env \<Rightarrow> cevent list \<Rightarrow> 's conc \<Rightarrow> 's conc" where
  "conc_run env es s = fold (conc_exec env) es s"

definition conc_start :: "svc_op list \<Rightarrow> 's server \<Rightarrow> 's conc" where
  "conc_start ops sv = \<lparr>shared = sv, threads = map (Arrived \<circ> request_of) ops, draws = []\<rparr>"


section \<open>A handler that runs alone\<close>

text \<open>Without interference the steps of a thread are the handler as one call. \<open>runs x y\<close> says that the
  steps lead from \<open>x\<close> to \<open>y\<close>.\<close>

abbreviation alone :: "'s env \<Rightarrow> choices \<Rightarrow> pc \<times> 's server \<Rightarrow> pc \<times> 's server" where
  "alone env ch \<equiv> \<lambda>(p, sv). hstep env ch 0 p sv"

definition runs :: "'s env \<Rightarrow> choices \<Rightarrow> pc \<times> 's server \<Rightarrow> pc \<times> 's server \<Rightarrow> bool" where
  "runs env ch x y \<longleftrightarrow> (\<exists>n. (alone env ch ^^ n) x = y)"

lemma runs_refl [simp]: "runs env ch x x"
  unfolding runs_def by (rule exI [of _ 0]) simp

lemma runs_trans: "runs env ch x y \<Longrightarrow> runs env ch y z \<Longrightarrow> runs env ch x z"
  unfolding runs_def by (metis comp_apply funpow_add)

lemma runs_step: "runs env ch (hstep env ch 0 p sv) y \<Longrightarrow> runs env ch (p, sv) y"
  by (rule runs_trans [of _ _ _ "hstep env ch 0 p sv"]) (auto simp: runs_def intro!: exI [of _ 1])

lemma sync_puts_filter: "sync_puts cf api ty (filter (\<lambda>n. \<not> length n < 1) ns) key val w = sync_puts cf api ty ns key val w"
  by (induction ns arbitrary: w) (auto split: result.splits prod.splits)

lemma sync_deletes_filter: "sync_deletes cf api ty (filter (\<lambda>n. \<not> length n < 1) ns) key w = sync_deletes cf api ty ns key w"
  by (induction ns arbitrary: w) (auto split: result.splits prod.splits)

lemma sync_puts_result: "sync_puts cf api ty ns key val w = (res, w1) \<Longrightarrow> res = Ok () \<or> (\<exists>p. res = Panic p)"
  by (induction ns arbitrary: w) (auto split: result.splits prod.splits if_splits)

lemma sync_deletes_result: "sync_deletes cf api ty ns key w = (res, w1) \<Longrightarrow> res = Ok () \<or> (\<exists>p. res = Panic p)"
  by (induction ns arbitrary: w) (auto split: result.splits prod.splits if_splits)

lemma runs_writes:
  assumes "\<forall>n \<in> set names. \<not> length n < 1"
    and "sync_puts (conf (handler sv)) (env_api env) (piping_type (piping (handler sv))) names (Revision_String r) (c_value cr) (wd sv) = (res, w1)"
  shows "runs env ch (Writing cr r names, sv)
    (case res of Panic p \<Rightarrow> (Done (Panic p), sv\<lparr>wd := w1\<rparr>) | _ \<Rightarrow> (Writing cr r [], sv\<lparr>wd := w1\<rparr>))"
  using assms
proof (induction names arbitrary: sv)
  case (Cons n names)
  obtain q w2 where p: "store_put (conf (handler sv)) (env_api env) (piping_type (piping (handler sv))) n (Revision_String r) (c_value cr) (wd sv) = (q, w2)"
    by force
  show ?case
  proof (cases "\<exists>x. q = Panic x")
    case True
    then show ?thesis using Cons.prems p by (intro runs_step) (auto simp: write_step_def Let_def Suc_le_eq)
  next
    case False
    then have "sync_puts (conf (handler sv)) (env_api env) (piping_type (piping (handler sv))) names (Revision_String r) (c_value cr) w2 = (res, w1)"
      using Cons.prems p by (cases q) (auto simp: Suc_le_eq)
    with Cons.IH [of "sv\<lparr>wd := w2\<rparr>"] Cons.prems(1) False p show ?thesis
      by (intro runs_step) (cases q; cases res; simp add: write_step_def Let_def)
  qed
qed auto

lemma runs_deletes:
  assumes "\<forall>n \<in> set names. \<not> length n < 1"
    and "sync_deletes (conf (handler sv)) (env_api env) (piping_type (piping (handler sv))) names (Revision_String r) (wd sv) = (res, w1)"
  shows "runs env ch (Deleting keys r names dres, sv)
    (case res of Panic p \<Rightarrow> (Done (Panic p), sv\<lparr>wd := w1\<rparr>) | _ \<Rightarrow> (Deleting keys r [] dres, sv\<lparr>wd := w1\<rparr>))"
  using assms
proof (induction names arbitrary: sv)
  case (Cons n names)
  obtain q w2 where p: "store_delete (conf (handler sv)) (env_api env) (piping_type (piping (handler sv))) n (Revision_String r) (wd sv) = (q, w2)"
    by force
  show ?case
  proof (cases "\<exists>x. q = Panic x")
    case True
    then show ?thesis using Cons.prems p by (intro runs_step) (auto simp: delete_step_def Let_def Suc_le_eq)
  next
    case False
    then have "sync_deletes (conf (handler sv)) (env_api env) (piping_type (piping (handler sv))) names (Revision_String r) w2 = (res, w1)"
      using Cons.prems p by (cases q) (auto simp: Suc_le_eq)
    with Cons.IH [of "sv\<lparr>wd := w2\<rparr>"] Cons.prems(1) False p show ?thesis
      by (intro runs_step) (cases q; cases res; simp add: delete_step_def Let_def)
  qed
qed auto

lemma runs_since:
  assumes "getValuesByRevs env ch left sv = (res, sv1)"
  shows "runs env ch (ReadingSince fromRev rs left vs, sv)
    (case res of Ok vs' \<Rightarrow> (ReadingSince fromRev rs [] (vs @ vs'), sv1) | Err e \<Rightarrow> answer env 202 (Err e) sv1 | Panic p \<Rightarrow> answer env 202 (Panic p) sv1)"
  using assms
proof (induction left arbitrary: sv vs res)
  case (Cons r left)
  obtain q sv2 where g: "getValueByRev env ch r sv = (q, sv2)" by force
  show ?case
  proof (cases q)
    case (Ok v)
    obtain res2 where l: "getValuesByRevs env ch left sv2 = (res2, sv1)" "res = (case res2 of Ok vs \<Rightarrow> Ok (v # vs) | Err e \<Rightarrow> Err e | Panic p \<Rightarrow> Panic p)"
      using Cons.prems g Ok by (auto split: prod.splits result.splits)
    show ?thesis using Cons.IH [OF l(1), of "vs @ [v]"] g Ok l(2) by (intro runs_step) (cases res2; simp)
  qed (use Cons.prems g in \<open>auto intro!: runs_step\<close>)
qed auto

lemma runs_index:
  assumes "tree_ok (tree (indexTree (handler sv)))" and mu: "\<not> writing (index_mu sv)" "readers (index_mu sv) = 0"
    and "index_kv (c_rev cr) (c_assumed cr) (c_key cr) r (indexTree (handler sv)) (counter sv) = (res, ti, c')"
  shows "runs env ch (Writing cr r [], sv) (Done (respond env 201 (result_bind res (\<lambda>_. Ok (saved cr r)))), set_index ti c' sv)"
proof (cases "c_rev cr = []")
  case True
  then show ?thesis using assms(4) by (intro runs_step) (auto simp: index_step_unlocked mu index_kv_def answer_def)
next
  case rev: False
  let ?ti = "indexTree (handler sv)"
  show ?thesis
  proof (cases "lookup ?ti (c_key cr)")
    case None
    then have "set_index ti c' sv = sv" using rev assms(4) by (simp add: index_kv_def Update_def set_index_def)
    then show ?thesis using rev None assms(4) by (intro runs_step) (auto simp: index_step_unlocked mu index_kv_def Update_def answer_def)
  next
    case (Some oki)
    show ?thesis
    proof (cases "main (modified oki) = c_assumed cr")
      case True
      obtain ki c1 where p: "put oki (main r) (sub r) (nodes r) (counter sv) = (ki, c1)" by force
      then have "res = Ok ()" "ti = ?ti\<lparr>tree := tree_mutate ki (tree ?ti)\<rparr>" "c' = c1"
        using assms(4) rev Some True by (simp_all add: index_kv_def Update_def update_def)
      then have "hstep env ch 0 (Updating cr r) (rlocked sv) = (Done (respond env 201 (result_bind res (\<lambda>_. Ok (saved cr r)))), set_index ti c' sv)"
        using Some p mu by (simp add: update_step_def answer_def set_index_def RUnlock_def)
      then have "runs env ch (Updating cr r, rlocked sv) (Done (respond env 201 (result_bind res (\<lambda>_. Ok (saved cr r)))), set_index ti c' sv)"
        by (intro runs_step) simp
      then show ?thesis using rev Some True by (intro runs_step [of _ _ "Writing cr r []"]) (simp add: index_step_unlocked mu)
    next
      case False
      then have "set_index ti c' sv = sv" using rev Some assms tree_mutate_same [OF assms(1) Some]
        by (simp add: index_kv_def Update_def update_def set_index_def)
      then show ?thesis using rev Some False assms(4)
        by (intro runs_step) (auto simp: index_step_unlocked mu index_kv_def Update_def update_def answer_def)
    qed
  qed
qed


text \<open>A create whose revision, replicas and payload are known.\<close>

definition create_of :: "(string \<times> string) list \<Rightarrow> string \<Rightarrow> int64 \<Rightarrow> create" where
  "create_of pl revParam a = \<lparr>c_key = payload_Get pl ''key'', c_value = payload_Get pl ''value'', c_rev = revParam, c_assumed = a\<rparr>"

definition placed :: "'s env \<Rightarrow> KeyValueHandler \<Rightarrow> uint64 \<Rightarrow> string list result" where
  "placed env h rv = result_bind (getPrimaryRevBytesWithBucket (conf h) (NewRevision rv 0 [])) (hm_GetNodes (env_hash env) (env_sort_nodes env) (hm h))"

lemma SetNodes_NewRevision: "SetNodes (NewRevision m s ns) ns' = NewRevision m s ns'"
  by (simp add: SetNodes_def NewRevision_def)

lemma NewRevision_sel [simp]:
  "main (NewRevision m s ns) = m" "sub (NewRevision m s ns) = s" "nodes (NewRevision m s ns) = ns"
  by (simp_all add: NewRevision_def)

lemma create_drawn_eq:
  "create_drawn env rq revParam a sv =
     (case placed env (handler sv) (counter sv) of
        Err e \<Rightarrow> answer env 201 (Err e) sv
      | Panic p \<Rightarrow> answer env 201 (Panic p) sv
      | Ok ns \<Rightarrow>
          (case Body rq of
             BodyError e \<Rightarrow> answer env 201 (Err e) sv
           | JsonError e \<Rightarrow> answer env 201 (Err e) sv
           | Payload pl \<Rightarrow>
               (let cr = create_of pl revParam a; r = NewRevision (counter sv) 0 ns in
                case piping (handler sv) of
                  ChainP p \<Rightarrow> (ChainWriting cr r, sv)
                | SyncAsyncP p \<Rightarrow>
                    (case splitStores ns of
                       Err e \<Rightarrow> answer env 201 (write_failed env e) sv
                     | Panic q \<Rightarrow> answer env 201 (Panic q) sv
                     | Ok (sns, ans) \<Rightarrow>
                         (Writing cr r (filter (\<lambda>n. \<not> length n < 1) sns),
                          sv\<lparr>pending := pending sv @ map (\<lambda>n. AsyncPut n (Revision_String r) (c_value cr)) (filter (\<lambda>n. \<not> length n < 1) ans)\<rparr>)))))"
  by (cases "placed env (handler sv) (counter sv)"; cases "Body rq"; cases "piping (handler sv)")
    (simp_all add: create_drawn_def placed_def [symmetric] Let_def SetNodes_NewRevision create_of_def)

lemma createKV_with_eq:
  "createKV_with env ch rq revParam a sv =
     (let sv1 = sv\<lparr>counter := counter sv + 1\<rparr> in
      case placed env (handler sv) (counter sv + 1) of
        Err e \<Rightarrow> (Err e, sv1)
      | Panic p \<Rightarrow> (Panic p, sv1)
      | Ok ns \<Rightarrow>
          (case Body rq of
             BodyError e \<Rightarrow> (Err e, sv1)
           | JsonError e \<Rightarrow> (Err e, sv1)
           | Payload pl \<Rightarrow>
               (let cr = create_of pl revParam a; r = NewRevision (counter sv + 1) 0 ns in
                case piping_Write (conf (handler sv)) (env_api env) ch (piping (handler sv)) r (c_value cr) (wd sv) of
                  (wres, js, w1) \<Rightarrow>
                    (let sv2 = sv1\<lparr>wd := w1, pending := pending sv @ js\<rparr> in
                     case wres of
                       Err e \<Rightarrow> (write_failed env e, sv2)
                     | Panic p \<Rightarrow> (Panic p, sv2)
                     | Ok _ \<Rightarrow>
                         (case index_kv (c_rev cr) (c_assumed cr) (c_key cr) r (indexTree (handler sv2)) (counter sv2) of
                            (ires, ti, c2) \<Rightarrow> (result_bind ires (\<lambda>_. Ok (saved cr r)), set_index ti c2 sv2))))))"
  by (cases "placed env (handler sv) (counter sv + 1)"; cases "Body rq")
    (simp_all add: createKV_with_def placed_def [symmetric] Let_def SetNodes_NewRevision create_of_def saved_def write_failed_def
      GetGlobalIncreasingRevision_def split: result.splits prod.splits)

text \<open>Until the stores are written: the piping as one call and its goroutines one after the other.\<close>

lemma runs_written:
  assumes "name_order ch = (\<lambda>ns. ns)" and "placed env (handler sv) (counter sv) = Ok ns" and "Body rq = Payload pl"
    and "r = NewRevision (counter sv) 0 ns" and "cr = create_of pl revParam a"
    and "piping_Write (conf (handler sv)) (env_api env) ch (piping (handler sv)) r (c_value cr) (wd sv) = (wres, js, w1)"
    and "sv2 = sv\<lparr>wd := w1, pending := pending sv @ js\<rparr>"
  shows "runs env ch (create_drawn env rq revParam a sv)
    (case wres of Err e \<Rightarrow> answer env 201 (write_failed env e) sv2 | Panic p \<Rightarrow> answer env 201 (Panic p) sv2 | Ok _ \<Rightarrow> (Writing cr r [], sv2))"
proof (cases "piping (handler sv)")
  case (ChainP q)
  then have "create_drawn env rq revParam a sv = (ChainWriting cr r, sv)"
    using assms(2-5) by (simp add: create_drawn_eq Let_def)
  moreover have "runs env ch (ChainWriting cr r, sv) (hstep env ch 0 (ChainWriting cr r) sv)" by (intro runs_step) simp
  ultimately show ?thesis using assms(6,7) by (cases wres) (simp_all add: chain_write_step_def)
next
  case (SyncAsyncP q)
  let ?jobs = "\<lambda>ans. map (\<lambda>n. AsyncPut n (Revision_String r) (c_value cr)) (filter (\<lambda>n. \<not> length n < 1) ans)"
  let ?put = "sync_puts (conf (handler sv)) (env_api env) (sap_databaseType q)"
  have d: "create_drawn env rq revParam a sv = (case splitStores ns of Err e \<Rightarrow> answer env 201 (write_failed env e) sv
      | Panic q \<Rightarrow> answer env 201 (Panic q) sv
      | Ok (sns, ans) \<Rightarrow> (Writing cr r (filter (\<lambda>n. \<not> length n < 1) sns), sv\<lparr>pending := pending sv @ ?jobs ans\<rparr>))"
    using assms(2,3) SyncAsyncP by (simp add: create_drawn_eq Let_def assms(4,5) [symmetric])
  have w: "sap_Write (conf (handler sv)) (env_api env) (\<lambda>ns. ns) q r (c_value cr) (wd sv) = (wres, js, w1)" "nodes r = ns"
    using assms(1,4,6) SyncAsyncP by simp_all
  show ?thesis
  proof (cases "splitStores ns")
    case (Ok x)
    obtain sns ans where x: "x = (sns, ans)" by force
    have js: "js = ?jobs ans" and put: "?put sns (Revision_String r) (c_value cr) (wd sv) = (wres, w1)"
      using w Ok x by (auto simp: sap_Write_def Let_def split: prod.splits)
    let ?sv3 = "sv\<lparr>pending := pending sv @ ?jobs ans\<rparr>"
    have sv2: "?sv3\<lparr>wd := w1\<rparr> = sv2" by (simp add: js assms(7))
    have "runs env ch (Writing cr r (filter (\<lambda>n. \<not> length n < 1) sns), ?sv3)
        (case wres of Panic p \<Rightarrow> (Done (Panic p), ?sv3\<lparr>wd := w1\<rparr>) | _ \<Rightarrow> (Writing cr r [], ?sv3\<lparr>wd := w1\<rparr>))"
      by (rule runs_writes) (use put SyncAsyncP in \<open>simp_all add: sync_puts_filter [simplified]\<close>)
    then show ?thesis using sync_puts_result [OF put] unfolding d Ok x sv2 by (auto simp: respond_def answer_def)
  qed (use w d assms(7) in \<open>auto simp: sap_Write_def\<close>)
qed

lemma runs_create:
  assumes "name_order ch = (\<lambda>ns. ns)" and "tree_ok (tree (indexTree (handler sv)))" and mu: "\<not> writing (index_mu sv)" "readers (index_mu sv) = 0"
    and "createKV_with env ch rq revParam a sv = (res, sv')"
  shows "runs env ch (Drawing rq revParam a, sv\<lparr>counter := counter sv + 1\<rparr>) (Done (respond env 201 res), sv')"
proof (rule runs_step, unfold hstep.simps)
  let ?sv1 = "sv\<lparr>counter := counter sv + 1\<rparr>"
  note eqs = create_drawn_eq createKV_with_eq Let_def
  show "runs env ch (create_drawn env rq revParam a ?sv1) (Done (respond env 201 res), sv')"
  proof (cases "\<exists>ns pl. placed env (handler sv) (counter sv + 1) = Ok ns \<and> Body rq = Payload pl")
    case False
    then show ?thesis using assms(5) by (auto simp: eqs answer_def split: result.splits body.splits)
  next
    case True
    then obtain ns pl where p: "placed env (handler sv) (counter sv + 1) = Ok ns" "Body rq = Payload pl" by blast
    define r cr where "r = NewRevision (counter sv + 1) 0 ns" and "cr = create_of pl revParam a"
    obtain wres js w1 where w: "piping_Write (conf (handler sv)) (env_api env) ch (piping (handler sv)) r (c_value cr) (wd sv) = (wres, js, w1)"
      by (metis prod_cases3)
    define sv2 where "sv2 = ?sv1\<lparr>wd := w1, pending := pending sv @ js\<rparr>"
    have ok: "tree_ok (tree (indexTree (handler sv2)))" and mu2: "\<not> writing (index_mu sv2)" "readers (index_mu sv2) = 0"
      using assms(2) mu by (simp_all add: sv2_def)
    obtain ires ti c2 where i: "index_kv (c_rev cr) (c_assumed cr) (c_key cr) r (indexTree (handler sv2)) (counter sv2) = (ires, ti, c2)"
      by (metis prod_cases3)
    have "(res, sv') = (case wres of Err e \<Rightarrow> (write_failed env e, sv2) | Panic p \<Rightarrow> (Panic p, sv2)
        | Ok _ \<Rightarrow> (result_bind ires (\<lambda>_. Ok (saved cr r)), set_index ti c2 sv2))"
      using assms(5) p w i by (cases wres) (simp_all add: createKV_with_eq Let_def r_def [symmetric] cr_def [symmetric] sv2_def)
    then have "runs env ch (case wres of Err e \<Rightarrow> answer env 201 (write_failed env e) sv2 | Panic p \<Rightarrow> answer env 201 (Panic p) sv2
        | Ok _ \<Rightarrow> (Writing cr r [], sv2)) (Done (respond env 201 res), sv')"
      using runs_index [OF ok mu2 i] by (cases wres) (simp_all add: answer_def)
    moreover have "runs env ch (create_drawn env rq revParam a ?sv1) (case wres of Err e \<Rightarrow> answer env 201 (write_failed env e) sv2
        | Panic p \<Rightarrow> answer env 201 (Panic p) sv2 | Ok _ \<Rightarrow> (Writing cr r [], sv2))"
      by (rule runs_written [OF assms(1)]) (use p w in \<open>simp_all add: r_def cr_def sv2_def\<close>)
    ultimately show ?thesis by (blast intro: runs_trans)
  qed
qed


lemma runs_bury:
  assumes "deleteKV env ch rq sv = (res, sv')" and "map_of (Query rq) ''key'' = Some (key # ks)"
    and "Get (indexTree (handler sv)) key 0 = Ok (r, cr, vs)"
    and "piping_Delete (conf (handler sv)) (env_api env) ch (piping (handler sv)) r (wd sv) = (dres, js, w1)"
    and "\<forall>p. dres \<noteq> Panic p" and mu: "\<not> writing (index_mu sv)" "readers (index_mu sv) = 0"
  shows "runs env ch (Deleting (key # ks) r [] dres, sv\<lparr>wd := w1, pending := pending sv @ js\<rparr>) (Done (respond env 202 res), sv')"
proof -
  let ?sv = "sv\<lparr>wd := w1, pending := pending sv @ js\<rparr>" and ?c = "counter sv + 1"
  obtain tres ti c2 where t: "Tombstone (indexTree (handler sv)) key (NewRevision ?c (sub r) []) ?c = (tres, ti, c2)"
    by (metis prod_cases3)
  have s: "set_index ti c2 (?sv\<lparr>counter := ?c\<rparr>) = set_index ti c2 ?sv" by (simp add: set_index_def)
  have "(res, sv') = (case tres of Panic p \<Rightarrow> (Panic p, set_index ti c2 ?sv)
      | _ \<Rightarrow> (result_bind dres (\<lambda>_. Ok (''The key '' @ fmt_slice (key # ks) @ '' has been removed at '' @ fmt_slice (nodes r) @ newline)), set_index ti c2 ?sv))"
    using assms(1-5) t by (cases dres; cases tres) (simp_all add: deleteKV_def GetGlobalIncreasingRevision_def)
  then have "runs env ch (Burying (key # ks) r dres ?c, ?sv\<lparr>counter := ?c\<rparr>) (Done (respond env 202 res), sv')"
    using t s mu by (intro runs_step) (cases tres; simp add: bury_step_def answer_def)
  then have "runs env ch (Removing (key # ks) r dres, ?sv\<lparr>counter := ?c\<rparr>) (Done (respond env 202 res), sv')"
    by (intro runs_step) simp
  then show ?thesis by (intro runs_step) simp
qed

lemma runs_deleted:
  assumes "name_order ch = (\<lambda>ns. ns)"
    and "map_of (Query rq) ''key'' = Some (key # ks)" and "Get (indexTree (handler sv)) key 0 = Ok (r, cr, vs)"
    and "piping_Delete (conf (handler sv)) (env_api env) ch (piping (handler sv)) r (wd sv) = (dres, js, w1)"
    and "sv2 = sv\<lparr>wd := w1, pending := pending sv @ js\<rparr>" and mu: "\<not> writing (index_mu sv)"
  shows "runs env ch (delete_arrived env rq sv)
    (case dres of Panic p \<Rightarrow> answer env 202 (Panic p) sv2 | _ \<Rightarrow> (Deleting (key # ks) r [] dres, sv2))"
proof (cases "piping (handler sv)")
  case (ChainP q)
  then have "delete_arrived env rq sv = (ChainDeleting (key # ks) r, sv)" using assms(2,3) mu by (simp add: delete_arrived_def)
  moreover have "runs env ch (ChainDeleting (key # ks) r, sv) (hstep env ch 0 (ChainDeleting (key # ks) r) sv)"
    by (intro runs_step) simp
  ultimately show ?thesis using assms(4,5) by (cases dres) (simp_all add: chain_delete_step_def)
next
  case (SyncAsyncP q)
  let ?jobs = "\<lambda>ans. map (\<lambda>n. AsyncDelete n (Revision_String r)) (filter (\<lambda>n. \<not> length n < 1) ans)"
  let ?del = "sync_deletes (conf (handler sv)) (env_api env) (sap_databaseType q)"
  have d: "delete_arrived env rq sv = (case splitStores (nodes r) of Err e \<Rightarrow> (Deleting (key # ks) r [] (Err e), sv)
      | Panic q \<Rightarrow> answer env 202 (Panic q) sv
      | Ok (sns, ans) \<Rightarrow> (Deleting (key # ks) r (filter (\<lambda>n. \<not> length n < 1) sns) (Ok ()), sv\<lparr>pending := pending sv @ ?jobs ans\<rparr>))"
    using assms(2,3) SyncAsyncP mu by (simp add: delete_arrived_def)
  have w: "sap_Delete (conf (handler sv)) (env_api env) (\<lambda>ns. ns) q r (wd sv) = (dres, js, w1)"
    using assms(1,4) SyncAsyncP by simp
  show ?thesis
  proof (cases "splitStores (nodes r)")
    case (Ok x)
    obtain sns ans where x: "x = (sns, ans)" by force
    have js: "js = ?jobs ans" and del: "?del sns (Revision_String r) (wd sv) = (dres, w1)"
      using w Ok x by (auto simp: sap_Delete_def Let_def split: prod.splits)
    let ?sv3 = "sv\<lparr>pending := pending sv @ ?jobs ans\<rparr>"
    have sv2: "?sv3\<lparr>wd := w1\<rparr> = sv2" by (simp add: js assms(5))
    have "runs env ch (Deleting (key # ks) r (filter (\<lambda>n. \<not> length n < 1) sns) (Ok ()), ?sv3)
        (case dres of Panic p \<Rightarrow> (Done (Panic p), ?sv3\<lparr>wd := w1\<rparr>) | _ \<Rightarrow> (Deleting (key # ks) r [] (Ok ()), ?sv3\<lparr>wd := w1\<rparr>))"
      by (rule runs_deletes) (use del SyncAsyncP in \<open>simp_all add: sync_deletes_filter [simplified]\<close>)
    then show ?thesis using sync_deletes_result [OF del] unfolding d Ok x sv2 by (auto simp: respond_def answer_def)
  qed (use w d assms(5) in \<open>auto simp: sap_Delete_def\<close>)
qed

lemma runs_delete:
  assumes "name_order ch = (\<lambda>ns. ns)" and "deleteKV env ch rq sv = (res, sv')" and mu: "\<not> writing (index_mu sv)" "readers (index_mu sv) = 0"
  shows "runs env ch (delete_arrived env rq sv) (Done (respond env 202 res), sv')"
proof (cases "\<exists>key ks r cr vs. map_of (Query rq) ''key'' = Some (key # ks) \<and> Get (indexTree (handler sv)) key 0 = Ok (r, cr, vs)")
  case False
  then show ?thesis using assms(2) mu
    by (auto simp: deleteKV_def delete_arrived_def answer_def split: option.splits list.splits result.splits)
next
  case True
  then obtain key ks r cr vs where k: "map_of (Query rq) ''key'' = Some (key # ks)" "Get (indexTree (handler sv)) key 0 = Ok (r, cr, vs)" by blast
  obtain dres js w1 where d: "piping_Delete (conf (handler sv)) (env_api env) ch (piping (handler sv)) r (wd sv) = (dres, js, w1)"
    by (metis prod_cases3)
  note del = runs_deleted [OF assms(1) k d refl mu(1)]
  show ?thesis
  proof (cases "\<exists>p. dres = Panic p")
    case True
    then show ?thesis using del assms(2) k d by (auto simp: deleteKV_def answer_def)
  next
    case False
    then show ?thesis using runs_trans [OF del] runs_bury [OF assms(2) k d _ mu] by (cases dres) auto
  qed
qed

lemma runs_get:
  assumes "getKV env ch rq sv = (res, sv')" and mu: "\<not> writing (index_mu sv)"
  shows "runs env ch (get_arrived env rq sv) (Done (respond env 202 res), sv')"
proof (cases "\<exists>p. get_arrived env rq sv = (Done p, sv)")
  case True
  then show ?thesis using assms(1) mu
    by (auto simp: getKV_def get_arrived_def answer_def split: option.splits list.splits result.splits)
next
  case False
  then consider r where "get_arrived env rq sv = (Reading r, sv)" | a rs where "get_arrived env rq sv = (ReadingSince a rs rs [], sv)"
    using mu by (auto simp: get_arrived_def answer_def split: option.splits list.splits result.splits)
  then show ?thesis
  proof cases
    case 1
    have "hstep env ch 0 (Reading r) sv = (Done (respond env 202 res), sv')"
      using assms(1) mu 1 by (auto simp: getKV_def get_arrived_def read_step_def answer_def split: option.splits list.splits result.splits prod.splits)
    then show ?thesis unfolding 1 by (intro runs_step) simp
  next
    case 2
    obtain vres sv1 where v: "getValuesByRevs env ch rs sv = (vres, sv1)" by force
    have "(case vres of Ok vs \<Rightarrow> since_step env ch a rs [] vs sv1 | Err e \<Rightarrow> answer env 202 (Err e) sv1 | Panic p \<Rightarrow> answer env 202 (Panic p) sv1)
        = (Done (respond env 202 res), sv')"
      using assms(1) mu 2 v by (auto simp: getKV_def get_arrived_def answer_def split: option.splits list.splits result.splits)
    then have "runs env ch (case vres of Ok vs \<Rightarrow> (ReadingSince a rs [] ([] @ vs), sv1) | Err e \<Rightarrow> answer env 202 (Err e) sv1
        | Panic p \<Rightarrow> answer env 202 (Panic p) sv1) (Done (respond env 202 res), sv')"
      by (cases vres) (simp_all add: runs_step)
    then show ?thesis unfolding 2 using runs_trans [OF runs_since [OF v]] by blast
  qed
qed


text \<open>The threads are the handlers: a thread that no other thread interrupts, and that finds the lock free, reaches its end, and the
  response and the state it leaves are those of \<^verbatim>\<open>ServeHTTP\<close> as one call.\<close>

theorem thread_alone_is_ServeHTTP:
  assumes "name_order ch = (\<lambda>ns. ns)" and "tree_ok (tree (indexTree (handler sv)))"
    and "ServeHTTP env ch rq sv = (res, sv')" and mu: "\<not> writing (index_mu sv)" "readers (index_mu sv) = 0"
  shows "\<exists>n. (alone env ch ^^ n) (Arrived rq, sv) = (Done res, sv')"
proof -
  have create: "runs env ch (create_arrived env rq sv) (Done (respond env 201 r), s)" if c: "createKV env ch rq sv = (r, s)" for r s
    using c runs_create [OF assms(1,2) mu]
    by (auto simp: createKV_def create_arrived_def Let_def answer_def split: if_splits result.splits)
  let ?get = "getKV env ch rq sv" and ?create = "createKV env ch rq sv" and ?delete = "deleteKV env ch rq sv"
  have "runs env ch (hstep env ch 0 (Arrived rq) sv) (Done res, sv')"
  proof (cases "Path rq = ''/kv'' \<and> Method rq \<in> {''GET'', ''POST'', ''PUT'', ''DELETE''}")
    case True
    define code x where "code = (if Method rq \<in> {''GET'', ''DELETE''} then 202 else 201 :: int)"
      and "x = (if Method rq = ''GET'' then ?get else if Method rq = ''DELETE'' then ?delete else ?create)"
    obtain r s where x: "x = (r, s)" by force
    have "ServeHTTP env ch rq sv = (respond env code r, s)"
      using True x by (auto simp: ServeHTTP_def x_def code_def respond_def split: result.splits)
    moreover have "runs env ch (hstep env ch 0 (Arrived rq) sv) (Done (respond env code r), s)"
      using True x runs_get [OF _ mu(1), of env ch rq r s] runs_delete [OF assms(1) _ mu, of env rq r s] create [of r s]
      by (auto simp: x_def code_def)
    ultimately show ?thesis using assms(3) by simp
  next
    case False
    then show ?thesis using assms(3) by (auto simp: ServeHTTP_def answer_def respond_def)
  qed
  then show ?thesis using runs_step unfolding runs_def [symmetric] by blast
qed

definition plain_choices :: choices where
  "plain_choices = \<lparr>read_idx = 0, db_order = (\<lambda>ds. ds), name_order = (\<lambda>ns. ns)\<rparr>"

theorem thread_alone_is_ServeHTTP_witness:
  "\<exists>n msg sv. (alone mem_env plain_choices ^^ n) (Arrived (request_of (SPut ''k'' ''v'')), demo_server) = (Done (Ok (Response 201 msg)), sv)"
proof -
  have "case fst (ServeHTTP mem_env plain_choices (request_of (SPut ''k'' ''v'')) demo_server) of Ok (Response c msg) \<Rightarrow> c = 201 | _ \<Rightarrow> False"
    by code_simp
  then obtain msg sv where "ServeHTTP mem_env plain_choices (request_of (SPut ''k'' ''v'')) demo_server = (Ok (Response 201 msg), sv)"
    by (auto split: result.splits response.splits prod.splits simp: fst_def)
  moreover have "tree_ok (tree (indexTree (handler demo_server)))" "\<not> writing (index_mu demo_server)" "readers (index_mu demo_server) = 0" by (simp_all add: demo_server_def NewTreeIndex_def tree_ok_def)
  ultimately show ?thesis
    using thread_alone_is_ServeHTTP [of plain_choices demo_server mem_env] by (simp add: plain_choices_def) blast
qed

end
