(* ===== verification/Concurrent.thy ===== *)
theory Concurrent
  imports Threads
begin

text \<open>
  The invariant of overlapping requests: what is known of each thread by its position, of the
  revisions in the index, of the values in the stores and of the goroutines, as long as no two threads draw the same
  revision. Each step of a thread keeps what is known of the others.
\<close>

section \<open>A key that is only written\<close>

text \<open>Without deletes a key index has one generation. Revisions may arrive late.\<close>

definition ki_single :: "keyIndex \<Rightarrow> bool" where
  "ki_single ki \<longleftrightarrow> (\<exists>g. generations ki = [g] \<and> revs g \<noteq> [] \<and> sorted (map rev_key (revs g)) \<and> last (revs g) = modified ki)"

lemma put_locate_greater: "put_locate r rs (Suc n) = Suc n \<Longrightarrow> GreaterThan r (rs ! n)"
  using put_locate_le [of r rs n] by (auto split: if_splits)

lemma last_put_revs:
  assumes "rs = [] \<longrightarrow> GreaterThan r m" and "rs \<noteq> [] \<longrightarrow> last rs = m"
  shows "last (put_revs r m rs) = (if GreaterThan r m then r else m)"
proof (cases "GreaterThan r m")
  case False
  with assms have ne: "rs \<noteq> []" by blast
  then obtain n where n: "length rs = Suc n" by (cases rs) auto
  have "put_locate r rs (length rs) \<noteq> length rs"
    using put_locate_greater [of r rs n] False assms(2) ne n by (auto simp: last_conv_nth)
  then have "put_locate r rs (length rs) < length rs" using put_locate_le [of r rs "length rs"] by simp
  then show ?thesis using False assms(2) ne by (simp add: put_revs_stale Let_def)
qed (simp add: put_revs_newer)

lemma sorted_last_ge_map: "sorted (map f xs) \<Longrightarrow> x \<in> set xs \<Longrightarrow> f x \<le> f (last xs)"
  by (induction xs) auto

lemma put_single:
  assumes "ki_single ki \<or> (generations ki = [] \<and> modified ki = zeroRevision)" and "0 < sint (main r)"
    and "put ki (main r) (sub r) (nodes r) c = (ki', c')"
  shows "ki_single ki'" and "set (all_revs ki') = insert r (set (all_revs ki))"
proof -
  have r: "\<lparr>main = main r, sub = sub r, nodes = nodes r\<rparr> = r" by simp
  obtain g where g: "ki_single ki \<longrightarrow> generations ki = [g]" "\<not> ki_single ki \<longrightarrow> g = emptyGeneration"
      "sorted (map rev_key (revs g))" "revs g \<noteq> [] \<longrightarrow> last (revs g) = modified ki" "revs g = [] \<longrightarrow> GreaterThan r (modified ki)"
  proof (cases "ki_single ki")
    case False
    then have "GreaterThan r (modified ki)" using assms(1,2) by (simp add: zeroRevision_def GreaterThan_def)
    then show thesis using that [of emptyGeneration] False by (simp add: emptyGeneration_def)
  qed (use that in \<open>auto simp: ki_single_def\<close>)
  have p: "put ki (main r) (sub r) (nodes r) c = put (ki\<lparr>generations := [g]\<rparr>) (main r) (sub r) (nodes r) c"
    using assms(1) g(1,2) put_Nil [of ki] by (cases "ki_single ki"; cases ki) auto
  have le: "\<forall>x \<in> set (revs g). rev_key x \<le> rev_key (modified ki)"
    using sorted_last_ge_map [OF g(3)] g(4) by fastforce
  obtain v cr where ki': "generations ki' = [\<lparr>ver = v, created = cr, revs = put_revs r (modified ki) (revs g)\<rparr>]"
      "modified ki' = (if GreaterThan r (modified ki) then r else modified ki)"
    using assms(3) unfolding p by (auto simp: put_eq [of _ "[]" g] Let_def r)
  show "ki_single ki'"
    using ki' sorted_put_revs [OF g(3) le, of r] last_put_revs [OF g(5,4)] by (auto simp: ki_single_def)
  show "set (all_revs ki') = insert r (set (all_revs ki))"
    using ki'(1) g(1,2) assms(1) by (cases "ki_single ki") (auto simp: all_revs_def emptyGeneration_def)
qed

lemma get_single:
  assumes "ki_single ki"
  shows "\<exists>cr v. get ki (main (modified ki)) = Ok (modified ki, cr, v)" and "modified ki \<in> set (all_revs ki)"
    and "\<forall>r \<in> set (all_revs ki). sint (main r) \<le> sint (main (modified ki))"
proof -
  obtain g where g: "generations ki = [g]" "revs g \<noteq> []" "sorted (map rev_key (revs g))" "last (revs g) = modified ki"
    using assms by (auto simp: ki_single_def)
  have le: "sint (main r) \<le> sint (main (modified ki))" if "r \<in> set (revs g)" for r
    using sorted_last_ge_map [OF g(3) that] g(4) by (auto simp: rev_key_def less_eq_prod_def)
  then show "\<forall>r \<in> set (all_revs ki). sint (main r) \<le> sint (main (modified ki))" using g(1) by (simp add: all_revs_def)
  show "modified ki \<in> set (all_revs ki)" using g last_in_set [OF g(2)] by (simp add: all_revs_def)
  obtain n where n: "length (revs g) = Suc n" using g(2) by (cases "revs g") auto
  then have "revs g ! n = modified ki" using g(2,4) by (simp add: last_conv_nth)
  moreover have "sint (main (hd (revs g))) \<le> sint (main (modified ki))" using le hd_in_set [OF g(2)] by blast
  ultimately show "\<exists>cr v. get ki (main (modified ki)) = Ok (modified ki, cr, v)"
    using g(1,2) n by (simp add: get_def ki_isEmpty_def gen_isEmpty_def findGeneration_def walk_def Let_def)
qed

section \<open>A key that is written and deleted\<close>

text \<open>Of the revisions of a key, those of puts name their stores and those of tombstones do not. The last generation
  holds puts only, and a read at the latest revision finds one of them or nothing.\<close>

definition put_set :: "keyIndex \<Rightarrow> Revision set" where
  "put_set ki = {r \<in> set (all_revs ki). nodes r \<noteq> []}"

definition ki_puts :: "keyIndex \<Rightarrow> bool" where
  "ki_puts ki \<longleftrightarrow> (\<forall>r \<in> set (revs (last (generations ki))). nodes r \<noteq> []) \<and> put_set ki \<noteq> {} \<and>
     (\<forall>r \<in> set (all_revs ki). main r \<noteq> 0)"

lemma put_all_revs:
  assumes "generations ki = [] \<or> ki_ok ki" and "put ki m s ns c = (ki', c')"
  shows "set (all_revs ki') = insert \<lparr>main = m, sub = s, nodes = ns\<rparr> (set (all_revs ki))"
    and "set (revs (last (generations ki'))) = insert \<lparr>main = m, sub = s, nodes = ns\<rparr>
      (if generations ki = [] then {} else set (revs (last (generations ki))))"
proof -
  obtain gs g where g: "put ki m s ns c = put (ki\<lparr>generations := gs @ [g]\<rparr>) m s ns c"
    "generations ki = [] \<longrightarrow> gs = [] \<and> g = emptyGeneration" "generations ki \<noteq> [] \<longrightarrow> generations ki = gs @ [g]"
  proof (cases "generations ki = []")
    case True
    then show thesis using that [of "[]" emptyGeneration] put_Nil [OF True] by simp
  next
    case False
    then obtain gs g where g: "generations ki = gs @ [g]" by (cases "generations ki" rule: rev_cases) auto
    then have e: "ki\<lparr>generations := gs @ [g]\<rparr> = ki" by (cases ki) simp
    show thesis by (rule that [of gs g]) (simp_all only: e g, use g in auto)
  qed
  have e: "set (all_revs ki) = set (concat (map revs (gs @ [g])))" "generations ki = [] \<longrightarrow> revs g = []"
    using g(2,3) by (cases "generations ki = []"; simp add: all_revs_def emptyGeneration_def)+
  show "set (all_revs ki') = insert \<lparr>main = m, sub = s, nodes = ns\<rparr> (set (all_revs ki))"
    using assms(2) e(1) unfolding g(1) put_eq [of "ki\<lparr>generations := gs @ [g]\<rparr>" gs g, simplified]
    by (auto simp: Let_def all_revs_def)
  show "set (revs (last (generations ki'))) = insert \<lparr>main = m, sub = s, nodes = ns\<rparr>
      (if generations ki = [] then {} else set (revs (last (generations ki))))"
    using assms(2) e(2) g(3) unfolding g(1) put_eq [of "ki\<lparr>generations := gs @ [g]\<rparr>" gs g, simplified]
    by (auto simp: Let_def)
qed

lemma put_puts:
  assumes "generations ki = [] \<or> ki_ok ki \<and> ki_puts ki" and "nodes r \<noteq> []" and "main r \<noteq> 0"
    and "put ki (main r) (sub r) (nodes r) c = (ki', c')"
  shows "ki_puts ki'" and "put_set ki' = insert r (put_set ki)"
proof -
  have r: "\<lparr>main = main r, sub = sub r, nodes = nodes r\<rparr> = r" by simp
  have "generations ki = [] \<or> ki_ok ki" using assms(1) by blast
  note p = put_all_revs [OF this assms(4), unfolded r]
  show e: "put_set ki' = insert r (put_set ki)" using p(1) assms(2) by (auto simp: put_set_def)
  have "all_revs ki = []" if "generations ki = []" using that by (simp add: all_revs_def)
  then show "ki_puts ki'" using p assms(1-3) unfolding ki_puts_def e by (auto split: if_splits)
qed

lemma tombstone_puts:
  assumes "ki_live ki" and "ki_puts ki" and "m \<noteq> 0" and "tombstone ki m s c = (res, ki', c')"
  shows "ki_puts ki'" and "put_set ki' = put_set ki"
proof -
  have ok: "generations ki = [] \<or> ki_ok ki" using assms(1) by (simp add: ki_live_def)
  consider "ki' = ki" | q c1 where "put ki m s [] c = (q, c1)" "ki' = q\<lparr>generations := generations q @ [emptyGeneration]\<rparr>"
    using assms(4) by (auto simp: tombstone_def split: if_splits prod.splits)
  then have "ki_puts ki' \<and> put_set ki' = put_set ki"
  proof cases
    case (2 q c1)
    have "set (all_revs ki') = set (all_revs q)" "revs (last (generations ki')) = []"
      using 2(2) by (simp_all add: all_revs_def emptyGeneration_def)
    then show ?thesis using put_all_revs(1) [OF ok 2(1)] assms(2,3) by (auto simp: ki_puts_def put_set_def)
  qed (use assms(2) in simp)
  then show "ki_puts ki'" "put_set ki' = put_set ki" by simp_all
qed

lemma get_puts:
  assumes "ki_live ki" and "ki_puts ki" and "get ki (main (modified ki)) = Ok (r, cr, v)"
  shows "r \<in> put_set ki"
proof -
  have ok: "ki_ok ki" using assms(1) by (simp add: ki_live_def)
  obtain gs g where g: "generations ki = gs @ [g]" by (rule ki_ok_snoc [OF ok])
  let ?m = "main (modified ki)"
  have older: "findGeneration_loop (gs @ [g]) (length gs) ?m = None"
  proof (cases gs rule: rev_cases)
    case (snoc hs h)
    then have "revs h \<noteq> []" "gen_ok (modified ki) h" using ok g by (auto simp: ki_ok_def butlast_append)
    then have "rev_key (last (revs h)) \<le> rev_key (modified ki)" by (simp add: gen_ok_def)
    then have "sint (main (last (revs h))) \<le> sint ?m" by (auto simp: rev_key_def less_eq_prod_def)
    then show ?thesis using \<open>revs h \<noteq> []\<close> snoc by (simp add: nth_append)
  qed simp
  have "findGeneration ki ?m \<noteq> None" using assms(3) by (auto simp: get_def split: if_splits option.splits)
  then have "findGeneration ki ?m = Some (length gs)"
    unfolding findGeneration_def g using older by (auto simp: nth_append Let_def split: if_splits)
  then obtain n where "walk_loop (\<lambda>r. sint ?m < sint (main r)) (revs g) (length (revs g)) = Some n" "r = revs g ! n"
    using assms(3) g by (auto simp: get_def walk_def Let_def nth_append split: if_splits option.splits)
  moreover have "walk_loop f rs i = Some n \<Longrightarrow> n < i" for f rs i n
    by (induction f rs i rule: walk_loop.induct) (auto split: if_splits)
  ultimately have "r \<in> set (revs g)" by (metis nth_mem)
  then show ?thesis using assms(2) g by (auto simp: put_set_def ki_puts_def all_revs_def)
qed

text \<open>The index under the requests \<open>ops\<close>, as the set of the revisions that were put for each key. A key that no request
  deletes has one generation.\<close>

definition ti_fit :: "svc_op list \<Rightarrow> treeIndex \<Rightarrow> bool" where
  "ti_fit ops ti \<longleftrightarrow> ti_ok ti \<and> (\<forall>ki \<in> set (tree ti). ki_puts ki \<and> (SDelete (ki_key ki) \<notin> set ops \<longrightarrow> ki_single ki))"

definition ti_revs :: "treeIndex \<Rightarrow> string \<Rightarrow> Revision set" where
  "ti_revs ti k = (case lookup ti k of None \<Rightarrow> {} | Some ki \<Rightarrow> put_set ki)"

lemma lookup_fit:
  assumes "ti_fit ops ti" and "lookup ti k = Some ki"
  shows "ki_live ki" and "ki_puts ki" and "SDelete k \<notin> set ops \<Longrightarrow> ki_single ki"
  using assms lookup_Some [of ti k ki] by (auto simp: ti_fit_def ti_ok_def)

lemma ti_revs_empty: "ti_fit ops ti \<Longrightarrow> ti_revs ti k = {} \<longleftrightarrow> lookup ti k = None"
  using lookup_fit(2) [of ops ti k] by (auto simp: ti_revs_def ki_puts_def split: option.splits)

lemma stored_revs: "stored ti q ti' \<Longrightarrow> ti_revs ti' = (ti_revs ti)(ki_key q := put_set q)"
  by (intro ext) (simp add: stored_def ti_revs_def)

lemma Put_fit:
  assumes "ti_fit ops ti" and "0 < sint (main r)" and "nodes r \<noteq> []" and "Put ti k r c = (ti', c')"
  shows "ti_fit ops ti'" and "ti_revs ti' = (ti_revs ti)(k := insert r (ti_revs ti k))"
proof -
  have ok: "ti_ok ti" "tree_ok (tree ti)" using assms(1) by (simp_all add: ti_fit_def ti_ok_def)
  let ?ki = "case lookup ti k of None \<Rightarrow> newKeyIndex k | Some ki \<Rightarrow> ki"
  obtain q where q: "put ?ki (main r) (sub r) (nodes r) c = (q, c')" and s: "stored ti q ti'" and k: "ki_key q = k"
    by (rule Put_stored [OF ok(2) assms(4)])
  have m: "main r \<noteq> 0" using assms(2) by auto
  have "generations ?ki = [] \<or> ki_ok ?ki \<and> ki_puts ?ki"
    using lookup_fit [OF assms(1), of k] by (simp add: ki_live_def split: option.splits)
  note p = put_puts [OF this assms(3) m q]
  have "ki_single q" if "SDelete k \<notin> set ops"
    by (rule put_single [OF _ assms(2) q])
      (use lookup_fit(3) [OF assms(1) _ that] in \<open>simp add: newKeyIndex_def split: option.splits\<close>)
  then show "ti_fit ops ti'"
    using Put_ti_ok [OF ok(1) assms(4)] s assms(1) p(1) k by (auto simp: stored_def ti_fit_def)
  have "put_set ?ki = ti_revs ti k" by (simp add: ti_revs_def put_set_def all_revs_def split: option.splits)
  then show "ti_revs ti' = (ti_revs ti)(k := insert r (ti_revs ti k))" using stored_revs [OF s] k p(2) by simp
qed

lemma Tombstone_fit:
  assumes "ti_fit ops ti" and "SDelete k \<in> set ops" and "Tombstone ti k r c = (res, ti', c')" and "main r \<noteq> 0"
  shows "ti_fit ops ti'" and "ti_revs ti' = ti_revs ti" and "res \<noteq> Panic p"
proof -
  have ok: "ti_ok ti" "tree_ok (tree ti)" using assms(1) by (simp_all add: ti_fit_def ti_ok_def)
  show "res \<noteq> Panic p" using Tombstone_ti_ok [OF ok(1) assms(3)] by blast
  have "ti_fit ops ti' \<and> ti_revs ti' = ti_revs ti"
  proof (cases "lookup ti k")
    case None
    then show ?thesis using assms by (auto simp: Tombstone_def)
  next
    case (Some ki)
    obtain q where q: "tombstone ki (main r) (sub r) c = (res, q, c')" and s: "stored ti q ti'" and k: "ki_key q = k"
      by (rule Tombstone_stored [OF ok(2) Some assms(3)])
    note p = tombstone_puts [OF lookup_fit(1,2) [OF assms(1) Some] assms(4) q]
    have "put_set q = ti_revs ti (ki_key q)" using p(2) k Some by (simp add: ti_revs_def)
    then have "ti_revs ti' = ti_revs ti" using stored_revs [OF s] by simp
    moreover have "ti_fit ops ti'" using Tombstone_ti_ok [OF ok(1) assms(3)] s assms(1,2) k p(1) by (auto simp: stored_def ti_fit_def)
    ultimately show ?thesis by simp
  qed
  then show "ti_fit ops ti'" "ti_revs ti' = ti_revs ti" by simp_all
qed

lemma RangeSince_fit:
  assumes "ti_fit ops ti"
  shows "RangeSince srt ti k None rv \<noteq> Panic p"
proof (cases "lookup ti k")
  case (Some ki)
  note f = lookup_fit(1,2) [OF assms Some]
  then have "since ki rv \<noteq> Panic p" by (intro since_no_panic) (auto simp: ki_puts_def)
  then show ?thesis using Some by (simp add: RangeSince_def)
qed (simp add: RangeSince_def)

lemma Get_fit:
  assumes "ti_fit ops ti"
  obtains "Get ti k 0 = Err ErrRevisionNotFound" and "SDelete k \<notin> set ops \<Longrightarrow> ti_revs ti k = {}"
  | r cr v where "Get ti k 0 = Ok (r, cr, v)" and "r \<in> ti_revs ti k"
      and "SDelete k \<notin> set ops \<Longrightarrow> \<forall>q \<in> ti_revs ti k. sint (main q) \<le> sint (main r)"
proof (cases "lookup ti k")
  case None
  then show thesis using that(1) by (simp add: Get_def ti_revs_def)
next
  case (Some ki)
  note f = lookup_fit [OF assms Some]
  have g: "Get ti k 0 = get ki (main (modified ki))" using Some by (simp add: Get_def)
  show thesis
  proof (cases "get ki (main (modified ki))")
    case (Ok x)
    obtain r cr v where x: "x = (r, cr, v)" by (metis prod_cases3)
    have "\<forall>q \<in> ti_revs ti k. sint (main q) \<le> sint (main r)" if "SDelete k \<notin> set ops"
      using get_single(1,3) [OF f(3) [OF that]] Ok x Some by (auto simp: ti_revs_def put_set_def)
    then show thesis using that(2) [of r cr v] g Ok x get_puts [OF f(1,2)] Some by (simp add: ti_revs_def)
  next
    case (Err e)
    then have "e = ErrRevisionNotFound" by (auto simp: get_def Let_def split: if_splits option.splits)
    moreover have "SDelete k \<in> set ops" using get_single(1) [OF f(3)] Err by force
    ultimately show thesis using that(1) g Err by simp
  next
    case (Panic p)
    then show thesis using get_no_panic [OF f(1)] by blast
  qed
qed

section \<open>The invariant of the threads\<close>

fun writes :: "svc_op \<Rightarrow> (string \<times> string) option" where
  "writes (SPut k v) = Some (k, v)"
| "writes (SUpdate k v a) = Some (k, v)"
| "writes _ = None"

fun params :: "svc_op \<Rightarrow> string \<times> int64" where
  "params (SUpdate k v a) = (FormatInt (sint a), a)"
| "params _ = ([], 0)"

fun deletes :: "svc_op \<Rightarrow> bool" where
  "deletes (SDelete k) = True"
| "deletes _ = False"

definition create_ok :: "svc_op \<Rightarrow> create \<Rightarrow> bool" where
  "create_ok opn cr \<longleftrightarrow> writes opn = Some (c_key cr, c_value cr) \<and> params opn = (c_rev cr, c_assumed cr)"

text \<open>The revision \<open>r\<close> was drawn by thread \<open>t\<close>.\<close>

definition drawn :: "(nat \<times> uint64) list \<Rightarrow> nat \<Rightarrow> Revision \<Rightarrow> bool" where
  "drawn ds t r \<longleftrightarrow> (t, main r) \<in> set ds \<and> sub r = 0"

abbreviation saved_answer :: "string \<Rightarrow> string \<Rightarrow> Revision \<Rightarrow> response result" where
  "saved_answer k v r \<equiv> Ok (Response 201 (saved_text k v (sint (main r)) (Join (nodes r) '','')))"

text \<open>Every synchronous replica of \<open>r\<close> but those of \<open>names\<close> holds the value.\<close>

definition written :: "string set \<Rightarrow> (string \<Rightarrow> string \<Rightarrow> string option) \<Rightarrow> Revision \<Rightarrow> string \<Rightarrow> string list \<Rightarrow> bool" where
  "written N con r v names \<longleftrightarrow> (\<exists>sns ans. nodes r = [Join sns '','', Join ans '',''] \<and> names_ok sns \<and> names_ok ans \<and> sns \<noteq> [] \<and>
     set sns \<union> set ans \<subseteq> N \<and> set names \<subseteq> set sns \<and> (\<forall>nm \<in> set sns - set names. con nm (Revision_String r) = Some v))"

text \<open>The same for a revision in the index, whose value a delete may have removed.\<close>

definition held :: "string set \<Rightarrow> svc_op list \<Rightarrow> (string \<Rightarrow> string \<Rightarrow> string option) \<Rightarrow> string \<Rightarrow> Revision \<Rightarrow> string \<Rightarrow> bool" where
  "held N ops con k r v \<longleftrightarrow> (\<exists>sns ans. nodes r = [Join sns '','', Join ans '',''] \<and> names_ok sns \<and> names_ok ans \<and> sns \<noteq> [] \<and>
     set sns \<union> set ans \<subseteq> N \<and>
     (\<forall>nm \<in> set sns. con nm (Revision_String r) = Some v \<or> con nm (Revision_String r) = None \<and> SDelete k \<in> set ops))"

abbreviation removed_answer :: "string \<Rightarrow> Revision \<Rightarrow> response result" where
  "removed_answer k r \<equiv> Ok (Response 202 (''The key '' @ fmt_slice [k] @ '' has been removed at '' @ fmt_slice (nodes r) @ newline))"

text \<open>The answers of a get whose value is gone when it reaches the store.\<close>

definition missing_answers :: "int \<Rightarrow> response result set" where
  "missing_answers n = {Ok (Response 500 (''key not found'' @ newline)), Ok (Response 202 (value_text ''%!s(<nil>)'' n))}"

text \<open>What is known of a thread, given the operations \<open>ops\<close> of all threads, the contents \<open>con\<close> of the stores,
  the index and the draws.\<close>

fun thread_ok :: "string set \<Rightarrow> svc_op list \<Rightarrow> (string \<Rightarrow> string \<Rightarrow> string option) \<Rightarrow> (string \<Rightarrow> Revision set)
    \<Rightarrow> (nat \<times> uint64) list \<Rightarrow> nat \<Rightarrow> pc \<Rightarrow> bool" where
  "thread_ok N ops con R ds t (Arrived rq) \<longleftrightarrow> rq = request_of (ops ! t) \<and> t \<notin> fst ` set ds"
| "thread_ok N ops con R ds t (Drawing rq rp a) \<longleftrightarrow> rq = request_of (ops ! t) \<and> t \<notin> fst ` set ds \<and>
     writes (ops ! t) \<noteq> None \<and> params (ops ! t) = (rp, a)"
| "thread_ok N ops con R ds t (Writing cr r names) \<longleftrightarrow> create_ok (ops ! t) cr \<and> drawn ds t r \<and> written N con r (c_value cr) names"
| "thread_ok N ops con R ds t (Updating cr r) \<longleftrightarrow> create_ok (ops ! t) cr \<and> drawn ds t r \<and> written N con r (c_value cr) [] \<and> R (c_key cr) \<noteq> {}"
| "thread_ok N ops con R ds t (Reading r) \<longleftrightarrow> (\<exists>k. ops ! t = SGet k \<and> r \<in> R k)"
| "thread_ok N ops con R ds t (ReadingSince a rs left vs) \<longleftrightarrow>
     (\<exists>k b. ops ! t = SGetSince k b \<and> (\<forall>r \<in> set left. nodes r = [] \<or> r \<in> R k))"
| "thread_ok N ops con R ds t (Deleting keys r names dres) \<longleftrightarrow> t \<notin> fst ` set ds \<and> set names \<subseteq> N \<and> dres = Ok () \<and>
     (\<exists>k. ops ! t = SDelete k \<and> keys = [k] \<and> r \<in> R k)"
| "thread_ok N ops con R ds t (Removing keys r dres) \<longleftrightarrow> t \<notin> fst ` set ds \<and> dres = Ok () \<and> (\<exists>k. ops ! t = SDelete k \<and> keys = [k] \<and> r \<in> R k)"
| "thread_ok N ops con R ds t (Burying keys r dres rv) \<longleftrightarrow> dres = Ok () \<and> (t, rv) \<in> set ds \<and> (\<exists>k. ops ! t = SDelete k \<and> keys = [k] \<and> r \<in> R k)"
| "thread_ok N ops con R ds t (Done res) \<longleftrightarrow> (\<forall>p. res \<noteq> Panic p) \<and>
     (\<forall>k v. writes (ops ! t) = Some (k, v) \<longrightarrow> res \<in> {Ok not_latest, Ok not_found} \<or>
        (\<exists>r \<in> R k. drawn ds t r \<and> res = saved_answer k v r)) \<and>
     (\<forall>k. ops ! t = SGet k \<longrightarrow> res = Ok not_found \<or>
        (\<exists>r \<in> R k. \<exists>q v. q < length ops \<and> writes (ops ! q) = Some (k, v) \<and> drawn ds q r \<and>
          (res = Ok (Response 202 (value_text v (sint (main r)))) \<or> SDelete k \<in> set ops \<and> res \<in> missing_answers (sint (main r))))) \<and>
     (\<forall>k. ops ! t = SDelete k \<longrightarrow> res = Ok not_found \<or> (\<exists>r \<in> R k. res = removed_answer k r))"
| "thread_ok N ops con R ds t _ \<longleftrightarrow> False"

text \<open>A revision in the index: its thread is done and its value is where a read looks for it, unless it was deleted.\<close>

definition indexed :: "string set \<Rightarrow> svc_op list \<Rightarrow> (string \<Rightarrow> string \<Rightarrow> string option) \<Rightarrow> pc list
    \<Rightarrow> (nat \<times> uint64) list \<Rightarrow> string \<Rightarrow> Revision \<Rightarrow> bool" where
  "indexed N ops con ps ds k r \<longleftrightarrow> (\<exists>t v. t < length ops \<and> writes (ops ! t) = Some (k, v) \<and> drawn ds t r \<and>
     held N ops con k r v \<and> ps ! t = Done (saved_answer k v r))"

definition draws_ok :: "svc_op list \<Rightarrow> uint64 \<Rightarrow> (nat \<times> uint64) list \<Rightarrow> bool" where
  "draws_ok ops c ds \<longleftrightarrow> distinct (map fst ds) \<and> distinct (map snd ds) \<and> uint c < 2 ^ 63 \<and>
     (\<forall>(t, n) \<in> set ds. t < length ops \<and> (writes (ops ! t) \<noteq> None \<or> deletes (ops ! t)) \<and> 0 < uint n \<and> uint n \<le> uint c)"

text \<open>The revisions that a request may delete; and the jobs of puts and deletes.\<close>

definition removable :: "svc_op list \<Rightarrow> (string \<Rightarrow> Revision set) \<Rightarrow> uint64 \<Rightarrow> bool" where
  "removable ops R n \<longleftrightarrow> (\<exists>k. SDelete k \<in> set ops \<and> (\<exists>r \<in> R k. main r = n))"

definition conc_job :: "string set \<Rightarrow> svc_op list \<Rightarrow> (string \<Rightarrow> Revision set) \<Rightarrow> (nat \<times> uint64) list \<Rightarrow> job \<Rightarrow> bool" where
  "conc_job N ops R ds j \<longleftrightarrow>
     (\<exists>t n k v nm. j = AsyncPut nm (FormatInt (sint n)) v \<and> nm \<in> N \<and> (t, n) \<in> set ds \<and> writes (ops ! t) = Some (k, v)) \<or>
     (\<exists>n nm. j = AsyncDelete nm (FormatInt (sint n)) \<and> nm \<in> N \<and> removable ops R n)"

lemma conc_job_mono: "conc_job N ops R ds j \<Longrightarrow> \<forall>k. R k \<subseteq> R' k \<Longrightarrow> conc_job N ops R' (ds @ new) j"
  by (fastforce simp: conc_job_def removable_def)

definition conc_inv :: "'s env \<Rightarrow> string set \<Rightarrow> ('s world \<Rightarrow> string \<Rightarrow> string \<Rightarrow> string option)
    \<Rightarrow> (string \<Rightarrow> 's world \<Rightarrow> bool) \<Rightarrow> svc_op list \<Rightarrow> 's conc \<Rightarrow> bool" where
  "conc_inv env N content ok ops s \<longleftrightarrow>
     (let sv = shared s; ti = indexTree (handler sv); con = content (wd sv) in
      service_ok env N content ok (handler sv) \<and> ti_fit ops ti \<and> (\<forall>n \<in> N. ok n (wd sv)) \<and> \<not> writing (index_mu sv) \<and>
      draws_ok ops (counter sv) (draws s) \<and> length (threads s) = length ops \<and>
      (0 < uint (counter sv) \<or> (\<forall>p \<in> set (threads s). \<not> loads p)) \<and>
      (\<forall>t < length ops. thread_ok N ops con (ti_revs ti) (draws s) t (threads s ! t)) \<and>
      (\<forall>k. \<forall>r \<in> ti_revs ti k. indexed N ops con (threads s) (draws s) k r) \<and>
      (\<forall>j \<in> set (pending sv). conc_job N ops (ti_revs ti) (draws s) j))"

lemma conc_invD:
  assumes "conc_inv env N content ok ops s"
  shows "service_ok env N content ok (handler (shared s))" and "ti_fit ops (indexTree (handler (shared s)))"
    and "n \<in> N \<Longrightarrow> ok n (wd (shared s))" and "draws_ok ops (counter (shared s)) (draws s)" and "length (threads s) = length ops"
    and "t < length ops \<Longrightarrow> thread_ok N ops (content (wd (shared s))) (ti_revs (indexTree (handler (shared s)))) (draws s) t (threads s ! t)"
    and "r \<in> ti_revs (indexTree (handler (shared s))) k \<Longrightarrow> indexed N ops (content (wd (shared s))) (threads s) (draws s) k r"
    and "j \<in> set (pending (shared s)) \<Longrightarrow> conc_job N ops (ti_revs (indexTree (handler (shared s)))) (draws s) j"
    and "p \<in> set (threads s) \<Longrightarrow> loads p \<Longrightarrow> 0 < uint (counter (shared s))" and "\<not> writing (index_mu (shared s))"
  using assms by (auto simp: conc_inv_def Let_def)

subsection \<open>What a step of one thread leaves to the others\<close>

lemma sint_uint63: "uint (c :: uint64) < 2 ^ 63 \<Longrightarrow> sint c = uint c"
  using sint64_of_int [of "uint c"] uint_ge_0 [of c] by (simp only: word_of_int_uint)

text \<open>A change of the stores: values of drawn revisions are written, and those of the revisions \<open>X\<close> removed.\<close>

definition keeps :: "svc_op list \<Rightarrow> (nat \<times> uint64) list \<Rightarrow> (uint64 \<Rightarrow> bool) \<Rightarrow> (string \<Rightarrow> string \<Rightarrow> string option)
    \<Rightarrow> (string \<Rightarrow> string \<Rightarrow> string option) \<Rightarrow> bool" where
  "keeps ops ds X con con' \<longleftrightarrow> (\<forall>t n k v nm. (t, n) \<in> set ds \<and> writes (ops ! t) = Some (k, v) \<longrightarrow>
     (con nm (FormatInt (sint n)) = Some v \<longrightarrow> con' nm (FormatInt (sint n)) = Some v \<or> X n \<and> con' nm (FormatInt (sint n)) = None) \<and>
     (con nm (FormatInt (sint n)) = None \<longrightarrow> con' nm (FormatInt (sint n)) \<in> {None, Some v}))"

lemma keeps_refl [simp]: "keeps ops ds X con con"
  by (simp add: keeps_def)

lemma keepsD:
  assumes "keeps ops ds X con con'" and "drawn ds t r" and "writes (ops ! t) = Some (k, v)"
  shows "con nm (Revision_String r) = Some v \<Longrightarrow> con' nm (Revision_String r) = Some v \<or> X (main r) \<and> con' nm (Revision_String r) = None"
    and "con nm (Revision_String r) = None \<Longrightarrow> con' nm (Revision_String r) = None \<or> con' nm (Revision_String r) = Some v"
  using assms unfolding keeps_def drawn_def Revision_String_def by blast+

lemma written_keeps:
  assumes "keeps ops ds X con con'" and "drawn ds t r" and "writes (ops ! t) = Some (k, v)" and "\<not> X (main r)" and "written N con r v names"
  shows "written N con' r v names"
  using assms(4,5) keepsD(1) [OF assms(1-3)] unfolding written_def by metis

lemma held_keeps:
  assumes "keeps ops ds X con con'" and "drawn ds t r" and "writes (ops ! t) = Some (k, v)" and "X (main r) \<longrightarrow> SDelete k \<in> set ops"
    and "held N ops con k r v"
  shows "held N ops con' k r v"
  using assms(4,5) keepsD [OF assms(1-3)] unfolding held_def by metis

lemma written_held: "written N con r v [] \<Longrightarrow> held N ops con k r v"
  unfolding written_def held_def by (metis Diff_iff empty_iff empty_set)

lemma drawn_mono: "drawn ds t r \<Longrightarrow> drawn (ds @ new) t r"
  by (simp add: drawn_def)

lemma thread_ok_stable:
  assumes "thread_ok N ops con R ds t p" and "keeps ops ds X con con'" and "\<forall>k. R k \<subseteq> R' k" and "t \<notin> fst ` set new"
    and "\<And>r. drawn ds t r \<Longrightarrow> X (main r) \<Longrightarrow> \<exists>res. p = Done res"
  shows "thread_ok N ops con' R' (ds @ new) t p"
proof (cases p)
  case (Done res)
  then show ?thesis using assms(1,3) by simp (meson drawn_mono subsetD)
next
  case (Writing cr r names)
  then show ?thesis using assms(1,5) written_keeps [OF assms(2)] drawn_mono by (fastforce simp: create_ok_def)
next
  case (Updating cr r)
  then show ?thesis using assms(1,3,5) written_keeps [OF assms(2)] drawn_mono by (fastforce simp: create_ok_def)
next
  case (ReadingSince a rs left vs)
  then show ?thesis using assms(1,3) by simp (meson subsetD)
qed (use assms(1,3,4) in \<open>auto simp: subset_iff\<close>)

lemma indexed_stable:
  assumes "indexed N ops con ps ds k r" and "keeps ops ds X con con'" and "X (main r) \<longrightarrow> SDelete k \<in> set ops"
    and "\<And>u res. ps ! u = Done res \<Longrightarrow> ps' ! u = Done res"
  shows "indexed N ops con' ps' (ds @ new) k r"
  using assms(1,3,4) held_keeps [OF assms(2)] drawn_mono unfolding indexed_def by blast

lemma draws_okD:
  assumes "draws_ok ops c ds" and "(t, n) \<in> set ds"
  shows "t < length ops" and "0 < sint n" and "sint n \<le> uint c" and "sint n < 2 ^ 63" and "sint n = uint n"
  using assms sint_uint63 [of n] by (auto simp: draws_ok_def)

lemma drawn_unique:
  assumes "draws_ok ops c ds" and "(t, n) \<in> set ds" and "(u, n') \<in> set ds" and "FormatInt (sint n) = FormatInt (sint n')"
  shows "t = u" and "n = n'"
proof -
  have "sint n = sint n'"
    using FormatInt_eq_iff [of "sint n" "sint n'"] draws_okD [OF assms(1,2)] draws_okD [OF assms(1,3)] assms(4) by simp
  then show "n = n'" by simp
  moreover have "inj_on snd (set ds)" using assms(1) by (simp add: draws_ok_def distinct_map)
  ultimately show "t = u" using assms(2,3) by (metis Pair_inject inj_onD snd_conv)
qed

text \<open>A revision that may be deleted is in the index, and its thread is done.\<close>

lemma removable_done:
  assumes inv: "conc_inv env N content ok ops s" and "removable ops (ti_revs (indexTree (handler (shared s)))) (main r)"
    and "drawn (draws s) t r"
  obtains k v res where "writes (ops ! t) = Some (k, v)" and "SDelete k \<in> set ops" and "threads s ! t = Done res"
proof -
  obtain k r' where k: "SDelete k \<in> set ops" "r' \<in> ti_revs (indexTree (handler (shared s))) k" "main r' = main r"
    using assms(2) by (auto simp: removable_def)
  obtain u v res where u: "writes (ops ! u) = Some (k, v)" "drawn (draws s) u r'" "threads s ! u = Done res"
    using conc_invD(7) [OF inv k(2)] by (auto simp: indexed_def)
  then have "u = t" using drawn_unique(1) [OF conc_invD(4) [OF inv], of u "main r'" t "main r"] assms(3) k(3) by (simp add: drawn_def)
  then show thesis using that u k(1) by blast
qed

lemma removable_drawn:
  assumes "conc_inv env N content ok ops s" and "removable ops (ti_revs (indexTree (handler (shared s)))) n"
  obtains t where "(t, n) \<in> set (draws s)"
  using assms(2) conc_invD(7) [OF assms(1)] by (fastforce simp: removable_def indexed_def drawn_def)

text \<open>Every step keeps what is known of the index.\<close>

lemma indexed_kept:
  assumes inv: "conc_inv env N content ok ops s" and "r \<in> ti_revs (indexTree (handler (shared s))) k"
    and "keeps ops (draws s) (removable ops (ti_revs (indexTree (handler (shared s))))) (content (wd (shared s))) con'"
    and "\<And>u res. threads s ! u = Done res \<Longrightarrow> ps' ! u = Done res"
  shows "indexed N ops con' ps' (draws s @ new) k r"
proof (rule indexed_stable [OF conc_invD(7) [OF inv assms(2)] assms(3) _ assms(4)])
  obtain t v where t: "writes (ops ! t) = Some (k, v)" "drawn (draws s) t r" using conc_invD(7) [OF inv assms(2)] by (auto simp: indexed_def)
  then show "removable ops (ti_revs (indexTree (handler (shared s)))) (main r) \<longrightarrow> SDelete k \<in> set ops"
    using removable_done [OF inv _ t(2)] by (metis Pair_inject option.inject)
qed

text \<open>One step of thread \<open>t\<close>: what has to be shown of the new state.\<close>

lemma advance:
  assumes inv: "conc_inv env N content ok ops s" and t: "t < length ops" and p: "\<forall>res. threads s ! t \<noteq> Done res"
    and h: "handler sv' = (handler (shared s))\<lparr>indexTree := ti'\<rparr>" and ti: "ti_fit ops ti'"
    and R: "\<forall>k. ti_revs (indexTree (handler (shared s))) k \<subseteq> ti_revs ti' k"
    and new: "\<forall>k. \<forall>r \<in> ti_revs ti' k - ti_revs (indexTree (handler (shared s))) k.
      indexed N ops (content (wd sv')) ((threads s)[t := p']) (draws s @ ds) k r"
    and okN: "\<forall>n \<in> N. ok n (wd sv')" and con: "keeps ops (draws s) (removable ops (ti_revs (indexTree (handler (shared s))))) (content (wd (shared s))) (content (wd sv'))"
    and ds: "draws_ok ops (counter sv') (draws s @ ds)" "fst ` set ds \<subseteq> {t}"
    and p': "thread_ok N ops (content (wd sv')) (ti_revs ti') (draws s @ ds) t p'"
    and js: "\<forall>j \<in> set (pending sv'). conc_job N ops (ti_revs ti') (draws s @ ds) j"
    and c: "uint (counter (shared s)) \<le> uint (counter sv')" "loads p' \<longrightarrow> 0 < uint (counter sv')"
    and mu: "writing (index_mu sv') = writing (index_mu (shared s))"
  shows "conc_inv env N content ok ops (s\<lparr>shared := sv', threads := (threads s)[t := p'], draws := draws s @ ds\<rparr>)"
proof -
  have "thread_ok N ops (content (wd sv')) (ti_revs ti') (draws s @ ds) u ((threads s)[t := p'] ! u)" if u: "u < length ops" for u
  proof (cases "u = t")
    case False
    then have "u \<notin> fst ` set ds" using ds(2) by blast
    moreover have "\<exists>res. threads s ! u = Done res"
      if "drawn (draws s) u r" "removable ops (ti_revs (indexTree (handler (shared s)))) (main r)" for r
      by (rule removable_done [OF inv that(2,1)]) blast
    ultimately show ?thesis using thread_ok_stable [OF conc_invD(6) [OF inv u] con R] False by simp
  qed (use p' t conc_invD(5) [OF inv] in simp)
  moreover have "indexed N ops (content (wd sv')) ((threads s)[t := p']) (draws s @ ds) k r" if "r \<in> ti_revs ti' k" for k r
  proof (cases "r \<in> ti_revs (indexTree (handler (shared s))) k")
    case True
    have "(threads s)[t := p'] ! q = Done res" if "threads s ! q = Done res" for q res
      using p that by (cases "q = t") auto
    then show ?thesis by (rule indexed_kept [OF inv True con])
  qed (use that new in blast)
  moreover have "service_ok env N content ok (handler sv')" using conc_invD(1) [OF inv] h by (simp add: service_ok_def)
  moreover have "0 < uint (counter sv')" if "q \<in> set ((threads s)[t := p'])" "loads q" for q
  proof (cases "q = p'")
    case False
    then have "q \<in> set (threads s)" using that(1) set_update_subset_insert [of "threads s" t p'] by blast
    with conc_invD(9) [OF inv _ that(2)] c(1) show ?thesis by simp
  qed (use that(2) c(2) in simp)
  then have "0 < uint (counter sv') \<or> (\<forall>q \<in> set ((threads s)[t := p']). \<not> loads q)" by blast
  ultimately show ?thesis using conc_invD(5,10) [OF inv] h ti okN ds(1) js mu by (simp add: conc_inv_def Let_def)
qed

text \<open>A step that leaves the index and the stores as they are.\<close>

lemma advance_local:
  assumes "conc_inv env N content ok ops s" and "t < length ops" and "\<forall>res. threads s ! t \<noteq> Done res"
    and "handler sv' = handler (shared s)" and "content (wd sv') = content (wd (shared s))" and "\<forall>n \<in> N. ok n (wd sv')"
    and "draws_ok ops (counter sv') (draws s @ ds)" and "fst ` set ds \<subseteq> {t}"
    and "thread_ok N ops (content (wd (shared s))) (ti_revs (indexTree (handler (shared s)))) (draws s @ ds) t p'"
    and "\<forall>j \<in> set (pending sv'). conc_job N ops (ti_revs (indexTree (handler (shared s)))) (draws s @ ds) j"
    and "uint (counter (shared s)) \<le> uint (counter sv')" and "loads p' \<longrightarrow> 0 < uint (counter sv')"
    and "writing (index_mu sv') = writing (index_mu (shared s))"
  shows "conc_inv env N content ok ops (s\<lparr>shared := sv', threads := (threads s)[t := p'], draws := draws s @ ds\<rparr>)"
  using assms conc_invD(2) [OF assms(1)] by (intro advance [OF assms(1-3)]) simp_all

corollary advance_pc:
  assumes "conc_inv env N content ok ops s" and "t < length ops" and "\<forall>res. threads s ! t \<noteq> Done res" and "\<not> loads p'"
    and "thread_ok N ops (content (wd (shared s))) (ti_revs (indexTree (handler (shared s)))) (draws s) t p'"
  shows "conc_inv env N content ok ops (s\<lparr>shared := shared s, threads := (threads s)[t := p'], draws := draws s @ []\<rparr>)"
  by (rule advance_local [OF assms(1-3)]) (use assms(4,5) conc_invD(3,4,8) [OF assms(1)] in simp_all)


subsection \<open>The steps of a thread\<close>

text \<open>A put under a drawn revision, and the delete of a revision that may be deleted, by a thread or by one of its jobs.\<close>

lemma put_keeps:
  assumes "draws_ok ops c ds" and "(t, n) \<in> set ds" and "writes (ops ! t) = Some (k, v)"
    and "con' = con(nm := (con nm)(FormatInt (sint n) \<mapsto> v))"
  shows "keeps ops ds X con con'"
  unfolding keeps_def
proof (intro allI impI, elim conjE)
  fix u n' k' v' m
  assume u: "(u, n') \<in> set ds" "writes (ops ! u) = Some (k', v')"
  then have "FormatInt (sint n) = FormatInt (sint n') \<longrightarrow> v' = v" using drawn_unique(1) [OF assms(1,2) u(1)] assms(3) by auto
  then show "(con m (FormatInt (sint n')) = Some v' \<longrightarrow> con' m (FormatInt (sint n')) = Some v' \<or> X n' \<and> con' m (FormatInt (sint n')) = None) \<and>
      (con m (FormatInt (sint n')) = None \<longrightarrow> con' m (FormatInt (sint n')) \<in> {None, Some v'})"
    using assms(4) by (cases "m = nm \<and> FormatInt (sint n) = FormatInt (sint n')") auto
qed

lemma delete_keeps:
  assumes "draws_ok ops c ds" and "(t, n) \<in> set ds" and "X n"
    and "con' = con(nm := (con nm)(FormatInt (sint n) := None))"
  shows "keeps ops ds X con con'"
  unfolding keeps_def
proof (intro allI impI, elim conjE)
  fix u n' k' v' m
  assume u: "(u, n') \<in> set ds" "writes (ops ! u) = Some (k', v')"
  then have "FormatInt (sint n) = FormatInt (sint n') \<longrightarrow> X n'" using drawn_unique(2) [OF assms(1,2) u(1)] assms(3) by auto
  then show "(con m (FormatInt (sint n')) = Some v' \<longrightarrow> con' m (FormatInt (sint n')) = Some v' \<or> X n' \<and> con' m (FormatInt (sint n')) = None) \<and>
      (con m (FormatInt (sint n')) = None \<longrightarrow> con' m (FormatInt (sint n')) \<in> {None, Some v'})"
    using assms(4) by (cases "m = nm \<and> FormatInt (sint n) = FormatInt (sint n')") auto
qed

lemma service_store:
  assumes "conc_inv env N content ok ops s"
  obtains sap where "piping (handler (shared s)) = SyncAsyncP sap"
    and "store_contract (conf (handler (shared s))) (env_api env) (sap_databaseType sap) content ok"
  using conc_invD(1) [OF assms] by (auto simp: service_ok_def)

abbreviation thread_step :: "'s env \<Rightarrow> choices \<Rightarrow> nat \<Rightarrow> nat \<Rightarrow> 's conc \<Rightarrow> 's conc" where
  "thread_step env ch t i s \<equiv> conc_exec env (Step t ch i) s"

lemma respond_not_found [simp]: "respond env code (Err ErrRevisionNotFound) = Ok not_found"
  by (simp add: respond_def not_found_def ErrRevisionNotFound_def)

lemma respond_not_latest [simp]: "respond env code (Err ErrNotLatest) = Ok not_latest"
  by (simp add: respond_def not_latest_def ErrNotLatest_def)

lemma respond_Panic [simp]: "respond env code res = Panic p \<longleftrightarrow> res = Panic p"
  by (cases res) (simp_all add: respond_def)

lemma since_loop_subset: "since_loop sn rs acc lm = Ok out \<Longrightarrow> set out \<subseteq> set rs \<union> set acc"
proof (induction sn rs acc lm rule: since_loop.induct)
  case (2 sn r rs acc lm)
  have "set (acc[length acc - 1 := r]) \<subseteq> insert r (set acc)" by (rule set_update_subset_insert)
  then show ?case using 2 by (auto split: if_splits)
qed auto

lemma RangeSince_subset:
  assumes "RangeSince srt ti k None rv = Ok rs"
  shows "\<forall>r \<in> set rs. nodes r = [] \<or> r \<in> ti_revs ti k"
proof (cases "lookup ti k")
  case None
  then show ?thesis using assms by (simp add: RangeSince_def)
next
  case (Some ki)
  have "set (concat (map revs (drop i (generations ki)))) \<subseteq> set (all_revs ki)" for i
    by (auto simp: all_revs_def dest: in_set_dropD)
  moreover have "since ki rv = Ok rs" using assms Some by (simp add: RangeSince_def)
  ultimately show ?thesis using Some since_loop_subset by (fastforce simp: since_def ti_revs_def put_set_def Let_def split: if_splits)
qed

lemma get_step_inv:
  assumes "conc_inv env N content ok ops s" and "t < length ops" and "threads s ! t = Arrived (request_of (ops ! t))"
    and "ops ! t = SGet k \<or> ops ! t = SGetSince k a"
  shows "conc_inv env N content ok ops (thread_step env ch t i s)"
proof -
  let ?sv = "shared s" and ?R = "ti_revs (indexTree (handler (shared s)))"
  have "\<exists>p'. hstep env ch i (threads s ! t) ?sv = (p', ?sv) \<and> \<not> loads p' \<and>
      thread_ok N ops (content (wd ?sv)) ?R (draws s) t p'"
    using assms(4)
  proof
    assume g: "ops ! t = SGet k"
    then show ?thesis using assms(3)
      by (cases rule: Get_fit [OF conc_invD(2) [OF assms(1)], of k]) (auto simp: get_arrived_def answer_def conc_invD(10) [OF assms(1)])
  next
    assume g: "ops ! t = SGetSince k a"
    then show ?thesis using assms(3) RangeSince_fit [OF conc_invD(2) [OF assms(1)]] RangeSince_subset [of "env_sort_revs env" "indexTree (handler ?sv)" k a]
      by (cases "RangeSince (env_sort_revs env) (indexTree (handler ?sv)) k None a")
        (auto simp: get_arrived_def answer_def conc_invD(10) [OF assms(1)])
  qed
  then show ?thesis using advance_pc [OF assms(1,2)] assms(2,3) conc_invD(5) [OF assms(1)] by auto
qed

lemma create_step_inv:
  assumes "conc_inv env N content ok ops s" and "t < length ops" and "threads s ! t = Arrived (request_of (ops ! t))"
    and "writes (ops ! t) = Some (k, v)" and "uint (counter (shared s)) + 1 < 2 ^ 63"
  shows "conc_inv env N content ok ops (thread_step env ch t i s)"
proof -
  let ?sv = "shared s" and ?p = "Drawing (request_of (ops ! t)) (fst (params (ops ! t))) (snd (params (ops ! t)))"
  let ?sv' = "?sv\<lparr>counter := counter ?sv + 1\<rparr>"
  note c = sint_counter_Suc [OF assms(5)]
  have "hstep env ch i (threads s ! t) ?sv = (?p, ?sv')"
    using assms(3,4) by (cases "ops ! t") (simp_all add: create_arrived_def Query_Get_def Let_def)
  moreover have "conc_inv env N content ok ops (s\<lparr>shared := ?sv', threads := (threads s)[t := ?p], draws := draws s @ []\<rparr>)"
  proof (rule advance_local [OF assms(1,2)])
    show "draws_ok ops (counter ?sv') (draws s @ [])"
      using conc_invD(4) [OF assms(1)] c(2) assms(5) by (fastforce simp: draws_ok_def)
    show "thread_ok N ops (content (wd ?sv)) (ti_revs (indexTree (handler ?sv))) (draws s @ []) t ?p"
      using conc_invD(6) [OF assms(1,2)] assms(3,4) by simp
  qed (use assms(3) conc_invD(3,8) [OF assms(1)] c(2) in simp_all)
  ultimately show ?thesis using assms(2,3) conc_invD(5) [OF assms(1)] by simp
qed


lemma placed_Ok:
  assumes "service_ok env N content ok h"
  obtains ns where "placed env h c = Ok ns" and "replicas_ok N ns"
proof -
  obtain b where "getPrimaryRevBytesWithBucket (conf h) (NewRevision c 0 []) = Ok b"
    using primary_bytes [of "conf h"] assms by (metis service_ok_def)
  moreover obtain ns where "hm_GetNodes (env_hash env) (env_sort_nodes env) (hm h) b = Ok ns" "replicas_ok N ns"
    using assms by (auto simp: service_ok_def)
  ultimately show thesis using that by (simp add: placed_def)
qed

lemma drawn_step_inv:
  assumes "conc_inv env N content ok ops s" and "t < length ops" and "threads s ! t = Drawing rq rp a"
    and "counter (shared s) \<notin> snd ` set (draws s)"
  shows "conc_inv env N content ok ops (thread_step env ch t i s)"
proof -
  let ?sv = "shared s" and ?ds = "[(t, counter (shared s))]" and ?R = "ti_revs (indexTree (handler (shared s)))"
  have T: "rq = request_of (ops ! t)" "t \<notin> fst ` set (draws s)" "params (ops ! t) = (rp, a)" and "writes (ops ! t) \<noteq> None"
    using conc_invD(6) [OF assms(1,2)] assms(3) by simp_all
  then obtain k v where w: "writes (ops ! t) = Some (k, v)" by (auto simp del: not_None_eq)
  let ?pl = "[(''key'', k), (''value'', v)]"
  have b: "Body rq = Payload ?pl" using w T(1) by (cases "ops ! t") simp_all
  obtain ns where ns: "placed env (handler ?sv) (counter ?sv) = Ok ns" "replicas_ok N ns"
    by (rule placed_Ok [OF conc_invD(1) [OF assms(1)]])
  obtain sns ans where n: "ns = [Join sns '','', Join ans '','']" "names_ok sns" "names_ok ans" "sns \<noteq> []" "set sns \<union> set ans \<subseteq> N"
    using ns(2) by (auto simp: replicas_ok_def)
  have split: "splitStores ns = Ok (sns, Split (Join ans '','') '','')"
    using sap_split [of "NewRevision (counter ?sv) 0 ns" sns ans] n by simp
  define r cr where "r = NewRevision (counter ?sv) 0 ns" and "cr = create_of ?pl rp a"
  let ?p = "Writing cr r sns"
  let ?sv' = "?sv\<lparr>pending := pending ?sv @ map (\<lambda>n. AsyncPut n (Revision_String r) v) ans\<rparr>"
  have f: "filter (\<lambda>n. n \<noteq> []) sns = sns" using n(2) by (auto simp: names_ok_def intro: filter_True)
  obtain sap where sap: "piping (handler ?sv) = SyncAsyncP sap" by (rule service_store [OF assms(1)])
  have "create_drawn env rq rp a ?sv = (?p, ?sv')"
    using ns(1) b sap split Split_names(1) [OF n(3)] f
    by (simp add: create_drawn_eq Let_def r_def cr_def create_of_def payload_Get_def)
  moreover have "conc_inv env N content ok ops (s\<lparr>shared := ?sv', threads := (threads s)[t := ?p], draws := draws s @ ?ds\<rparr>)"
  proof (rule advance_local [OF assms(1,2)])
    have "0 < uint (counter ?sv)"
      by (rule conc_invD(9) [OF assms(1), of "Drawing rq rp a"])
        (use assms(2,3) conc_invD(5) [OF assms(1)] nth_mem [of t "threads s"] in simp_all)
    then show "draws_ok ops (counter ?sv') (draws s @ ?ds)"
      using conc_invD(4) [OF assms(1)] T(2) assms(2,4) w by (auto simp: draws_ok_def)
    have "create_ok (ops ! t) cr" using w T(3) by (simp add: create_ok_def cr_def create_of_def payload_Get_def)
    moreover have "written N (content (wd ?sv)) r (c_value cr) sns"
      unfolding written_def by (rule exI [of _ sns], rule exI [of _ ans]) (use n in \<open>simp add: r_def\<close>)
    ultimately show "thread_ok N ops (content (wd ?sv)) (ti_revs (indexTree (handler ?sv))) (draws s @ ?ds) t ?p"
      by (simp add: drawn_def r_def)
    have "conc_job N ops ?R (draws s @ ?ds) j" if "j \<in> set (pending ?sv)" for j
      by (rule conc_job_mono [OF conc_invD(8) [OF assms(1) that]]) simp
    moreover have "conc_job N ops ?R (draws s @ ?ds) (AsyncPut m (Revision_String r) v)" if "m \<in> set ans" for m
      using that n(5) w unfolding conc_job_def by (auto simp: r_def Revision_String_def)
    ultimately show "\<forall>j \<in> set (pending ?sv'). conc_job N ops ?R (draws s @ ?ds) j" by auto
  qed (use assms(3) conc_invD(3) [OF assms(1)] in simp_all)
  ultimately show ?thesis using assms(2,3) conc_invD(5) [OF assms(1)] by simp
qed

lemma set_drop_nth: "j < length xs \<Longrightarrow> set xs = insert (xs ! j) (set (drop_nth j xs))"
  by (metis append_Cons id_take_nth_drop insert_commute list.simps(15) set_append Un_insert_right)

lemma write_step_inv:
  assumes "conc_inv env N content ok ops s" and "t < length ops" and "threads s ! t = Writing cr r (n # names)"
  shows "conc_inv env N content ok ops (thread_step env ch t i s)"
proof -
  let ?sv = "shared s" and ?ns = "n # names" and ?j = "i mod length (n # names)" and ?s = "FormatInt (sint (main r))"
  have cr: "create_ok (ops ! t) cr" and d: "drawn (draws s) t r" and w: "written N (content (wd ?sv)) r (c_value cr) ?ns"
    using conc_invD(6) [OF assms(1,2)] assms(3) by simp_all
  have j: "?j < length ?ns" by (rule mod_less_divisor) simp
  obtain sns ans where ns: "nodes r = [Join sns '','', Join ans '','']" "names_ok sns" "names_ok ans" "sns \<noteq> []"
      "set sns \<union> set ans \<subseteq> N" "set ?ns \<subseteq> set sns" "\<forall>m \<in> set sns - set ?ns. content (wd ?sv) m ?s = Some (c_value cr)"
    using w unfolding written_def Revision_String_def by blast
  have "?ns ! ?j \<in> set ?ns" using j by (rule nth_mem)
  then have nm: "?ns ! ?j \<in> N" using ns(5,6) by blast
  obtain sap where sap: "piping (handler ?sv) = SyncAsyncP sap"
    and con: "store_contract (conf (handler ?sv)) (env_api env) (sap_databaseType sap) content ok" by (rule service_store [OF assms(1)])
  obtain q w1 where q: "store_put (conf (handler ?sv)) (env_api env) (sap_databaseType sap) (?ns ! ?j) ?s (c_value cr) (wd ?sv) = (q, w1)" by force
  have C: "q = Ok ()" "content w1 = (content (wd ?sv))(?ns ! ?j := (content (wd ?sv) (?ns ! ?j))(?s \<mapsto> c_value cr))"
      "\<forall>e. ok e (wd ?sv) \<longrightarrow> ok e w1"
    using kv_backend.put_law [OF con conc_invD(3) [OF assms(1) nm] q] by auto
  let ?p = "Writing cr r (drop_nth ?j ?ns)" and ?sv' = "?sv\<lparr>wd := w1\<rparr>"
  have "conc_inv env N content ok ops (s\<lparr>shared := ?sv', threads := (threads s)[t := ?p], draws := draws s @ []\<rparr>)"
  proof (rule advance [OF assms(1,2), where ti' = "indexTree (handler ?sv)"])
    show "keeps ops (draws s) (removable ops (ti_revs (indexTree (handler ?sv)))) (content (wd ?sv)) (content (wd ?sv'))"
      using put_keeps [OF conc_invD(4) [OF assms(1)], of t "main r" "c_key cr" "c_value cr"] d cr C(2)
      by (simp add: drawn_def create_ok_def)
    have "set ?ns = insert (?ns ! ?j) (set (drop_nth ?j ?ns))" by (rule set_drop_nth [OF j])
    then have "set (drop_nth ?j ?ns) \<subseteq> set sns" "\<forall>m \<in> set sns - set (drop_nth ?j ?ns). content w1 m ?s = Some (c_value cr)"
      using ns(6,7) C(2) by auto
    then have "written N (content w1) r (c_value cr) (drop_nth ?j ?ns)"
      unfolding written_def Revision_String_def using ns(1-5) by blast
    then show "thread_ok N ops (content (wd ?sv')) (ti_revs (indexTree (handler ?sv))) (draws s @ []) t ?p"
      using cr d by simp
  qed (use assms(3) conc_invD(2,3,4,8) [OF assms(1)] C(3) in simp_all)
  moreover have "hstep env ch i (threads s ! t) ?sv = (?p, ?sv')"
    using assms(3) sap q C(1) by (simp add: write_step_def Revision_String_def Let_def)
  ultimately show ?thesis using assms(2,3) conc_invD(5) [OF assms(1)] by simp
qed


lemma saved_eq:
  assumes "uint (main r) < 2 ^ 63"
  shows "respond env 201 (Ok (saved cr r)) = saved_answer (c_key cr) (c_value cr) r"
  using sint_uint63 [OF assms] by (simp add: respond_def saved_def saved_text_def FormatUint_uint)

lemma Put_counter: "Put ti k r c = (ti', c') \<Longrightarrow> uint c + 1 < 2 ^ 63 \<Longrightarrow> uint c \<le> uint c' \<and> uint c' \<le> uint c + 1"
  by (auto simp: Put_def split: option.splits prod.splits dest!: put_counter)

lemma Tombstone_counter:
  "Tombstone ti k r c = (res, ti', c') \<Longrightarrow> uint c + 1 < 2 ^ 63 \<Longrightarrow> uint c \<le> uint c' \<and> uint c' \<le> uint c + 1"
  by (auto simp: Tombstone_def split: option.splits prod.splits dest!: tombstone_counter)

text \<open>A thread that changes the index, with \<^verbatim>\<open>Put\<close> or at the end of \<^verbatim>\<open>Update\<close>.\<close>

lemma put_step_inv:
  assumes "conc_inv env N content ok ops s" and "t < length ops" and "\<forall>res. threads s ! t \<noteq> Done res"
    and "create_ok (ops ! t) cr" and "drawn (draws s) t r" and "written N (content (wd (shared s))) r (c_value cr) []"
    and "uint (counter (shared s)) + 1 < 2 ^ 63"
    and "Put (indexTree (handler (shared s))) (c_key cr) r (counter (shared s)) = (ti', c')"
    and "hstep env ch i (threads s ! t) (shared s) = answer env 201 (Ok (saved cr r)) ((set_index ti' c' (shared s))\<lparr>index_mu := mu\<rparr>)"
    and "\<not> loads (threads s ! t)" and "\<not> writing mu"
  shows "conc_inv env N content ok ops (thread_step env ch t i s)"
proof -
  let ?sv = "shared s" and ?k = "c_key cr" and ?v = "c_value cr"
  let ?p = "Done (saved_answer ?k ?v r)" and ?sv' = "(set_index ti' c' (shared s))\<lparr>index_mu := mu\<rparr>"
  have d: "(t, main r) \<in> set (draws s)" using assms(5) by (simp add: drawn_def)
  note b = draws_okD [OF conc_invD(4) [OF assms(1)] d]
  have "nodes r \<noteq> []" using assms(6) by (auto simp: written_def)
  note P = Put_fit [OF conc_invD(2) [OF assms(1)] b(2) this assms(8)]
  have c': "uint (counter ?sv) \<le> uint c'" "uint c' \<le> uint (counter ?sv) + 1" using Put_counter [OF assms(8,7)] by simp_all
  have w: "writes (ops ! t) = Some (?k, ?v)" using assms(4) by (simp add: create_ok_def)
  have len: "t < length (threads s)" using assms(2) conc_invD(5) [OF assms(1)] by simp
  have "conc_inv env N content ok ops (s\<lparr>shared := ?sv', threads := (threads s)[t := ?p], draws := draws s @ []\<rparr>)"
  proof (rule advance [OF assms(1-3), where ti' = ti'])
    show "draws_ok ops (counter ?sv') (draws s @ [])"
      using conc_invD(4) [OF assms(1)] c' assms(7) by (fastforce simp: draws_ok_def set_index_def)
    have "indexed N ops (content (wd ?sv)) ((threads s)[t := ?p]) (draws s) ?k r"
      unfolding indexed_def using assms(2,5) written_held [OF assms(6)] w len by auto
    then show "\<forall>k. \<forall>q \<in> ti_revs ti' k - ti_revs (indexTree (handler ?sv)) k.
        indexed N ops (content (wd ?sv')) ((threads s)[t := ?p]) (draws s @ []) k q"
      using P(2) by (auto simp: set_index_def)
    show "thread_ok N ops (content (wd ?sv')) (ti_revs ti') (draws s @ []) t ?p"
      using w assms(5) P(2) by (cases "ops ! t") (auto simp: drawn_def)
    show "\<forall>j \<in> set (pending ?sv'). conc_job N ops (ti_revs ti') (draws s @ []) j"
      using P(2) conc_invD(8) [OF assms(1)] conc_job_mono [of N ops _ "draws s" _ "ti_revs ti'" "[]"] by (fastforce simp: set_index_def)
  qed (use P c' assms(11) conc_invD(3,10) [OF assms(1)] in \<open>auto simp: set_index_def\<close>)
  moreover have "respond env 201 (Ok (saved cr r)) = saved_answer ?k ?v r" by (rule saved_eq) (use b(4,5) in simp)
  ultimately show ?thesis using assms(9,10) len by (simp add: answer_def)
qed

lemma index_step_inv:
  assumes "conc_inv env N content ok ops s" and "t < length ops" and "threads s ! t = Writing cr r []"
    and "uint (counter (shared s)) + 1 < 2 ^ 63"
  shows "conc_inv env N content ok ops (thread_step env ch t i s)"
proof -
  let ?sv = "shared s"
  note T = conc_invD(6) [OF assms(1,2), unfolded assms(3) thread_ok.simps] and mu = conc_invD(10) [OF assms(1)]
  note I = index_step_unlocked [OF mu, of env cr r]
  show ?thesis
  proof (cases "c_rev cr = [] \<and> readers (index_mu ?sv) = 0")
    case True
    obtain ti' c' where p: "Put (indexTree (handler ?sv)) (c_key cr) r (counter ?sv) = (ti', c')" by force
    have "(set_index ti' c' ?sv)\<lparr>index_mu := index_mu ?sv\<rparr> = set_index ti' c' ?sv" by (simp add: set_index_def)
    then show ?thesis
      by (intro put_step_inv [where mu = "index_mu ?sv", OF assms(1,2) _ _ _ _ assms(4) p]) (use T assms(3) True p mu in \<open>simp_all add: I\<close>)
  next
    case False
    have "\<exists>p' sv'. index_step env cr r ?sv = (p', sv') \<and> (sv' = ?sv \<or> sv' = rlocked ?sv) \<and> \<not> loads p' \<and>
        thread_ok N ops (content (wd ?sv)) (ti_revs (indexTree (handler ?sv))) (draws s) t p'"
    proof (cases "c_rev cr = []")
      case True
      then show ?thesis using False T by (simp add: I)
    next
      case rev: False
      then have "\<forall>k. ops ! t \<noteq> SGet k \<and> ops ! t \<noteq> SDelete k" using T by (auto simp: create_ok_def)
      then show ?thesis using rev T ti_revs_empty [OF conc_invD(2) [OF assms(1)], of "c_key cr"]
        by (cases "lookup (indexTree (handler ?sv)) (c_key cr)") (auto simp: I answer_def)
    qed
    then obtain p' sv' where p': "index_step env cr r ?sv = (p', sv')" "sv' = ?sv \<or> sv' = rlocked ?sv" "\<not> loads p'"
        "thread_ok N ops (content (wd ?sv)) (ti_revs (indexTree (handler ?sv))) (draws s @ []) t p'" by auto
    have "conc_inv env N content ok ops (s\<lparr>shared := sv', threads := (threads s)[t := p'], draws := draws s @ []\<rparr>)"
      by (rule advance_local [OF assms(1,2) _ _ _ _ _ _ p'(4)]) (use p'(2,3) assms(3) conc_invD(3,4,8) [OF assms(1)] in auto)
    then show ?thesis using p'(1) assms(2,3) conc_invD(5) [OF assms(1)] by simp
  qed
qed

lemma update_step_inv:
  assumes "conc_inv env N content ok ops s" and "t < length ops" and "threads s ! t = Updating cr r"
    and "uint (counter (shared s)) + 1 < 2 ^ 63"
  shows "conc_inv env N content ok ops (thread_step env ch t i s)"
proof -
  let ?sv = "shared s"
  note T = conc_invD(6) [OF assms(1,2), unfolded assms(3) thread_ok.simps]
  obtain oki where l: "lookup (indexTree (handler ?sv)) (c_key cr) = Some oki"
    using T ti_revs_empty [OF conc_invD(2) [OF assms(1)], of "c_key cr"] by auto
  obtain ti' c' where p: "Put (indexTree (handler ?sv)) (c_key cr) r (counter ?sv) = (ti', c')" by force
  show ?thesis
    by (rule put_step_inv [where mu = "RUnlock (index_mu ?sv)", OF assms(1,2) _ _ _ _ assms(4) p])
      (use T assms(3) p l conc_invD(10) [OF assms(1)] in \<open>auto simp: update_step_def Put_def RUnlock_def set_index_def Let_def split: prod.splits\<close>)
qed

lemma read_inv:
  assumes "conc_inv env N content ok ops s" and "r \<in> ti_revs (indexTree (handler (shared s))) k"
    and "getValueByRev env ch r (shared s) = (res, sv')"
  obtains w1 t v where "sv' = (shared s)\<lparr>wd := w1\<rparr>" and "content w1 = content (wd (shared s))" and "\<forall>n \<in> N. ok n w1"
    and "t < length ops" and "writes (ops ! t) = Some (k, v)" and "drawn (draws s) t r"
    and "res = Ok v \<or> SDelete k \<in> set ops \<and> res \<in> missing_value"
proof -
  let ?sv = "shared s"
  obtain t v where t: "t < length ops" "writes (ops ! t) = Some (k, v)" "drawn (draws s) t r" "held N ops (content (wd ?sv)) k r v"
    using conc_invD(7) [OF assms(1,2)] by (auto simp: indexed_def)
  obtain sns ans where ns: "nodes r = [Join sns '','', Join ans '','']" "names_ok sns" "sns \<noteq> []" "set sns \<union> set ans \<subseteq> N"
      "\<forall>m \<in> set sns. content (wd ?sv) m (Revision_String r) = Some v \<or>
        content (wd ?sv) m (Revision_String r) = None \<and> SDelete k \<in> set ops"
    using t(4) unfolding held_def by blast
  obtain sap where sap: "piping (handler ?sv) = SyncAsyncP sap"
    and con: "store_contract (conf (handler ?sv)) (env_api env) (sap_databaseType sap) content ok" by (rule service_store [OF assms(1)])
  have m: "sns ! 0 \<in> set sns" using ns(3) by simp
  then have ok: "ok (sns ! 0) (wd ?sv)" using ns(4) conc_invD(3) [OF assms(1)] by blast
  obtain w1 where rd: "sap_Read (conf (handler ?sv)) (env_api env) sap r (wd ?sv) = (res, w1)" "sv' = ?sv\<lparr>wd := w1\<rparr>"
    using assms(3) sap by (cases "sap_Read (conf (handler ?sv)) (env_api env) sap r (wd ?sv)") (simp add: getValueByRev_def)
  note L = sap_Read_law [OF con ns(1-3) ok rd(1)]
  have "res = Ok v \<or> SDelete k \<in> set ops \<and> res \<in> missing_value" using bspec [OF ns(5) m] L(1) [of v] L(5) by fast
  moreover have "\<forall>n \<in> N. ok n w1" using conc_invD(3) [OF assms(1)] L(3) by simp
  ultimately show thesis using that [OF rd(2) L(2)] t(1-3) by simp
qed

lemma read_answer:
  assumes "res = Ok v \<or> d \<and> res \<in> missing_value" and "getValueByRev env ch r sv = (res, sv')"
  shows "\<exists>a. read_step env ch r sv = (Done a, sv') \<and>
    (a = Ok (Response 202 (value_text v (sint (main r)))) \<or> d \<and> a \<in> missing_answers (sint (main r)))"
  using assms
  by (auto simp: read_step_def answer_def respond_def value_text_def Revision_String_def missing_value_def missing_answers_def)

lemma read_step_inv:
  assumes "conc_inv env N content ok ops s" and "t < length ops" and "threads s ! t = Reading r"
  shows "conc_inv env N content ok ops (thread_step env ch t i s)"
proof -
  let ?sv = "shared s" and ?R = "ti_revs (indexTree (handler (shared s)))"
  obtain k where k: "ops ! t = SGet k" "r \<in> ?R k" using conc_invD(6) [OF assms(1,2)] assms(3) by auto
  obtain res sv' where g: "getValueByRev env ch r ?sv = (res, sv')" by force
  obtain w1 q v where w: "sv' = ?sv\<lparr>wd := w1\<rparr>" "content w1 = content (wd ?sv)" "\<forall>n \<in> N. ok n w1" and q: "q < length ops" "writes (ops ! q) = Some (k, v)"
      "drawn (draws s) q r" and res: "res = Ok v \<or> SDelete k \<in> set ops \<and> res \<in> missing_value"
    by (rule read_inv [OF assms(1) k(2) g])
  obtain a where a: "read_step env ch r ?sv = (Done a, sv')"
      "a = Ok (Response 202 (value_text v (sint (main r)))) \<or> SDelete k \<in> set ops \<and> a \<in> missing_answers (sint (main r))"
    using read_answer [OF res g] by blast
  have "conc_inv env N content ok ops (s\<lparr>shared := sv', threads := (threads s)[t := Done a], draws := draws s @ []\<rparr>)"
  proof (rule advance_local [OF assms(1,2)])
    have "\<forall>p. a \<noteq> Panic p" using a(2) by (auto simp: missing_answers_def)
    then show "thread_ok N ops (content (wd ?sv)) ?R (draws s @ []) t (Done a)" using k q a(2) by (simp, metis)
  qed (use w assms(3) conc_invD(4,8) [OF assms(1)] in simp_all)
  then show ?thesis using assms(2,3) conc_invD(5) [OF assms(1)] a(1) by simp
qed

text \<open>A read of several revisions: one of a tombstone, which names no stores, ends it with an error.\<close>

lemma read_any:
  assumes "conc_inv env N content ok ops s" and "nodes r = [] \<or> r \<in> ti_revs (indexTree (handler (shared s))) k"
    and "getValueByRev env ch r (shared s) = (res, sv')"
  obtains w1 where "sv' = (shared s)\<lparr>wd := w1\<rparr>" and "content w1 = content (wd (shared s))" and "\<forall>n \<in> N. ok n w1"
    and "\<forall>p. res \<noteq> Panic p"
proof (cases "nodes r = []")
  case True
  obtain sap where "piping (handler (shared s)) = SyncAsyncP sap" by (rule service_store [OF assms(1)])
  then have "(res, sv') = (Err (ErrorString ''no stores in the revision''), (shared s)\<lparr>wd := wd (shared s)\<rparr>)"
    using assms(3) True by (simp add: getValueByRev_def sap_Read_def splitStores_def)
  then show thesis using that conc_invD(3) [OF assms(1)] by blast
next
  case False
  then have "r \<in> ti_revs (indexTree (handler (shared s))) k" using assms(2) by simp
  then show thesis by (rule read_inv [OF assms(1) _ assms(3)]) (rule that, auto simp: missing_value_def)
qed

lemma since_step_inv:
  assumes "conc_inv env N content ok ops s" and "t < length ops" and "threads s ! t = ReadingSince a rs left vs"
  shows "conc_inv env N content ok ops (thread_step env ch t i s)"
proof -
  let ?sv = "shared s" and ?R = "ti_revs (indexTree (handler (shared s)))"
  obtain k b where k: "ops ! t = SGetSince k b" "\<forall>r \<in> set left. nodes r = [] \<or> r \<in> ?R k"
    using conc_invD(6) [OF assms(1,2)] assms(3) by auto
  show ?thesis
  proof (cases left)
    case Nil
    have "\<exists>res. hstep env ch i (threads s ! t) ?sv = (Done res, ?sv) \<and> (\<forall>p. res \<noteq> Panic p)"
      using assms(3) Nil by (simp add: answer_def)
    then show ?thesis using advance_pc [OF assms(1,2)] k assms(2,3) conc_invD(5) [OF assms(1)] by auto
  next
    case (Cons r left')
    obtain res sv' where g: "getValueByRev env ch r ?sv = (res, sv')" by force
    have "nodes r = [] \<or> r \<in> ?R k" using k(2) Cons by simp
    then obtain w1 where w: "sv' = ?sv\<lparr>wd := w1\<rparr>" "content w1 = content (wd ?sv)" "\<forall>n \<in> N. ok n w1" and np: "\<forall>p. res \<noteq> Panic p"
      by (rule read_any [OF assms(1) _ g])
    obtain p' where p': "since_step env ch a rs left vs ?sv = (p', sv')" "\<not> loads p'"
        "thread_ok N ops (content (wd ?sv)) ?R (draws s @ []) t p'"
      using k Cons g np by (cases res) (auto simp: answer_def)
    have "conc_inv env N content ok ops (s\<lparr>shared := sv', threads := (threads s)[t := p'], draws := draws s @ []\<rparr>)"
      by (rule advance_local [OF assms(1,2)]) (use w p'(2,3) assms(3) conc_invD(4,8) [OF assms(1)] in auto)
    then show ?thesis using assms(2,3) p'(1) conc_invD(5) [OF assms(1)] by simp
  qed
qed

subsection \<open>The steps of a delete\<close>

lemma delete_arrived_inv:
  assumes "conc_inv env N content ok ops s" and "t < length ops" and "threads s ! t = Arrived (request_of (ops ! t))"
    and k: "ops ! t = SDelete k"
  shows "conc_inv env N content ok ops (thread_step env ch t i s)"
proof -
  let ?sv = "shared s" and ?R = "ti_revs (indexTree (handler (shared s)))"
  have T: "t \<notin> fst ` set (draws s)" using conc_invD(6) [OF assms(1,2)] assms(3) by simp
  show ?thesis
  proof (cases rule: Get_fit [OF conc_invD(2) [OF assms(1)], of k])
    case 1
    then have "hstep env ch i (threads s ! t) ?sv = (Done (Ok not_found), ?sv)"
      using assms(3) k by (simp add: delete_arrived_def conc_invD(10) [OF assms(1)] answer_def)
    moreover have "conc_inv env N content ok ops (s\<lparr>shared := ?sv, threads := (threads s)[t := Done (Ok not_found)], draws := draws s @ []\<rparr>)"
      by (rule advance_pc [OF assms(1,2)]) (use assms(3) k in simp_all)
    ultimately show ?thesis using assms(2,3) conc_invD(5) [OF assms(1)] by simp
  next
    case (2 r cr v)
    obtain u v' where "held N ops (content (wd ?sv)) k r v'" using conc_invD(7) [OF assms(1) 2(2)] by (auto simp: indexed_def)
    then obtain sns ans where ns: "nodes r = [Join sns '','', Join ans '','']" "names_ok sns" "names_ok ans" "sns \<noteq> []" "set sns \<union> set ans \<subseteq> N"
      unfolding held_def by blast
    have f: "filter (\<lambda>n. n \<noteq> []) sns = sns" using ns(2) by (auto simp: names_ok_def intro: filter_True)
    obtain sap where sap: "piping (handler ?sv) = SyncAsyncP sap" by (rule service_store [OF assms(1)])
    let ?p = "Deleting [k] r sns (Ok ())"
    let ?sv' = "?sv\<lparr>pending := pending ?sv @ map (\<lambda>n. AsyncDelete n (Revision_String r)) ans\<rparr>"
    have "hstep env ch i (threads s ! t) ?sv = (?p, ?sv')"
      using assms(3) k 2(1) sap sap_split [OF ns(1,2,4)] Split_names(1) [OF ns(3)] f by (simp add: delete_arrived_def conc_invD(10) [OF assms(1)])
    moreover have "conc_inv env N content ok ops (s\<lparr>shared := ?sv', threads := (threads s)[t := ?p], draws := draws s @ []\<rparr>)"
    proof (rule advance_local [OF assms(1,2)])
      show "thread_ok N ops (content (wd ?sv)) ?R (draws s @ []) t ?p" using T k ns(5) 2(2) by simp
      have "SDelete k \<in> set ops" using k assms(2) by (metis nth_mem)
      then have "conc_job N ops ?R (draws s) (AsyncDelete m (Revision_String r))" if "m \<in> set ans" for m
        using that ns(5) 2(2) by (auto simp: conc_job_def removable_def Revision_String_def)
      then show "\<forall>j \<in> set (pending ?sv'). conc_job N ops ?R (draws s @ []) j" using conc_invD(8) [OF assms(1)] by auto
    qed (use assms(3) conc_invD(3,4) [OF assms(1)] in simp_all)
    ultimately show ?thesis using assms(2,3) conc_invD(5) [OF assms(1)] by simp
  qed
qed

text \<open>The delete of one store, by a thread or by one of its jobs.\<close>

lemma store_delete_keeps:
  assumes "conc_inv env N content ok ops s" and "nm \<in> N" and "removable ops (ti_revs (indexTree (handler (shared s)))) n"
    and "piping (handler (shared s)) = SyncAsyncP sap"
    and "store_delete (conf (handler (shared s))) (env_api env) (sap_databaseType sap) nm (FormatInt (sint n)) (wd (shared s)) = (q, w1)"
  shows "q = Ok ()" and "\<forall>e. ok e (wd (shared s)) \<longrightarrow> ok e w1"
    and "keeps ops (draws s) (removable ops (ti_revs (indexTree (handler (shared s))))) (content (wd (shared s))) (content w1)"
proof -
  let ?sv = "shared s"
  have con: "store_contract (conf (handler ?sv)) (env_api env) (sap_databaseType sap) content ok"
    by (rule service_store [OF assms(1)]) (use assms(4) in simp)
  have C: "q = Ok ()" "content w1 = (content (wd ?sv))(nm := (content (wd ?sv) nm)(FormatInt (sint n) := None))" "\<forall>e. ok e (wd ?sv) \<longrightarrow> ok e w1"
    using kv_backend.del_law [OF con conc_invD(3) [OF assms(1,2)] assms(5)] by auto
  then show "q = Ok ()" "\<forall>e. ok e (wd ?sv) \<longrightarrow> ok e w1" by simp_all
  obtain t where t: "(t, n) \<in> set (draws s)" by (rule removable_drawn [OF assms(1,3)])
  show "keeps ops (draws s) (removable ops (ti_revs (indexTree (handler ?sv)))) (content (wd ?sv)) (content w1)"
    by (rule delete_keeps [where X = "removable ops (ti_revs (indexTree (handler ?sv)))", OF conc_invD(4) [OF assms(1)] t assms(3) C(2)])
qed

lemma delete_step_inv:
  assumes "conc_inv env N content ok ops s" and "t < length ops" and "threads s ! t = Deleting keys r (n # names) dres"
  shows "conc_inv env N content ok ops (thread_step env ch t i s)"
proof -
  let ?sv = "shared s" and ?R = "ti_revs (indexTree (handler (shared s)))" and ?ns = "n # names" and ?j = "i mod length (n # names)"
  obtain k where T: "t \<notin> fst ` set (draws s)" "set ?ns \<subseteq> N" "dres = Ok ()" and k: "ops ! t = SDelete k" "keys = [k]" "r \<in> ?R k"
    using conc_invD(6) [OF assms(1,2)] assms(3) by auto
  have j: "?j < length ?ns" by (rule mod_less_divisor) simp
  have nm: "?ns ! ?j \<in> N" using nth_mem [OF j] T(2) by blast
  have "SDelete k \<in> set ops" using k(1) assms(2) by (metis nth_mem)
  then have rm: "removable ops ?R (main r)" using k(3) by (auto simp: removable_def)
  obtain sap where sap: "piping (handler ?sv) = SyncAsyncP sap" by (rule service_store [OF assms(1)])
  obtain q w1 where q: "store_delete (conf (handler ?sv)) (env_api env) (sap_databaseType sap) (?ns ! ?j) (FormatInt (sint (main r))) (wd ?sv) = (q, w1)"
    by force
  note D = store_delete_keeps [OF assms(1) nm rm sap q]
  let ?p = "Deleting keys r (drop_nth ?j ?ns) dres" and ?sv' = "?sv\<lparr>wd := w1\<rparr>"
  have "set (drop_nth ?j ?ns) \<subseteq> N" using set_drop_nth [OF j] T(2) by blast
  then have "conc_inv env N content ok ops (s\<lparr>shared := ?sv', threads := (threads s)[t := ?p], draws := draws s @ []\<rparr>)"
    by (intro advance [OF assms(1,2), where ti' = "indexTree (handler ?sv)"])
      (use assms(3) conc_invD(2,3,4,8) [OF assms(1)] D T k in simp_all)
  moreover have "hstep env ch i (threads s ! t) ?sv = (?p, ?sv')"
    using assms(3) sap q D(1) by (simp add: delete_step_def Revision_String_def Let_def)
  ultimately show ?thesis using assms(2,3) conc_invD(5) [OF assms(1)] by simp
qed

text \<open>The revision of the tombstone is drawn by two steps, as that of a put.\<close>

lemma deleted_step_inv:
  assumes "conc_inv env N content ok ops s" and "t < length ops" and "threads s ! t = Deleting keys r [] dres"
    and "uint (counter (shared s)) + 1 < 2 ^ 63"
  shows "conc_inv env N content ok ops (thread_step env ch t i s)"
proof -
  let ?sv = "shared s"
  let ?sv' = "?sv\<lparr>counter := counter ?sv + 1\<rparr>"
  note c = sint_counter_Suc [OF assms(4)]
  have "conc_inv env N content ok ops (s\<lparr>shared := ?sv', threads := (threads s)[t := Removing keys r dres], draws := draws s @ []\<rparr>)"
  proof (rule advance_local [OF assms(1,2)])
    show "draws_ok ops (counter ?sv') (draws s @ [])"
      using conc_invD(4) [OF assms(1)] c(2) assms(4) by (fastforce simp: draws_ok_def)
    show "thread_ok N ops (content (wd ?sv)) (ti_revs (indexTree (handler ?sv))) (draws s @ []) t (Removing keys r dres)"
      using conc_invD(6) [OF assms(1,2)] assms(3) by simp
  qed (use assms(3) conc_invD(3,8) [OF assms(1)] c(2) in simp_all)
  then show ?thesis using assms(2,3) conc_invD(5) [OF assms(1)] by simp
qed

lemma removing_step_inv:
  assumes "conc_inv env N content ok ops s" and "t < length ops" and "threads s ! t = Removing keys r dres"
    and "counter (shared s) \<notin> snd ` set (draws s)"
  shows "conc_inv env N content ok ops (thread_step env ch t i s)"
proof -
  let ?sv = "shared s" and ?R = "ti_revs (indexTree (handler (shared s)))" and ?ds = "[(t, counter (shared s))]"
  have T: "t \<notin> fst ` set (draws s)" "deletes (ops ! t)" using conc_invD(6) [OF assms(1,2)] assms(3) by auto
  have "conc_inv env N content ok ops (s\<lparr>shared := ?sv, threads := (threads s)[t := Burying keys r dres (counter ?sv)], draws := draws s @ ?ds\<rparr>)"
  proof (rule advance_local [OF assms(1,2)])
    have "0 < uint (counter ?sv)"
      by (rule conc_invD(9) [OF assms(1), of "Removing keys r dres"])
        (use assms(2,3) conc_invD(5) [OF assms(1)] nth_mem [of t "threads s"] in simp_all)
    then show "draws_ok ops (counter ?sv) (draws s @ ?ds)"
      using conc_invD(4) [OF assms(1)] T assms(2,4) by (auto simp: draws_ok_def)
    show "thread_ok N ops (content (wd ?sv)) ?R (draws s @ ?ds) t (Burying keys r dres (counter ?sv))"
      using conc_invD(6) [OF assms(1,2)] assms(3) by simp
    show "\<forall>j \<in> set (pending ?sv). conc_job N ops ?R (draws s @ ?ds) j"
      using conc_job_mono [OF conc_invD(8) [OF assms(1)]] by blast
  qed (use assms(3) conc_invD(3) [OF assms(1)] in simp_all)
  then show ?thesis using assms(2,3) conc_invD(5) [OF assms(1)] by simp
qed

lemma bury_step_inv:
  assumes "conc_inv env N content ok ops s" and "t < length ops" and "threads s ! t = Burying keys r dres rv"
    and "uint (counter (shared s)) + 1 < 2 ^ 63"
  shows "conc_inv env N content ok ops (thread_step env ch t i s)"
proof -
  let ?sv = "shared s" and ?R = "ti_revs (indexTree (handler (shared s)))"
  note mu = conc_invD(10) [OF assms(1)]
  obtain k where k: "dres = Ok ()" "ops ! t = SDelete k" "keys = [k]" "r \<in> ?R k" using conc_invD(6) [OF assms(1,2)] assms(3) by auto
  have del: "SDelete k \<in> set ops" using k(2) assms(2) by (metis nth_mem)
  show ?thesis
  proof (cases "readers (index_mu ?sv) = 0")
    case True
    obtain res ti' c' where b: "Tombstone (indexTree (handler ?sv)) k (NewRevision rv (sub r) []) (counter ?sv) = (res, ti', c')" by (metis prod_cases3)
    have "(t, rv) \<in> set (draws s)" using conc_invD(6) [OF assms(1,2)] assms(3) by auto
    then have "main (NewRevision rv (sub r) []) \<noteq> 0" using draws_okD(2) [OF conc_invD(4) [OF assms(1)]] by fastforce
    note F = Tombstone_fit [OF conc_invD(2) [OF assms(1)] del b this]
    have c': "uint (counter ?sv) \<le> uint c'" "uint c' \<le> uint (counter ?sv) + 1" using Tombstone_counter [OF b assms(4)] by simp_all
    let ?p = "Done (removed_answer k r)" and ?sv' = "set_index ti' c' ?sv"
    have "\<forall>p. res \<noteq> Panic p" using F(3) by blast
    then have "hstep env ch i (threads s ! t) ?sv = (?p, ?sv')"
      using assms(3) True k(1,3) b mu by (cases res) (simp_all add: bury_step_def answer_def respond_def)
    moreover have "conc_inv env N content ok ops (s\<lparr>shared := ?sv', threads := (threads s)[t := ?p], draws := draws s @ []\<rparr>)"
    proof (rule advance [OF assms(1,2), where ti' = ti'])
      show "draws_ok ops (counter ?sv') (draws s @ [])"
        using conc_invD(4) [OF assms(1)] c' assms(4) by (fastforce simp: draws_ok_def set_index_def)
      show "thread_ok N ops (content (wd ?sv')) (ti_revs ti') (draws s @ []) t ?p"
        using k(2,4) F(2) by auto
    qed (use F(1,2) c' assms(3) conc_invD(3,8) [OF assms(1)] in \<open>auto simp: set_index_def\<close>)
    ultimately show ?thesis using assms(2,3) conc_invD(5) [OF assms(1)] by simp
  next
    case False
    then have "hstep env ch i (threads s ! t) ?sv = (threads s ! t, ?sv)" using assms(3) mu by (simp add: bury_step_def)
    then have "thread_step env ch t i s = s" using assms(2,3) conc_invD(5) [OF assms(1)] list_update_id [of "threads s" t] by simp
    then show ?thesis using assms(1) by simp
  qed
qed

text \<open>A goroutine for an asynchronous replica.\<close>

lemma job_keeps:
  assumes "conc_inv env N content ok ops s" and "piping (handler (shared s)) = SyncAsyncP sap"
    and "conc_job N ops (ti_revs (indexTree (handler (shared s)))) (draws s) j"
    and "run_job (conf (handler (shared s))) (env_api env) (sap_databaseType sap) j (wd (shared s)) = (q, w1)"
  shows "keeps ops (draws s) (removable ops (ti_revs (indexTree (handler (shared s))))) (content (wd (shared s))) (content w1)"
    and "\<forall>e. ok e (wd (shared s)) \<longrightarrow> ok e w1"
proof -
  let ?sv = "shared s" and ?X = "removable ops (ti_revs (indexTree (handler (shared s))))"
  have con: "store_contract (conf (handler ?sv)) (env_api env) (sap_databaseType sap) content ok"
    by (rule service_store [OF assms(1)]) (use assms(2) in simp)
  have "keeps ops (draws s) ?X (content (wd ?sv)) (content w1) \<and> (\<forall>e. ok e (wd ?sv) \<longrightarrow> ok e w1)"
    using assms(3) unfolding conc_job_def
  proof (elim disjE exE conjE)
    fix t n k v nm
    assume j: "j = AsyncPut nm (FormatInt (sint n)) v" "nm \<in> N" "(t, n) \<in> set (draws s)" "writes (ops ! t) = Some (k, v)"
    have "store_put (conf (handler ?sv)) (env_api env) (sap_databaseType sap) nm (FormatInt (sint n)) v (wd ?sv) = (q, w1)"
      using assms(4) j(1) by simp
    note P = kv_backend.put_law [OF con conc_invD(3) [OF assms(1) j(2)] this]
    then show ?thesis using put_keeps [OF conc_invD(4) [OF assms(1)] j(3,4)] by simp
  next
    fix n nm
    assume j: "j = AsyncDelete nm (FormatInt (sint n))" "nm \<in> N" "?X n"
    have "store_delete (conf (handler ?sv)) (env_api env) (sap_databaseType sap) nm (FormatInt (sint n)) (wd ?sv) = (q, w1)"
      using assms(4) j(1) by simp
    from store_delete_keeps [OF assms(1) j(2,3) assms(2) this] show ?thesis by simp
  qed
  then show "keeps ops (draws s) ?X (content (wd ?sv)) (content w1)" "\<forall>e. ok e (wd ?sv) \<longrightarrow> ok e w1" by simp_all
qed

lemma job_inv:
  assumes "conc_inv env N content ok ops s"
  shows "conc_inv env N content ok ops (conc_exec env (Job i) s)"
proof (cases "i < length (pending (shared s))")
  case True
  let ?sv = "shared s" and ?R = "ti_revs (indexTree (handler (shared s)))"
  obtain sap where sap: "piping (handler ?sv) = SyncAsyncP sap" by (rule service_store [OF assms])
  obtain q w1 where q: "run_job (conf (handler ?sv)) (env_api env) (sap_databaseType sap) (pending ?sv ! i) (wd ?sv) = (q, w1)" by force
  note K = job_keeps [OF assms sap conc_invD(8) [OF assms nth_mem [OF True]] q]
  have "thread_ok N ops (content w1) ?R (draws s) u (threads s ! u)" if "u < length ops" for u
    using thread_ok_stable [OF conc_invD(6) [OF assms that] K(1), of ?R "[]"] removable_done [OF assms] by fastforce
  moreover have "indexed N ops (content w1) (threads s) (draws s) k r" if "r \<in> ?R k" for k r
    using indexed_kept [OF assms that K(1), of "threads s" "[]"] by simp
  moreover have "conc_job N ops ?R (draws s) j" if "j \<in> set (drop_nth i (pending ?sv))" for j
    using that conc_invD(8) [OF assms] by (auto dest: in_set_takeD in_set_dropD)
  ultimately show ?thesis
    using assms True sap q K(2) by (auto simp: conc_inv_def Let_def)
qed (use assms in simp)

lemma thread_inv:
  assumes "conc_inv env N content ok ops s" and "uint (counter (shared s)) + 1 < 2 ^ 63"
    and "distinct (map snd (draws (thread_step env ch t i s)))"
  shows "conc_inv env N content ok ops (thread_step env ch t i s)"
proof (cases "t < length ops")
  case True
  note T = conc_invD(6) [OF assms(1) True]
  have len: "t < length (threads s)" using True conc_invD(5) [OF assms(1)] by simp
  have fresh: "loads (threads s ! t) \<Longrightarrow> counter (shared s) \<notin> snd ` set (draws s)" using assms(3) len by (auto split: prod.splits)
  show ?thesis
  proof (cases "threads s ! t")
    case (Arrived rq)
    then have a: "threads s ! t = Arrived (request_of (ops ! t))" using T by simp
    show ?thesis
      using get_step_inv [OF assms(1) True a] create_step_inv [OF assms(1) True a _ assms(2)] delete_arrived_inv [OF assms(1) True a]
      by (cases "ops ! t") auto
  next
    case (Drawing rq rp a)
    then show ?thesis using drawn_step_inv [OF assms(1) True Drawing] fresh by simp
  next
    case (Writing cr r names)
    then show ?thesis using index_step_inv [OF assms(1) True _ assms(2)] write_step_inv [OF assms(1) True]
      by (cases names) blast+
  next
    case (Updating cr r)
    then show ?thesis by (rule update_step_inv [OF assms(1) True _ assms(2)])
  next
    case (Reading r)
    then show ?thesis by (rule read_step_inv [OF assms(1) True])
  next
    case (ReadingSince a rs left vs)
    then show ?thesis by (rule since_step_inv [OF assms(1) True])
  next
    case (Deleting keys r names dres)
    then show ?thesis using deleted_step_inv [OF assms(1) True _ assms(2)] delete_step_inv [OF assms(1) True]
      by (cases names) blast+
  next
    case (Removing keys r dres)
    then show ?thesis using removing_step_inv [OF assms(1) True Removing] fresh by simp
  next
    case (Burying keys r dres rv)
    then show ?thesis by (rule bury_step_inv [OF assms(1) True _ assms(2)])
  next
    case (Done res)
    then have "thread_step env ch t i s = s" using len list_update_id [of "threads s" t] by simp
    then show ?thesis using assms(1) by simp
  qed (use T in simp_all)
qed (use assms(1) conc_invD(5) [OF assms(1)] in simp)

end
