(* ===== verification/Linearizability.thy ===== *)
theory Linearizability
  imports Concurrent
begin

text \<open>
  What overlapping requests guarantee. As long as the threads draw different revisions from the
  counter, the service is an atomic register for every key that no request deletes: a get returns
  what some put or update wrote, and the revisions respect the order of requests that do not
  overlap. A get that overlaps with a delete of its key may find the value gone. When two threads draw the same revision,
  a get can return the value of another key.
\<close>

section \<open>Runs\<close>

lemma getValueByRev_counter: "getValueByRev env ch r sv = (res, sv') \<Longrightarrow> counter sv' = counter sv"
  by (auto simp: getValueByRev_def split: prod.splits)

text \<open>No step raises the counter by more than one.\<close>

definition counted :: "uint64 \<Rightarrow> uint64 \<Rightarrow> bool" where
  "counted c c' \<longleftrightarrow> uint c \<le> uint c' \<and> uint c' \<le> uint c + 1"

lemma counted_refl [simp]: "counted c c"
  by (simp add: counted_def)

lemma hstep_counter:
  assumes "uint (counter sv) + 1 < 2 ^ 63" and "hstep env ch i p sv = (p', sv')"
  shows "counted (counter sv) (counter sv')"
proof -
  have suc: "counted (counter sv) (counter sv + 1)" using sint_counter_Suc(2) [OF assms(1)] by (simp add: counted_def)
  note splits = option.splits list.splits result.splits prod.splits if_splits Piping.Piping.splits body.splits
  show ?thesis using assms(2)
  proof (cases rule: hstep.cases [of "(env, ch, i, p, sv)"])
    case (1 env' ch' i' rq sv'')
    then show ?thesis using assms(2) suc
      by (auto simp: get_arrived_def create_arrived_def delete_arrived_def answer_def lock_defs Let_def split: splits)
  next
    case (2 env' ch' i' rq rp a sv'')
    then show ?thesis using assms(2) by (auto simp: create_drawn_eq answer_def Let_def split: splits)
  next
    case (3 env' ch' i' cr r sv'')
    then show ?thesis using assms Put_counter
      by (auto simp: index_step_def answer_def set_index_def counted_def lock_defs Let_def split: splits)
  next
    case (4 env' ch' i' cr r n names sv'')
    then show ?thesis using assms(2) by (auto simp: write_step_def Let_def split: splits)
  next
    case (5 env' ch' i' cr r sv'')
    then show ?thesis using assms(2) by (auto simp: chain_write_step_def answer_def split: splits)
  next
    case (6 env' ch' i' cr r sv'')
    then show ?thesis using assms by (auto simp: update_step_def answer_def set_index_def counted_def Let_def split: splits dest!: put_counter)
  next
    case (7 env' ch' i' r sv'')
    then show ?thesis using assms(2) by (auto simp: read_step_def answer_def split: splits dest: getValueByRev_counter)
  next
    case (8 env' ch' i' a rs left vs sv'')
    then show ?thesis using assms(2) by (cases left) (auto simp: answer_def split: splits dest: getValueByRev_counter)
  next
    case (10 env' ch' i' keys r n names dres sv'')
    then show ?thesis using assms(2) by (auto simp: delete_step_def Let_def split: splits)
  next
    case (11 env' ch' i' keys r sv'')
    then show ?thesis using assms(2) by (auto simp: chain_delete_step_def answer_def split: splits)
  next
    case (13 env' ch' i' keys r dres rv sv'')
    then show ?thesis using assms Tombstone_counter
      by (auto simp: bury_step_def answer_def set_index_def counted_def lock_defs Let_def split: splits)
  qed (use assms(2) suc in auto)
qed

lemma exec_counter:
  assumes "uint (counter (shared s)) + 1 < 2 ^ 63"
  shows "counted (counter (shared s)) (counter (shared (conc_exec env e s)))"
proof (cases e)
  case (Step t ch i)
  then show ?thesis using hstep_counter [OF assms] by (auto split: prod.splits)
next
  case (Job i)
  then show ?thesis by (auto split: prod.splits)
qed

lemma exec_draws: "\<exists>new. draws (conc_exec env e s) = draws s @ new"
  by (cases e) (auto split: prod.splits)

lemma run_draws: "\<exists>new. draws (conc_run env es s) = draws s @ new"
proof (induction es arbitrary: s)
  case (Cons e es)
  obtain n1 n2 where "draws (conc_exec env e s) = draws s @ n1" "draws (conc_run env es (conc_exec env e s)) = draws (conc_exec env e s) @ n2"
    using exec_draws Cons.IH by metis
  then show ?case by (simp add: conc_run_def)
qed (simp add: conc_run_def)

lemma conc_run_simps [simp]:
  "conc_run env [] s = s" "conc_run env (e # es) s = conc_run env es (conc_exec env e s)"
  "conc_run env (es @ es') s = conc_run env es' (conc_run env es s)"
  by (simp_all add: conc_run_def)

text \<open>The rule for properties that every step keeps, along a run whose draws are different.\<close>

lemma conc_induct [consumes 3, case_names start step]:
  assumes "conc_inv env N content ok ops s" and "uint (counter (shared s)) + int (length es) < 2 ^ 63 - 1" and "distinct (map snd (draws (conc_run env es s)))"
    and start: "P s"
    and step: "\<And>e s. conc_inv env N content ok ops s \<Longrightarrow> conc_inv env N content ok ops (conc_exec env e s) \<Longrightarrow>
      uint (counter (shared s)) + 1 < 2 ^ 63 \<Longrightarrow> P s \<Longrightarrow> P (conc_exec env e s)"
  shows "conc_inv env N content ok ops (conc_run env es s) \<and> P (conc_run env es s) \<and>
    uint (counter (shared (conc_run env es s))) \<le> uint (counter (shared s)) + int (length es)"
  using assms(1-4)
proof (induction es arbitrary: s)
  case (Cons e es)
  let ?s' = "conc_exec env e s"
  have c: "uint (counter (shared s)) + 1 < 2 ^ 63" using Cons.prems(2) by simp
  obtain new where "draws (conc_run env es ?s') = draws ?s' @ new" using run_draws by blast
  then have d: "distinct (map snd (draws ?s'))" using Cons.prems(3) by simp
  have inv: "conc_inv env N content ok ops ?s'"
    using thread_inv [OF Cons.prems(1) c] job_inv [OF Cons.prems(1)] d by (cases e) auto
  have cnt: "counted (counter (shared s)) (counter (shared ?s'))" by (rule exec_counter [OF c])
  then have "uint (counter (shared ?s')) + int (length es) < 2 ^ 63 - 1" using Cons.prems(2) by (simp add: counted_def)
  from Cons.IH [OF inv this _ step [OF Cons.prems(1) inv c Cons.prems(4)]] Cons.prems(3) cnt
  show ?case by (simp add: counted_def)
qed simp


section \<open>Requests that do not overlap\<close>

text \<open>The texts of the answers determine the revision.\<close>

lemma FormatInt_no_space: "0 \<le> n \<Longrightarrow> CHR '' '' \<notin> set (FormatInt n)"
  using FormatNat_digits [of "CHR '' ''" "nat n"] by (auto simp: FormatInt_def)

lemma append_space_inj: "c \<notin> set xs \<Longrightarrow> c \<notin> set ys \<Longrightarrow> xs @ c # zs = ys @ c # ws \<Longrightarrow> xs = ys \<and> zs = ws"
  by (induction xs arbitrary: ys) (auto simp: Cons_eq_append_conv)

lemma saved_text_inj:
  assumes "saved_text k v n a = saved_text k v n' a'" and "0 < n" and "n < 2 ^ 63" and "0 < n'" and "n' < 2 ^ 63"
  shows "n = n'"
proof -
  have "FormatInt n @ CHR '' '' # (''at '' @ a @ newline) = FormatInt n' @ CHR '' '' # (''at '' @ a' @ newline)"
    using assms(1) by (simp add: saved_text_def)
  then have "FormatInt n = FormatInt n'" using append_space_inj FormatInt_no_space assms(2,4) by (metis less_imp_le)
  then show ?thesis using FormatInt_eq_iff assms(2-5) by blast
qed

lemma value_text_inj:
  assumes "value_text v n = value_text v' n'" and "0 < n" and "n < 2 ^ 63" and "0 < n'" and "n' < 2 ^ 63"
  shows "n = n'"
proof -
  have "List.rev (value_text v n) = List.rev (value_text v' n')" using assms(1) by simp
  then have "(newline @ List.rev (FormatInt n)) @ CHR '' '' # List.rev (''The value is '' @ v @ '' with the revision'') =
      (newline @ List.rev (FormatInt n')) @ CHR '' '' # List.rev (''The value is '' @ v' @ '' with the revision'')"
    by (simp add: value_text_def newline_def)
  then have "newline @ List.rev (FormatInt n) = newline @ List.rev (FormatInt n')"
    by (rule append_space_inj [rotated 2, THEN conjunct1]) (use FormatInt_no_space [of n] FormatInt_no_space [of n'] assms(2,4) in \<open>auto simp: newline_def\<close>)
  then show ?thesis using FormatInt_eq_iff assms(2-5) by simp
qed

text \<open>The thread \<open>t\<close> is done and its answer names the revision \<open>n\<close> of the key \<open>k\<close>.\<close>

definition reports :: "svc_op list \<Rightarrow> 's conc \<Rightarrow> nat \<Rightarrow> string \<Rightarrow> int \<Rightarrow> bool" where
  "reports ops s t k n \<longleftrightarrow> t < length ops \<and> 0 < n \<and> n < 2 ^ 63 \<and>
     ((\<exists>v at. writes (ops ! t) = Some (k, v) \<and> threads s ! t = Done (Ok (Response 201 (saved_text k v n at)))) \<or>
      (\<exists>v. ops ! t = SGet k \<and> threads s ! t = Done (Ok (Response 202 (value_text v n)))))"

lemma reports_indexed:
  assumes "conc_inv env N content ok ops s" and "reports ops s t k n"
  obtains r q where "r \<in> ti_revs (indexTree (handler (shared s))) k" and "sint (main r) = n" and "drawn (draws s) q r"
    and "writes (ops ! t) \<noteq> None \<longrightarrow> q = t"
proof -
  let ?R = "ti_revs (indexTree (handler (shared s)))"
  have t: "t < length ops" "0 < n" "n < 2 ^ 63" using assms(2) by (simp_all add: reports_def)
  note T = conc_invD(6) [OF assms(1) t(1)]
  have b: "0 < sint (main r) \<and> sint (main r) < 2 ^ 63" if "drawn (draws s) q r" for q r
    using draws_okD(2,4) [OF conc_invD(4) [OF assms(1)], of q "main r"] that by (simp add: drawn_def)
  consider v a where "writes (ops ! t) = Some (k, v)" "threads s ! t = Done (Ok (Response 201 (saved_text k v n a)))"
    | v where "ops ! t = SGet k" "threads s ! t = Done (Ok (Response 202 (value_text v n)))"
    using assms(2) by (auto simp: reports_def)
  then show thesis
  proof cases
    case (1 v a)
    then obtain r where r: "r \<in> ?R k" "drawn (draws s) t r" "saved_text k v n a = saved_text k v (sint (main r)) (Join (nodes r) '','')"
      using T by (auto simp: not_found_def not_latest_def)
    then show thesis using that saved_text_inj [OF r(3) t(2,3)] b [OF r(2)] by metis
  next
    case (2 v)
    then obtain r q v' where r: "r \<in> ?R k" "drawn (draws s) q r" "value_text v n = value_text v' (sint (main r))"
      using T by (auto simp: not_found_def missing_answers_def)
    then show thesis using that value_text_inj [OF r(3) t(2,3)] b [OF r(2)] 2(1) by (metis writes.simps(3))
  qed
qed

text \<open>The index only grows.\<close>

lemma hstep_loads:
  assumes "hstep env ch i p sv = (p', sv')" and "loads p'"
  shows "sv' = sv\<lparr>counter := counter sv + 1\<rparr>"
proof -
  note splits = option.splits list.splits result.splits prod.splits if_splits Piping.Piping.splits body.splits
  note defs = get_arrived_def create_arrived_def delete_arrived_def create_drawn_eq index_step_def write_step_def chain_write_step_def
    update_step_def read_step_def delete_step_def chain_delete_step_def bury_step_def answer_def lock_defs Let_def
  show ?thesis using assms
  proof (cases rule: hstep.cases [of "(env, ch, i, p, sv)"])
    case (8 env' ch' i' a rs left vs sv'')
    then show ?thesis using assms by (cases left) (auto simp: answer_def split: splits)
  qed (auto simp: defs split: splits)
qed

lemma exec_revs:
  assumes "conc_inv env N content ok ops s"
  shows "ti_revs (indexTree (handler (shared s))) k \<subseteq> ti_revs (indexTree (handler (shared (conc_exec env e s)))) k"
proof (cases e)
  case (Step t ch i)
  let ?sv = "shared s" and ?ti = "indexTree (handler (shared s))"
  show ?thesis
  proof (cases "t < length ops")
    case True
    note T = conc_invD(6) [OF assms True]
    obtain p' sv' where h: "hstep env ch i (threads s ! t) ?sv = (p', sv')" by force
    note splits = option.splits list.splits result.splits prod.splits if_splits Piping.Piping.splits body.splits
    have put: "ti_revs ?ti k \<subseteq> ti_revs (indexTree (handler sv')) k"
      if "Put ?ti k' r c = (indexTree (handler sv'), c')" "drawn (draws s) t r" "written N (content (wd ?sv)) r v []" for k' r c c' v
      using Put_fit(2) [OF conc_invD(2) [OF assms] _ _ that(1)] that(2,3)
        draws_okD(2) [OF conc_invD(4) [OF assms], of t "main r"] by (auto simp: drawn_def written_def)
    have read: "handler sv2 = handler sv1" if "getValueByRev env ch r sv1 = (x, sv2)" for r sv1 x sv2
      using that by (auto simp: getValueByRev_def split: prod.splits)
    have "ti_revs ?ti k \<subseteq> ti_revs (indexTree (handler sv')) k"
    proof (cases "threads s ! t")
      case (Arrived rq)
      then show ?thesis using h T
        by (cases "ops ! t") (auto simp: get_arrived_def create_arrived_def delete_arrived_def answer_def lock_defs Let_def split: splits)
    next
      case (Writing cr r names)
      then show ?thesis using h T put [of "c_key cr" r "counter ?sv" _ "c_value cr"]
        by (cases names) (auto simp: index_step_unlocked [OF conc_invD(10) [OF assms]] write_step_def answer_def set_index_def Let_def split: splits)
    next
      case (Updating cr r)
      then show ?thesis using h T put [of "c_key cr" r "counter ?sv" _ "c_value cr"]
        by (auto simp: update_step_def answer_def set_index_def Put_def split: splits)
    next
      case (Deleting keys r names dres)
      then show ?thesis using h by (cases names) (auto simp: delete_step_def Let_def split: splits)
    next
      case (Burying keys r dres rv)
      then obtain k' where k': "keys = [k']" "ops ! t = SDelete k'" "(t, rv) \<in> set (draws s)" using T by auto
      have "SDelete k' \<in> set ops" using k'(2) True by (metis nth_mem)
      moreover have "main (NewRevision rv (sub r) []) \<noteq> 0" using draws_okD(2) [OF conc_invD(4) [OF assms] k'(3)] by auto
      ultimately show ?thesis using h Burying k'(1) Tombstone_fit(2) [OF conc_invD(2) [OF assms], of k'] conc_invD(10) [OF assms]
        by (auto simp: bury_step_def answer_def set_index_def Let_def split: splits)
    next
      case (ReadingSince a rs left vs)
      then show ?thesis using h by (cases left) (auto simp: answer_def split: splits dest!: read)
    qed (use h T in \<open>auto simp: create_drawn_eq read_step_def answer_def Let_def split: splits dest!: read\<close>)
    then show ?thesis using h Step True conc_invD(5) [OF assms] by simp
  qed (use Step conc_invD(5) [OF assms] in simp)
next
  case (Job i)
  then show ?thesis by (auto split: prod.splits)
qed


text \<open>The answer of a get with a revision not below \<open>n\<close>.\<close>

definition answers_since :: "svc_op list \<Rightarrow> 's conc \<Rightarrow> string \<Rightarrow> int \<Rightarrow> response result \<Rightarrow> bool" where
  "answers_since ops s k n res \<longleftrightarrow> (\<exists>r \<in> ti_revs (indexTree (handler (shared s))) k. \<exists>q v. n \<le> sint (main r) \<and> q < length ops \<and>
     writes (ops ! q) = Some (k, v) \<and> drawn (draws s) q r \<and> res = Ok (Response 202 (value_text v (sint (main r)))))"

text \<open>What holds of a thread \<open>g\<close> that begins after the revision \<open>n\<close> of \<open>k\<close> was reported.\<close>

fun late_pc :: "svc_op list \<Rightarrow> 's conc \<Rightarrow> string \<Rightarrow> int \<Rightarrow> nat \<Rightarrow> pc \<Rightarrow> bool" where
  "late_pc ops s k n g (Drawing rq rp a) \<longleftrightarrow> n < uint (counter (shared s))"
| "late_pc ops s k n g (Removing keys r dres) \<longleftrightarrow> n < uint (counter (shared s))"
| "late_pc ops s k n g (Reading r) \<longleftrightarrow> (ops ! g = SGet k \<longrightarrow> n \<le> sint (main r))"
| "late_pc ops s k n g (Done res) \<longleftrightarrow> (ops ! g = SGet k \<longrightarrow> answers_since ops s k n res)"
| "late_pc ops s k n g _ \<longleftrightarrow> True"

definition late :: "svc_op list \<Rightarrow> string \<Rightarrow> int \<Rightarrow> nat \<Rightarrow> 's conc \<Rightarrow> bool" where
  "late ops k n g s \<longleftrightarrow> (\<exists>r \<in> ti_revs (indexTree (handler (shared s))) k. n \<le> sint (main r)) \<and> n \<le> uint (counter (shared s)) \<and>
     (\<forall>c. (g, c) \<in> set (draws s) \<longrightarrow> n < uint c) \<and> late_pc ops s k n g (threads s ! g)"

lemma late_pc_stable:
  assumes "conc_inv env N content ok ops s" and "s' = conc_exec env e s"
    and "counted (counter (shared s)) (counter (shared s'))" and "late_pc ops s k n g p"
  shows "late_pc ops s' k n g p"
proof (cases p)
  case (Done res)
  obtain new where new: "draws s' = draws s @ new" using exec_draws assms(2) by blast
  have R: "ti_revs (indexTree (handler (shared s))) k \<subseteq> ti_revs (indexTree (handler (shared s'))) k"
    unfolding assms(2) by (rule exec_revs [OF assms(1)])
  have "answers_since ops s' k n res" if "answers_since ops s k n res"
    using that R drawn_mono unfolding answers_since_def new by blast
  then show ?thesis using Done assms(4) by simp
qed (use assms(3,4) in \<open>auto simp: counted_def\<close>)

text \<open>The own steps of such a thread.\<close>

lemma late_own_step:
  assumes "conc_inv env N content ok ops s" and "SDelete k \<notin> set ops" and "g < length ops" and "late ops k n g s"
    and "uint (counter (shared s)) + 1 < 2 ^ 63"
  shows "late_pc ops (thread_step env ch g i s) k n g (threads (thread_step env ch g i s) ! g)"
proof -
  let ?s' = "thread_step env ch g i s" and ?sv = "shared s" and ?ti = "indexTree (handler (shared s))"
  note T = conc_invD(6) [OF assms(1,3)]
  have len: "g < length (threads s)" using assms(3) conc_invD(5) [OF assms(1)] by simp
  obtain p' sv' where h: "hstep env ch i (threads s ! g) ?sv = (p', sv')" by force
  have s': "threads ?s' ! g = p'" "shared ?s' = sv'" using h len by simp_all
  note splits = option.splits list.splits result.splits prod.splits if_splits Piping.Piping.splits body.splits
  have c: "counted (counter ?sv) (counter sv')" by (rule hstep_counter [OF assms(5) h])
  have lt: "n \<le> uint (counter ?sv)" using assms(4) by (simp add: late_def)
  show ?thesis
  proof (cases "ops ! g = SGet k")
    case False
    have "loads p' \<longrightarrow> n < uint (counter sv')" using hstep_loads [OF h] lt sint_counter_Suc(2) [OF assms(5)] by auto
    then show ?thesis using s' False by (cases p') auto
  next
    case True
    then consider rq where "threads s ! g = Arrived rq" | r where "threads s ! g = Reading r" | res where "threads s ! g = Done res"
      using T by (cases "threads s ! g") (auto simp: create_ok_def)
    then show ?thesis
    proof cases
      case 1
      then have rq: "rq = request_of (SGet k)" using T True by simp
      obtain r0 where r0: "r0 \<in> ti_revs ?ti k" "n \<le> sint (main r0)" using assms(4) by (auto simp: late_def)
      obtain r cr v where g: "Get ?ti k 0 = Ok (r, cr, v)" "\<forall>q \<in> ti_revs ?ti k. sint (main q) \<le> sint (main r)"
        using r0(1) assms(2) by (cases rule: Get_fit [OF conc_invD(2) [OF assms(1)], of k]) auto
      then have "p' = Reading r" using h 1 rq conc_invD(10) [OF assms(1)] by (simp add: get_arrived_def)
      then show ?thesis using s' g(2) r0 by force
    next
      case (2 r)
      then have r: "r \<in> ti_revs ?ti k" "n \<le> sint (main r)" using T True assms(4) by (auto simp: late_def)
      obtain res sv2 where v: "getValueByRev env ch r ?sv = (res, sv2)" by force
      obtain w1 q v where w: "sv2 = ?sv\<lparr>wd := w1\<rparr>" "q < length ops" "writes (ops ! q) = Some (k, v)" "drawn (draws s) q r" "res = Ok v"
        by (rule read_inv [OF assms(1) r(1) v]) (use assms(2) in auto)
      then have p: "p' = Done (Ok (Response 202 (value_text v (sint (main r)))))" "sv' = sv2"
        using h 2 v by (simp_all add: read_step_def answer_def respond_def value_text_def Revision_String_def)
      have "draws ?s' = draws s" using 2 h len by simp
      then have "answers_since ops ?s' k n (Ok (Response 202 (value_text v (sint (main r)))))"
        unfolding answers_since_def s'(2) using w p(2) r by auto
      then show ?thesis using s'(1) p(1) by simp
    next
      case (3 res)
      then have "?s' = s" using len list_update_id [of "threads s" g] by simp
      then show ?thesis using assms(4) by (simp add: late_def)
    qed
  qed
qed

lemma late_step:
  assumes "conc_inv env N content ok ops s" and "SDelete k \<notin> set ops" and "g < length ops"
    and "uint (counter (shared s)) + 1 < 2 ^ 63" and "late ops k n g s"
  shows "late ops k n g (conc_exec env e s)"
proof -
  let ?s' = "conc_exec env e s"
  have c: "counted (counter (shared s)) (counter (shared ?s'))" by (rule exec_counter [OF assms(4)])
  have L: "n \<le> uint (counter (shared s))" "late_pc ops s k n g (threads s ! g)" "\<forall>c. (g, c) \<in> set (draws s) \<longrightarrow> n < uint c"
    using assms(5) by (simp_all add: late_def)
  have len: "g < length (threads s)" using assms(3) conc_invD(5) [OF assms(1)] by simp
  have "n < uint c" if d: "(g, c) \<in> set (draws ?s')" for c
  proof (cases "(g, c) \<in> set (draws s)")
    case False
    then obtain ch i where "e = Step g ch i" "loads (threads s ! g)" "c = counter (shared s)"
      using d by (cases e) (auto split: prod.splits if_splits)
    then show ?thesis using L(2) by (cases "threads s ! g") auto
  qed (use L(3) in blast)
  moreover have "late_pc ops ?s' k n g (threads ?s' ! g)"
  proof (cases "\<exists>ch i. e = Step g ch i")
    case True
    then show ?thesis using late_own_step [OF assms(1-3,5,4)] by auto
  next
    case False
    then have "threads ?s' ! g = threads s ! g" by (cases e) (auto split: prod.splits)
    then show ?thesis using late_pc_stable [OF assms(1) refl c L(2)] by simp
  qed
  moreover have "\<exists>r \<in> ti_revs (indexTree (handler (shared ?s'))) k. n \<le> sint (main r)"
    using assms(5) exec_revs [OF assms(1), of k e] by (auto simp: late_def)
  ultimately show ?thesis using L(1) c by (simp add: late_def counted_def)
qed


section \<open>Properties\<close>

text \<open>All threads have arrived at the service as the program starts it.\<close>

definition conc_booted :: "'s env \<Rightarrow> svc_op list \<Rightarrow> 's conc \<Rightarrow> bool" where
  "conc_booted env ops s \<longleftrightarrow> (\<exists>probe iter h w store up.
     deployment_ok env probe \<and> NewKeyValueHandler env probe iter = Ok h \<and> (\<forall>ls. mset (iter ls) = mset ls) \<and>
     backend_ok env store up w \<and> s = conc_start ops (booted h w))"

lemma conc_booted_inv:
  assumes "conc_booted env ops s"
  obtains content ok where "conc_inv env (store_names env) content ok ops s" and "uint (counter (shared s)) = 0"
proof -
  obtain probe iter h w store up where a: "deployment_ok env probe" "NewKeyValueHandler env probe iter = Ok h"
      "\<forall>ls. mset (iter ls) = mset ls" "backend_ok env store up w" and s: "s = conc_start ops (booted h w)"
    using assms unfolding conc_booted_def by blast
  obtain content ok where c: "store_contract (env_conf env) (env_api env) (conf_StoreType (env_conf env)) content ok"
    and n: "\<forall>n \<in> store_names env. ok n w" by (rule backend_contract [OF a(4)])
  have "service_ok env (store_names env) content ok h"
    using svc_invD(1) [OF booted_inv [OF a(1-3) c n]] by (simp add: booted_def)
  moreover have "indexTree h = NewTreeIndex"
    using a(2) by (auto simp: NewKeyValueHandler_def Let_def split: result.splits prod.splits if_splits)
  ultimately have "conc_inv env (store_names env) content ok ops s"
    using n by (auto simp: conc_inv_def Let_def s conc_start_def booted_def ti_fit_def ti_ok_def ti_revs_def NewTreeIndex_def tree_ok_def draws_ok_def)
  then show thesis using that s by (simp add: conc_start_def booted_def)
qed

lemma indexed_done:
  assumes "conc_inv env N content ok ops s" and "r \<in> ti_revs (indexTree (handler (shared s))) k"
    and "writes (ops ! q) = Some (k, v)" and "drawn (draws s) q r"
  shows "threads s ! q = Done (saved_answer k v r)"
proof -
  obtain t v' where t: "writes (ops ! t) = Some (k, v')" "drawn (draws s) t r" "threads s ! t = Done (saved_answer k v' r)"
    using conc_invD(7) [OF assms(1,2)] by (auto simp: indexed_def)
  then have "q = t" using drawn_unique(1) [OF conc_invD(4) [OF assms(1)], of q "main r" t "main r"] assms(4) by (simp add: drawn_def)
  then show ?thesis using t assms(3) by simp
qed

text \<open>C2: Overlapping requests answer like an atomic register for each key that none of them deletes, as long as no two
  requests draw the same revision. When a request that begins after another one has reported the
  revision \<open>n\<close> of the key is done: a get returns a revision not below \<open>n\<close>, with the value of the put or update
  that saved this revision; a put or update that is accepted saves a larger revision than \<open>n\<close>. The requests, deletes of other keys among them, interleave in
  any way, down to single accesses to the counter, the index and the stores.\<close>

theorem overlapping_requests_atomic:
  assumes "conc_booted env ops s0" and "SDelete k \<notin> set ops" and "int (length (es1 @ es2)) < 2 ^ 63 - 1"
    and "s1 = conc_run env es1 s0" and "s2 = conc_run env es2 s1" and "distinct (map snd (draws s2))"
    and "reports ops s1 p k n" and "g < length ops" and "threads s1 ! g = Arrived (request_of (ops ! g))" and "threads s2 ! g = Done res"
  shows "(ops ! g = SGet k \<longrightarrow> (\<exists>q v n' at. n \<le> n' \<and> res = Ok (Response 202 (value_text v n')) \<and>
      writes (ops ! q) = Some (k, v) \<and> threads s2 ! q = Done (Ok (Response 201 (saved_text k v n' at))))) \<and>
    (\<forall>n'. writes (ops ! g) \<noteq> None \<and> reports ops s2 g k n' \<longrightarrow> n < n')"
proof -
  obtain content ok where i0: "conc_inv env (store_names env) content ok ops s0" and c0: "uint (counter (shared s0)) = 0"
    by (rule conc_booted_inv [OF assms(1)])
  obtain new where "draws s2 = draws s1 @ new" using run_draws assms(5) by blast
  then have d1: "distinct (map snd (draws s1))" using assms(6) by simp
  have "conc_inv env (store_names env) content ok ops s1 \<and> True \<and> uint (counter (shared s1)) \<le> uint (counter (shared s0)) + int (length es1)"
    unfolding assms(4) by (rule conc_induct [OF i0]) (use c0 assms(3) d1 assms(4) in simp_all)
  then have i1: "conc_inv env (store_names env) content ok ops s1" and c1: "uint (counter (shared s1)) \<le> int (length es1)"
    using c0 by simp_all
  obtain r q where r: "r \<in> ti_revs (indexTree (handler (shared s1))) k" "sint (main r) = n" "drawn (draws s1) q r"
    by (rule reports_indexed [OF i1 assms(7)])
  have "g \<notin> fst ` set (draws s1)" using conc_invD(6) [OF i1 assms(8)] assms(9) by simp
  then have "late ops k n g s1"
    using r assms(9) draws_okD(3) [OF conc_invD(4) [OF i1], of q "main r"] by (force simp: late_def drawn_def)
  then have "conc_inv env (store_names env) content ok ops s2 \<and> late ops k n g s2 \<and>
      uint (counter (shared s2)) \<le> uint (counter (shared s1)) + int (length es2)"
    unfolding assms(5)
    by (intro conc_induct [OF i1] late_step [OF _ assms(2,8)]) (use c1 assms(3,5,6) in simp_all)
  then have i2: "conc_inv env (store_names env) content ok ops s2" and l2: "late ops k n g s2" by simp_all
  show ?thesis
  proof (intro conjI impI allI)
    assume "ops ! g = SGet k"
    then have "answers_since ops s2 k n res" using l2 assms(10) by (simp add: late_def)
    then obtain r' q v where "r' \<in> ti_revs (indexTree (handler (shared s2))) k" "n \<le> sint (main r')" "writes (ops ! q) = Some (k, v)"
        "drawn (draws s2) q r'" "res = Ok (Response 202 (value_text v (sint (main r'))))"
      unfolding answers_since_def by blast
    with indexed_done [OF i2] show "\<exists>q v n' at. n \<le> n' \<and> res = Ok (Response 202 (value_text v n')) \<and>
        writes (ops ! q) = Some (k, v) \<and> threads s2 ! q = Done (Ok (Response 201 (saved_text k v n' at)))" by blast
  next
    fix n' assume w: "writes (ops ! g) \<noteq> None \<and> reports ops s2 g k n'"
    obtain r' q where r': "sint (main r') = n'" "drawn (draws s2) q r'" "writes (ops ! g) \<noteq> None \<longrightarrow> q = g"
      by (rule reports_indexed [OF i2 conjunct2 [OF w]])
    then have d: "(g, main r') \<in> set (draws s2)" using w by (simp add: drawn_def)
    then have "n < uint (main r')" using l2 by (simp add: late_def)
    then show "n < n'" using r'(1) draws_okD(5) [OF conc_invD(4) [OF i2] d] by simp
  qed
qed

text \<open>C10: Whatever overlaps, as long as no two requests draw the same revision: no request panics; a
  get that is done answers that the key is not there, or returns a value that a put or update of this key
  has saved, with its revision, or, when there is a delete of the key among the requests, that the value of this revision is gone;
  a put is saved, an update is saved or refused; a delete answers that the key is not there or names the stores of a saved version of the key.\<close>

theorem overlapping_reads_are_written:
  assumes "conc_booted env ops s0" and "int (length es) < 2 ^ 63 - 1"
    and "s = conc_run env es s0" and "distinct (map snd (draws s))" and "g < length ops" and "threads s ! g = Done res"
  shows "(\<forall>p. res \<noteq> Panic p) \<and>
    (\<forall>k. ops ! g = SGet k \<longrightarrow> res = Ok not_found \<or>
      (\<exists>q v n at. writes (ops ! q) = Some (k, v) \<and> threads s ! q = Done (Ok (Response 201 (saved_text k v n at))) \<and>
        (res = Ok (Response 202 (value_text v n)) \<or> SDelete k \<in> set ops \<and> res \<in> missing_answers n))) \<and>
    (\<forall>k v. writes (ops ! g) = Some (k, v) \<longrightarrow> res \<in> {Ok not_latest, Ok not_found} \<or>
      (\<exists>n at. 0 < n \<and> res = Ok (Response 201 (saved_text k v n at)))) \<and>
    (\<forall>k. ops ! g = SDelete k \<longrightarrow> res = Ok not_found \<or>
      (\<exists>q v n ns. writes (ops ! q) = Some (k, v) \<and> threads s ! q = Done (Ok (Response 201 (saved_text k v n (Join ns '','')))) \<and>
        res = Ok (Response 202 (''The key '' @ fmt_slice [k] @ '' has been removed at '' @ fmt_slice ns @ newline))))"
proof -
  obtain content ok where i0: "conc_inv env (store_names env) content ok ops s0" and c0: "uint (counter (shared s0)) = 0"
    by (rule conc_booted_inv [OF assms(1)])
  have "conc_inv env (store_names env) content ok ops s \<and> True \<and> uint (counter (shared s)) \<le> uint (counter (shared s0)) + int (length es)"
    unfolding assms(3) by (rule conc_induct [OF i0]) (use c0 assms(2-4) in simp_all)
  then have i: "conc_inv env (store_names env) content ok ops s" by simp
  let ?R = "ti_revs (indexTree (handler (shared s)))"
  note T = conc_invD(6) [OF i assms(5), unfolded assms(6) thread_ok.simps]
  have pos: "0 < sint (main r)" if "drawn (draws s) q r" for q r
    using draws_okD(2) [OF conc_invD(4) [OF i], of q "main r"] that by (simp add: drawn_def)
  have "\<exists>q v. writes (ops ! q) = Some (k, v) \<and> threads s ! q = Done (saved_answer k v r)" if "r \<in> ?R k" for k r
    using conc_invD(7) [OF i that] by (auto simp: indexed_def)
  then have del: "\<exists>q v n ns. writes (ops ! q) = Some (k, v) \<and> threads s ! q = Done (Ok (Response 201 (saved_text k v n (Join ns '','')))) \<and>
      res = Ok (Response 202 (''The key '' @ fmt_slice [k] @ '' has been removed at '' @ fmt_slice ns @ newline))"
    if "r \<in> ?R k" "res = removed_answer k r" for k r
    using that by blast
  show ?thesis using T indexed_done [OF i] pos del by meson
qed

definition turn :: "nat \<Rightarrow> cevent" where
  "turn t = Step t plain_choices 0"

definition demo_ops :: "svc_op list" where
  "demo_ops = [SPut ''k'' ''v'', SGet ''k'', SPut ''k'' ''w'', SDelete ''m'']"

definition demo_delete :: "svc_op list" where
  "demo_delete = [SPut ''k'' ''v'', SGet ''k'', SDelete ''k'']"

lemma demo_booted:
  assumes "case NewKeyValueHandler mem_env mem_probe List.rev of Ok h \<Rightarrow> P (conc_start ops (booted h empty_world)) | _ \<Rightarrow> False"
  obtains s where "conc_booted mem_env ops s" and "P s"
proof -
  obtain h where h: "NewKeyValueHandler mem_env mem_probe List.rev = Ok h" "P (conc_start ops (booted h empty_world))"
    using assms by (auto split: result.splits)
  have "backend_ok mem_env (\<lambda>_ _ _. None) (\<lambda>_ _. True) empty_world" by (simp add: backend_ok_def mem_env_def)
  moreover have "\<forall>ls. mset (List.rev ls) = mset ls" by simp
  ultimately have "conc_booted mem_env ops (conc_start ops (booted h empty_world))"
    unfolding conc_booted_def using mem_env_ok h(1) by blast
  then show thesis using that h(2) by blast
qed

theorem overlapping_requests_atomic_witness:
  "\<exists>s0 s2 res q v n' at. conc_booted mem_env demo_ops s0 \<and>
     s2 = conc_run mem_env (map turn [0, 0, 0, 0, 0, 0, 1, 2, 2, 2, 3, 1, 2, 2, 2]) s0 \<and> threads s2 ! 1 = Done res \<and>
     1 \<le> n' \<and> res = Ok (Response 202 (value_text v n')) \<and> threads s2 ! q = Done (Ok (Response 201 (saved_text ''k'' v n' at)))"
proof -
  let ?es1 = "map turn [0, 0, 0, 0, 0, 0]" and ?es2 = "map turn [1, 2, 2, 2, 3, 1, 2, 2, 2]"
  let ?P = "\<lambda>s0. let s1 = conc_run mem_env ?es1 s0; s2 = conc_run mem_env ?es2 s1 in
    threads s1 ! 0 = Done (Ok (Response 201 (saved_text ''k'' ''v'' 1 ''a,bb,ccc''))) \<and> threads s1 ! 1 = Arrived (request_of (SGet ''k'')) \<and>
    distinct (map snd (draws s2)) \<and> (case threads s2 ! 1 of Done _ \<Rightarrow> True | _ \<Rightarrow> False)"
  have "case NewKeyValueHandler mem_env mem_probe List.rev of Ok h \<Rightarrow> ?P (conc_start demo_ops (booted h empty_world)) | _ \<Rightarrow> False"
    by code_simp
  then obtain s0 where s0: "conc_booted mem_env demo_ops s0" and e: "?P s0" by (rule demo_booted)
  define s1 s2 where "s1 = conc_run mem_env ?es1 s0" and "s2 = conc_run mem_env ?es2 s1"
  have e: "threads s1 ! 0 = Done (Ok (Response 201 (saved_text ''k'' ''v'' 1 ''a,bb,ccc'')))" "threads s1 ! 1 = Arrived (request_of (demo_ops ! 1))"
      "distinct (map snd (draws s2))" "case threads s2 ! 1 of Done _ \<Rightarrow> True | _ \<Rightarrow> False"
    using e by (simp_all add: s1_def s2_def Let_def demo_ops_def del: request_of.simps)
  then obtain res where res: "threads s2 ! 1 = Done res" by (auto split: pc.splits)
  have "reports demo_ops s1 0 ''k'' 1" using e(1) by (auto simp: reports_def demo_ops_def)
  moreover have "SDelete ''k'' \<notin> set demo_ops" "1 < length demo_ops" "demo_ops ! 1 = SGet ''k''" by (simp_all add: demo_ops_def)
  moreover have "int (length (?es1 @ ?es2)) < 2 ^ 63 - 1" by simp
  ultimately obtain q v n' at where "1 \<le> n'" "res = Ok (Response 202 (value_text v n'))"
      "threads s2 ! q = Done (Ok (Response 201 (saved_text ''k'' v n' at)))"
    using overlapping_requests_atomic [OF s0 _ _ s1_def s2_def e(3) _ _ e(2) res, of "''k''" 0 1] by blast
  then show ?thesis using s0 res by (simp add: s1_def s2_def) blast
qed

theorem overlapping_reads_are_written_witness:
  "\<exists>s0 s res q v n at. conc_booted mem_env demo_delete s0 \<and>
     s = conc_run mem_env (map turn [0, 0, 0, 0, 0, 0, 1, 2, 2, 2, 2, 2, 2, 2, 1]) s0 \<and> threads s ! 1 = Done res \<and>
     res = Ok (Response 500 (''key not found'' @ newline)) \<and> res \<in> missing_answers n \<and>
     threads s ! q = Done (Ok (Response 201 (saved_text ''k'' v n at)))"
proof -
  let ?es = "map turn [0, 0, 0, 0, 0, 0, 1, 2, 2, 2, 2, 2, 2, 2, 1]" and ?res = "Ok (Response 500 (''key not found'' @ newline))"
  let ?P = "\<lambda>s0. let s = conc_run mem_env ?es s0 in distinct (map snd (draws s)) \<and> threads s ! 1 = Done ?res"
  have "case NewKeyValueHandler mem_env mem_probe List.rev of Ok h \<Rightarrow> ?P (conc_start demo_delete (booted h empty_world)) | _ \<Rightarrow> False"
    by code_simp
  then obtain s0 where s0: "conc_booted mem_env demo_delete s0" and e: "?P s0" by (rule demo_booted)
  define s where "s = conc_run mem_env ?es s0"
  have d: "distinct (map snd (draws s))" and res: "threads s ! 1 = Done ?res" using e by (simp_all add: s_def Let_def)
  have o: "1 < length demo_delete" "demo_delete ! 1 = SGet ''k''" "int (length ?es) < 2 ^ 63 - 1" by (simp_all add: demo_delete_def)
  have "?res \<noteq> Ok not_found" "?res \<noteq> Ok (Response 202 x)" for x by (simp_all add: not_found_def)
  then obtain q v n at where "threads s ! q = Done (Ok (Response 201 (saved_text ''k'' v n at)))" "?res \<in> missing_answers n"
    using overlapping_reads_are_written [OF s0 o(3) s_def d o(1) res] o(2) by blast
  then show ?thesis using s0 res s_def by blast
qed

text \<open>C11: The proviso is needed. Two puts of different keys that overlap between the add and the load of the
  counter draw the same revision; the second overwrites the value of the first in the stores, and a
  later get of the first key returns the value that was put for the other key.\<close>

theorem overlapping_puts_mix_values:
  "\<exists>s0 s at at'. conc_booted mem_env [SPut ''a'' ''x'', SPut ''b'' ''y'', SGet ''a''] s0 \<and>
     s = conc_run mem_env (map turn [0, 1, 0, 1, 0, 1, 0, 1, 0, 1, 0, 1, 2, 2]) s0 \<and>
     threads s = [Done (Ok (Response 201 (saved_text ''a'' ''x'' 2 at))), Done (Ok (Response 201 (saved_text ''b'' ''y'' 2 at'))),
       Done (Ok (Response 202 (value_text ''y'' 2)))]"
proof -
  let ?ops = "[SPut ''a'' ''x'', SPut ''b'' ''y'', SGet ''a'']" and ?es = "map turn [0, 1, 0, 1, 0, 1, 0, 1, 0, 1, 0, 1, 2, 2]"
  let ?P = "\<lambda>s0. threads (conc_run mem_env ?es s0) = [Done (Ok (Response 201 (saved_text ''a'' ''x'' 2 ''a,bb,ccc''))),
    Done (Ok (Response 201 (saved_text ''b'' ''y'' 2 ''a,bb,ccc''))), Done (Ok (Response 202 (value_text ''y'' 2)))]"
  have "case NewKeyValueHandler mem_env mem_probe List.rev of Ok h \<Rightarrow> ?P (conc_start ?ops (booted h empty_world)) | _ \<Rightarrow> False"
    by code_simp
  then obtain s0 where "conc_booted mem_env ?ops s0" "?P s0" by (rule demo_booted)
  then show ?thesis by blast
qed


text \<open>For evaluation the numbers that \<^verbatim>\<open>strconv\<close> compares with its limits are integers: a natural number is built from
  its successors, which takes too long beyond \<open>2 ^ 63\<close>.\<close>

lemma ParseUint_loop_code [code]:
  "ParseUint_loop n [] = Inr n"
  "ParseUint_loop n (c # cs) =
     (let d = (of_char c :: nat) in
      if d < 48 \<or> 57 < d then Inl ErrSyntax
      else if 18446744073709551616 \<le> 10 * int n + (int d - 48) then Inl ErrRange
      else ParseUint_loop (10 * n + (d - 48)) cs)"
proof -
  have "2 ^ 64 \<le> 10 * n + (d - 48) \<longleftrightarrow> 18446744073709551616 \<le> 10 * int n + (int d - 48)"
    if "48 \<le> d" for d :: nat
  proof -
    have "2 ^ 64 \<le> 10 * n + (d - 48) \<longleftrightarrow> int (2 ^ 64) \<le> int (10 * n + (d - 48))" by (simp only: of_nat_le_iff)
    also have "\<dots> \<longleftrightarrow> 18446744073709551616 \<le> 10 * int n + (int d - 48)" using that by (simp add: of_nat_diff)
    finally show ?thesis .
  qed
  then show "ParseUint_loop n (c # cs) =
     (let d = (of_char c :: nat) in
      if d < 48 \<or> 57 < d then Inl ErrSyntax
      else if 18446744073709551616 \<le> 10 * int n + (int d - 48) then Inl ErrRange
      else ParseUint_loop (10 * n + (d - 48)) cs)" by (simp only: ParseUint_loop.simps Let_def) (simp add: not_less)
qed simp

lemma ParseInt_as_code [code]:
  "ParseInt_as fn s0 =
     (let neg = (case s0 of [] \<Rightarrow> False | c # _ \<Rightarrow> c = CHR ''-'');
          s = (case s0 of [] \<Rightarrow> [] | c # cs \<Rightarrow> if c = CHR ''+'' \<or> c = CHR ''-'' then cs else s0)
      in case ParseUint s of
           Inl e \<Rightarrow> Err (NumError fn s0 (parse_error_msg e))
         | Inr un \<Rightarrow>
             if \<not> neg \<and> 9223372036854775808 \<le> int un \<or> neg \<and> 9223372036854775808 < int un
             then Err (NumError fn s0 (parse_error_msg ErrRange))
             else Ok (word_of_int (if neg then - int un else int un)))"
proof -
  have "2 ^ 63 \<le> un \<longleftrightarrow> 9223372036854775808 \<le> int un" "2 ^ 63 < un \<longleftrightarrow> 9223372036854775808 < int un" for un :: nat
    by simp_all
  then show ?thesis unfolding ParseInt_as_def by (simp only:)
qed

text \<open>C32: Two conditional updates that assume the same revision of a key are both saved when the second tests the latest
  revision before the first has changed it, as both hold the read lock of the index only; when the second starts after the
  first has answered, it is refused.\<close>

theorem overlapping_updates_both_saved:
  "\<exists>s0 s s' at at'. conc_booted mem_env [SPut ''a'' ''x'', SUpdate ''a'' ''y'' 1, SUpdate ''a'' ''z'' 1] s0 \<and>
     s = conc_run mem_env (map turn [0, 0, 0, 0, 0, 0, 1, 1, 1, 2, 2, 2, 1, 2, 1, 2, 1, 2, 1, 2, 1, 2]) s0 \<and>
     s' = conc_run mem_env (map turn [0, 0, 0, 0, 0, 0, 1, 1, 1, 1, 1, 1, 1, 1, 2, 2, 2, 2, 2, 2, 2, 2]) s0 \<and>
     threads s ! 1 = Done (Ok (Response 201 (saved_text ''a'' ''y'' 3 at))) \<and>
     threads s ! 2 = Done (Ok (Response 201 (saved_text ''a'' ''z'' 4 at'))) \<and>
     threads s' ! 1 = Done (Ok (Response 201 (saved_text ''a'' ''y'' 3 at))) \<and>
     threads s' ! 2 = Done (Ok (Response 500 (''the rev to assume is not the latest one'' @ [CHR 0x0A])))"
proof -
  let ?ops = "[SPut ''a'' ''x'', SUpdate ''a'' ''y'' 1, SUpdate ''a'' ''z'' 1]"
  let ?es = "map turn [0, 0, 0, 0, 0, 0, 1, 1, 1, 2, 2, 2, 1, 2, 1, 2, 1, 2, 1, 2, 1, 2]"
  let ?es' = "map turn [0, 0, 0, 0, 0, 0, 1, 1, 1, 1, 1, 1, 1, 1, 2, 2, 2, 2, 2, 2, 2, 2]"
  let ?P = "\<lambda>s0. drop 1 (threads (conc_run mem_env ?es s0)) = [Done (Ok (Response 201 (saved_text ''a'' ''y'' 3 ''a,bb,ccc''))),
      Done (Ok (Response 201 (saved_text ''a'' ''z'' 4 ''a,bb,ccc'')))] \<and>
    drop 1 (threads (conc_run mem_env ?es' s0)) = [Done (Ok (Response 201 (saved_text ''a'' ''y'' 3 ''a,bb,ccc''))),
      Done (Ok (Response 500 (''the rev to assume is not the latest one'' @ [CHR 0x0A])))]"
  have "case NewKeyValueHandler mem_env mem_probe List.rev of Ok h \<Rightarrow> ?P (conc_start ?ops (booted h empty_world)) | _ \<Rightarrow> False"
    by code_simp
  then obtain s0 where "conc_booted mem_env ?ops s0" "?P s0" by (rule demo_booted)
  moreover have "xs ! 1 = a \<and> xs ! 2 = b" if "drop 1 xs = [a, b]" for xs :: "pc list" and a b
    using that by (cases xs) auto
  ultimately show ?thesis by blast
qed

end
