(* ===== verification/Progress.thy ===== *)
theory Progress
  imports Linearizability
begin

text \<open>
  Overlapping requests come to an end: every lock of the index that is taken is released, no handler waits for another
  one for good, none panics, and each is answered. This is an invariant of its own, since it needs
  less than the one of \<open>Concurrent\<close>: it holds whether or not revisions are drawn twice, and with deletes.
\<close>

section \<open>Safe states\<close>

text \<open>What the shared state has: the service is well configured, the revisions of puts in the index name stores that are up, no
  thread is left with the write lock, and the goroutines are for stores that are up.\<close>

definition sv_safe :: "'s env \<Rightarrow> string set \<Rightarrow> ('s world \<Rightarrow> string \<Rightarrow> string \<Rightarrow> string option)
    \<Rightarrow> (string \<Rightarrow> 's world \<Rightarrow> bool) \<Rightarrow> svc_op list \<Rightarrow> 's server \<Rightarrow> bool" where
  "sv_safe env N content ok ops sv \<longleftrightarrow>
     service_ok env N content ok (handler sv) \<and> ti_fit ops (indexTree (handler sv)) \<and>
     (\<forall>k. \<forall>r \<in> ti_revs (indexTree (handler sv)) k. replicas_ok N (nodes r)) \<and> (\<forall>n \<in> N. ok n (wd sv)) \<and>
     \<not> writing (index_mu sv) \<and> (\<forall>j \<in> set (pending sv). job_store j \<in> Some ` N)"

lemma sv_safeD:
  assumes "sv_safe env N content ok ops sv"
  shows "service_ok env N content ok (handler sv)" and "ti_fit ops (indexTree (handler sv))"
    and "r \<in> ti_revs (indexTree (handler sv)) k \<Longrightarrow> replicas_ok N (nodes r)" and "n \<in> N \<Longrightarrow> ok n (wd sv)"
    and "\<not> writing (index_mu sv)" and "j \<in> set (pending sv) \<Longrightarrow> job_store j \<in> Some ` N"
  using assms by (auto simp: sv_safe_def)

lemma sv_safe_store:
  assumes "sv_safe env N content ok ops sv"
  obtains sap where "piping (handler sv) = SyncAsyncP sap"
    and "store_contract (conf (handler sv)) (env_api env) (sap_databaseType sap) content ok"
  using sv_safeD(1) [OF assms] by (auto simp: service_ok_def)

text \<open>What a thread that serves \<open>opn\<close> has, by where it stands; \<open>R\<close> are the revisions of puts in the index.\<close>

fun pc_safe :: "string set \<Rightarrow> svc_op \<Rightarrow> (string \<Rightarrow> Revision set) \<Rightarrow> pc \<Rightarrow> bool" where
  "pc_safe N opn R (Arrived rq) \<longleftrightarrow> rq = request_of opn"
| "pc_safe N opn R (Drawing rq rp a) \<longleftrightarrow> rq = request_of opn \<and> writes opn \<noteq> None"
| "pc_safe N opn R (Writing cr r names) \<longleftrightarrow> 0 < sint (main r) \<and> replicas_ok N (nodes r) \<and> set names \<subseteq> N"
| "pc_safe N opn R (Updating cr r) \<longleftrightarrow> 0 < sint (main r) \<and> replicas_ok N (nodes r) \<and> R (c_key cr) \<noteq> {}"
| "pc_safe N opn R (Reading r) \<longleftrightarrow> replicas_ok N (nodes r)"
| "pc_safe N opn R (ReadingSince a rs left vs) \<longleftrightarrow> (\<forall>r \<in> set left. nodes r = [] \<or> replicas_ok N (nodes r))"
| "pc_safe N opn R (Deleting keys r names dres) \<longleftrightarrow> set names \<subseteq> N \<and> dres = Ok () \<and> (\<exists>k. opn = SDelete k \<and> keys = [k])"
| "pc_safe N opn R (Removing keys r dres) \<longleftrightarrow> dres = Ok () \<and> (\<exists>k. opn = SDelete k \<and> keys = [k])"
| "pc_safe N opn R (Burying keys r dres rv) \<longleftrightarrow> dres = Ok () \<and> (\<exists>k. opn = SDelete k \<and> keys = [k]) \<and> rv \<noteq> 0"
| "pc_safe N opn R (Done res) \<longleftrightarrow> (\<exists>code msg. res = Ok (Response code msg))"
| "pc_safe N opn R _ \<longleftrightarrow> False"

text \<open>How many read locks a thread holds, by how much it may still raise the counter, and a rank that its steps lower.\<close>

fun held_locks :: "pc \<Rightarrow> nat" where
  "held_locks (Updating cr r) = 1"
| "held_locks _ = 0"

fun draws_left :: "pc \<Rightarrow> int" where
  "draws_left (Arrived rq) = 2"
| "draws_left (Drawing rq rp a) = 1"
| "draws_left (Writing cr r names) = 1"
| "draws_left (Updating cr r) = 1"
| "draws_left (Deleting keys r names dres) = 2"
| "draws_left (Removing keys r dres) = 1"
| "draws_left (Burying keys r dres rv) = 1"
| "draws_left _ = 0"

fun rank :: "pc \<Rightarrow> nat \<times> nat" where
  "rank (Arrived rq) = (5, 0)"
| "rank (Drawing rq rp a) = (4, 0)"
| "rank (Writing cr r names) = (3, length names)"
| "rank (Deleting keys r names dres) = (3, length names)"
| "rank (ReadingSince a rs left vs) = (3, length left)"
| "rank (Updating cr r) = (2, 0)"
| "rank (Removing keys r dres) = (2, 0)"
| "rank (Burying keys r dres rv) = (1, 0)"
| "rank (Reading r) = (1, 0)"
| "rank _ = (0, 0)"

abbreviation rank_less :: "((nat \<times> nat) \<times> (nat \<times> nat)) set" where
  "rank_less \<equiv> less_than <*lex*> less_than"

text \<open>A step from a safe state: the state stays safe, nothing leaves the index, the locks are accounted for, the counter stays within
  what the thread may draw, and a thread that finds no lock held by others comes closer to its end.\<close>

definition safe_step :: "'s env \<Rightarrow> string set \<Rightarrow> ('s world \<Rightarrow> string \<Rightarrow> string \<Rightarrow> string option)
    \<Rightarrow> (string \<Rightarrow> 's world \<Rightarrow> bool) \<Rightarrow> svc_op list \<Rightarrow> svc_op \<Rightarrow> pc \<Rightarrow> 's server \<Rightarrow> pc \<times> 's server \<Rightarrow> bool" where
  "safe_step env N content ok ops opn p sv x \<longleftrightarrow>
     (case x of (p', sv') \<Rightarrow>
        sv_safe env N content ok ops sv' \<and> pc_safe N opn (ti_revs (indexTree (handler sv'))) p' \<and>
        (\<forall>k. ti_revs (indexTree (handler sv)) k \<subseteq> ti_revs (indexTree (handler sv')) k) \<and>
        readers (index_mu sv') + held_locks p = readers (index_mu sv) + held_locks p' \<and>
        uint (counter sv) \<le> uint (counter sv') \<and> uint (counter sv') + draws_left p' \<le> uint (counter sv) + draws_left p \<and>
        (loads p' \<longrightarrow> 0 < uint (counter sv')) \<and>
        (readers (index_mu sv) = held_locks p \<longrightarrow> (rank p', rank p) \<in> rank_less))"

lemma respond_Response: "\<forall>p. res \<noteq> Panic p \<Longrightarrow> \<exists>code' msg. respond env code res = Ok (Response code' msg)"
  by (cases res) (auto simp: respond_def intro: exI)

lemma pc_safe_mono: "pc_safe N opn R p \<Longrightarrow> \<forall>k. R k \<subseteq> R' k \<Longrightarrow> pc_safe N opn R' p"
  by (cases p) auto

text \<open>A step that changes nothing but the stores, the goroutines and the position of the thread.\<close>

lemma safe_local:
  assumes "sv_safe env N content ok ops sv" and "\<forall>n \<in> N. ok n w" and "\<forall>j \<in> set js. job_store j \<in> Some ` N"
    and "pc_safe N opn (ti_revs (indexTree (handler sv))) p'" and "held_locks p = held_locks p'" and "draws_left p' \<le> draws_left p"
    and "\<not> loads p'" and "(rank p', rank p) \<in> rank_less"
  shows "safe_step env N content ok ops opn p sv (p', sv\<lparr>wd := w, pending := pending sv @ js\<rparr>)"
  using assms by (auto simp: safe_step_def sv_safe_def)

corollary safe_stores:
  assumes "sv_safe env N content ok ops sv" and "\<forall>n \<in> N. ok n w"
    and "pc_safe N opn (ti_revs (indexTree (handler sv))) p'" and "held_locks p = held_locks p'" and "draws_left p' \<le> draws_left p"
    and "\<not> loads p'" and "(rank p', rank p) \<in> rank_less"
  shows "safe_step env N content ok ops opn p sv (p', sv\<lparr>wd := w\<rparr>)"
  using safe_local [OF assms(1,2) _ assms(3-7), of "[]"] by simp

corollary safe_pc:
  assumes "sv_safe env N content ok ops sv"
    and "pc_safe N opn (ti_revs (indexTree (handler sv))) p'" and "held_locks p = held_locks p'" and "draws_left p' \<le> draws_left p"
    and "\<not> loads p'" and "(rank p', rank p) \<in> rank_less"
  shows "safe_step env N content ok ops opn p sv (p', sv)"
  using safe_stores [OF assms(1) _ assms(2-6), of "wd sv"] sv_safeD(4) [OF assms(1)] by simp

lemma draws_left_nonneg [simp]: "0 \<le> draws_left p"
  by (cases p) simp_all

lemma safe_answer:
  assumes "sv_safe env N content ok ops sv" and "\<forall>n \<in> N. ok n w" and "\<forall>q. res \<noteq> Panic q"
    and "held_locks p = 0" and "fst (rank p) \<noteq> 0"
  shows "safe_step env N content ok ops opn p sv (answer env code res (sv\<lparr>wd := w\<rparr>))"
proof -
  have "pc_safe N opn R (Done (respond env code res))" for R using respond_Response [OF assms(3)] by simp
  moreover have "(rank (Done (respond env code res)), rank p) \<in> rank_less" using assms(5) by (cases "rank p") simp
  ultimately show ?thesis unfolding answer_def using assms(4) by (intro safe_stores [OF assms(1,2)]) simp_all
qed

corollary safe_answer_same:
  assumes "sv_safe env N content ok ops sv" and "\<forall>q. res \<noteq> Panic q" and "held_locks p = 0" and "fst (rank p) \<noteq> 0"
  shows "safe_step env N content ok ops opn p sv (answer env code res sv)"
  using safe_answer [OF assms(1) _ assms(2-4), of "wd sv"] sv_safeD(4) [OF assms(1)] by simp

section \<open>The steps of a thread\<close>

lemma get_safe:
  assumes "sv_safe env N content ok ops sv" and "opn = SGet k \<or> opn = SGetSince k a"
  shows "safe_step env N content ok ops opn (Arrived (request_of opn)) sv (hstep env ch i (Arrived (request_of opn)) sv)"
  using assms(2)
proof
  assume g: "opn = SGet k"
  show ?thesis
  proof (cases rule: Get_fit [OF sv_safeD(2) [OF assms(1)], of k])
    case 1
    then show ?thesis using g sv_safeD(5) [OF assms(1)] by (simp add: get_arrived_def safe_answer_same [OF assms(1)])
  next
    case (2 r cr v)
    then have "hstep env ch i (Arrived (request_of opn)) sv = (Reading r, sv)"
      using g sv_safeD(5) [OF assms(1)] by (simp add: get_arrived_def)
    then show ?thesis using sv_safeD(3) [OF assms(1) 2(2)] by (simp add: safe_pc [OF assms(1)])
  qed
next
  assume g: "opn = SGetSince k a"
  let ?rs = "RangeSince (env_sort_revs env) (indexTree (handler sv)) k None a"
  note step = get_arrived_def sv_safeD(5) [OF assms(1)]
  show ?thesis
  proof (cases ?rs)
    case (Ok rs)
    then have "\<forall>r \<in> set rs. nodes r = [] \<or> replicas_ok N (nodes r)" using RangeSince_subset sv_safeD(3) [OF assms(1)] by blast
    then show ?thesis using g Ok by (simp add: step safe_pc [OF assms(1)])
  next
    case (Err e)
    then show ?thesis using g by (simp add: step safe_answer_same [OF assms(1)])
  next
    case (Panic p)
    then show ?thesis using RangeSince_fit [OF sv_safeD(2) [OF assms(1)]] by blast
  qed
qed

lemma create_safe:
  assumes "sv_safe env N content ok ops sv" and "writes opn = Some (k, v)" and "uint (counter sv) + 1 < 2 ^ 63"
  shows "safe_step env N content ok ops opn (Arrived (request_of opn)) sv (hstep env ch i (Arrived (request_of opn)) sv)"
proof -
  have "hstep env ch i (Arrived (request_of opn)) sv =
      (Drawing (request_of opn) (fst (params opn)) (snd (params opn)), sv\<lparr>counter := counter sv + 1\<rparr>)"
    using assms(2) by (cases opn) (simp_all add: create_arrived_def Query_Get_def Let_def)
  then show ?thesis using assms(1,2) sint_counter_Suc(2) [OF assms(3)] by (auto simp: safe_step_def sv_safe_def)
qed

lemma replicas_split:
  assumes "replicas_ok N ns"
  obtains sns ans where "splitStores ns = Ok (sns, ans)" and "set (filter (\<lambda>n. n \<noteq> []) sns) \<subseteq> N" and "set (filter (\<lambda>n. n \<noteq> []) ans) \<subseteq> N"
proof -
  obtain sns ans where n: "ns = [Join sns '','', Join ans '','']" "names_ok sns" "names_ok ans" "sns \<noteq> []" "set sns \<union> set ans \<subseteq> N"
    using assms by (auto simp: replicas_ok_def)
  have "splitStores ns = Ok (sns, Split (Join ans '','') '','')" using sap_split [of "NewRevision 0 0 ns" sns ans] n by simp
  then show thesis by (rule that) (use n(5) Split_names(1) [OF n(3)] in auto)
qed

lemma drawing_safe:
  assumes "sv_safe env N content ok ops sv" and "writes opn \<noteq> None" and "0 < uint (counter sv)" and "uint (counter sv) < 2 ^ 63"
  shows "safe_step env N content ok ops opn (Drawing (request_of opn) rp a) sv (hstep env ch i (Drawing (request_of opn) rp a) sv)"
proof -
  obtain k v where w: "writes opn = Some (k, v)" using assms(2) by force
  have b: "Body (request_of opn) = Payload [(''key'', k), (''value'', v)]" using w by (cases opn) simp_all
  obtain ns where ns: "placed env (handler sv) (counter sv) = Ok ns" "replicas_ok N ns" by (rule placed_Ok [OF sv_safeD(1) [OF assms(1)]])
  obtain sns ans where sp: "splitStores ns = Ok (sns, ans)" "set (filter (\<lambda>n. n \<noteq> []) sns) \<subseteq> N" "set (filter (\<lambda>n. n \<noteq> []) ans) \<subseteq> N"
    by (rule replicas_split [OF ns(2)])
  obtain sap where sap: "piping (handler sv) = SyncAsyncP sap" by (rule sv_safe_store [OF assms(1)])
  define cr r where "cr = create_of [(''key'', k), (''value'', v)] rp a" and "r = NewRevision (counter sv) 0 ns"
  have step: "hstep env ch i (Drawing (request_of opn) rp a) sv = (Writing cr r (filter (\<lambda>n. n \<noteq> []) sns),
      sv\<lparr>wd := wd sv, pending := pending sv @ map (\<lambda>n. AsyncPut n (Revision_String r) (c_value cr)) (filter (\<lambda>n. n \<noteq> []) ans)\<rparr>)"
    using ns(1) b sp(1) sap by (simp add: create_drawn_eq Let_def cr_def r_def)
  have "sint (counter sv) = uint (counter sv)" by (rule sint_uint63 [OF assms(4)])
  then show ?thesis unfolding step using assms(3) ns(2) sp(2,3) sv_safeD(4) [OF assms(1)]
    by (intro safe_local [OF assms(1)]) (auto simp: r_def)
qed

lemma store_put_safe:
  assumes "sv_safe env N content ok ops sv" and "nm \<in> N"
    and "store_put (conf (handler sv)) (env_api env) (piping_type (piping (handler sv))) nm key val (wd sv) = (res, w1)"
  shows "\<exists>x. res = Ok x" and "\<forall>n \<in> N. ok n w1"
proof -
  obtain sap where sap: "piping (handler sv) = SyncAsyncP sap"
    and con: "store_contract (conf (handler sv)) (env_api env) (sap_databaseType sap) content ok" by (rule sv_safe_store [OF assms(1)])
  have "store_put (conf (handler sv)) (env_api env) (sap_databaseType sap) nm key val (wd sv) = (res, w1)" using assms(3) sap by simp
  from kv_backend.put_law [OF con sv_safeD(4) [OF assms(1,2)] this] sv_safeD(4) [OF assms(1)]
  show "\<exists>x. res = Ok x" and "\<forall>n \<in> N. ok n w1" by blast+
qed

lemma store_delete_safe:
  assumes "sv_safe env N content ok ops sv" and "nm \<in> N"
    and "store_delete (conf (handler sv)) (env_api env) (piping_type (piping (handler sv))) nm key (wd sv) = (res, w1)"
  shows "res = Ok ()" and "\<forall>n \<in> N. ok n w1"
proof -
  obtain sap where sap: "piping (handler sv) = SyncAsyncP sap"
    and con: "store_contract (conf (handler sv)) (env_api env) (sap_databaseType sap) content ok" by (rule sv_safe_store [OF assms(1)])
  have "store_delete (conf (handler sv)) (env_api env) (sap_databaseType sap) nm key (wd sv) = (res, w1)" using assms(3) sap by simp
  from kv_backend.del_law [OF con sv_safeD(4) [OF assms(1,2)] this] sv_safeD(4) [OF assms(1)]
  show "res = Ok ()" and "\<forall>n \<in> N. ok n w1" by blast+
qed

lemma writing_safe:
  assumes "sv_safe env N content ok ops sv" and "pc_safe N opn R (Writing cr r (n # names))"
  shows "safe_step env N content ok ops opn (Writing cr r (n # names)) sv (hstep env ch i (Writing cr r (n # names)) sv)"
proof -
  let ?ns = "n # names" and ?j = "i mod length (n # names)"
  have j: "?j < length ?ns" by (rule mod_less_divisor) simp
  have nm: "?ns ! ?j \<in> N" using nth_mem [OF j] assms(2) by (auto simp del: nth_mem)
  obtain res w1 where q: "store_put (conf (handler sv)) (env_api env) (piping_type (piping (handler sv))) (?ns ! ?j) (Revision_String r) (c_value cr) (wd sv) = (res, w1)"
    by force
  note P = store_put_safe [OF assms(1) nm q]
  have step: "hstep env ch i (Writing cr r ?ns) sv = (Writing cr r (drop_nth ?j ?ns), sv\<lparr>wd := w1\<rparr>)"
    using q P(1) by (auto simp: write_step_def Let_def)
  have "set (drop_nth ?j ?ns) \<subseteq> N" using set_drop_nth [OF j] assms(2) by auto
  moreover have "length (drop_nth ?j ?ns) < length ?ns" using j by simp
  ultimately show ?thesis unfolding step by (intro safe_stores [OF assms(1) P(2)]) (use assms(2) in \<open>auto simp del: drop_Suc_Cons\<close>)
qed

lemma index_change_safe:
  assumes "sv_safe env N content ok ops sv" and "0 < sint (main r)" and "replicas_ok N (nodes r)" and "uint (counter sv) + 1 < 2 ^ 63"
    and "Put (indexTree (handler sv)) k r (counter sv) = (ti, c)" and "\<not> writing mu"
    and "readers mu + held_locks p = readers (index_mu sv)" and "draws_left p = 1" and "fst (rank p) \<noteq> 0"
  shows "safe_step env N content ok ops opn p sv (answer env 201 (Ok (saved cr r)) ((set_index ti c sv)\<lparr>index_mu := mu\<rparr>))"
proof -
  have "nodes r \<noteq> []" using assms(3) by (auto simp: replicas_ok_def)
  note P = Put_fit [OF sv_safeD(2) [OF assms(1)] assms(2) this assms(5)]
  have c: "uint (counter sv) \<le> uint c" "uint c \<le> uint (counter sv) + 1" using Put_counter [OF assms(5,4)] by simp_all
  have d: "\<exists>code msg. respond env 201 (Ok (saved cr r)) = Ok (Response code msg)" by (rule respond_Response) simp
  have "sv_safe env N content ok ops ((set_index ti c sv)\<lparr>index_mu := mu\<rparr>)"
    using assms(1,3,6) P by (auto simp: sv_safe_def set_index_def service_ok_def)
  then show ?thesis using P(2) c assms(7-9) d
    by (cases "rank p") (auto simp: safe_step_def answer_def set_index_def)
qed

lemma index_safe:
  assumes "sv_safe env N content ok ops sv" and "pc_safe N opn R (Writing cr r [])" and "uint (counter sv) + 1 < 2 ^ 63"
  shows "safe_step env N content ok ops opn (Writing cr r []) sv (hstep env ch i (Writing cr r []) sv)"
proof -
  note I = index_step_unlocked [OF sv_safeD(5) [OF assms(1)], of env cr r]
  consider "c_rev cr = []" "readers (index_mu sv) = 0" | "c_rev cr = []" "readers (index_mu sv) \<noteq> 0" | "c_rev cr \<noteq> []" by blast
  then show ?thesis
  proof cases
    case 1
    obtain ti c where p: "Put (indexTree (handler sv)) (c_key cr) r (counter sv) = (ti, c)" by force
    have "(set_index ti c sv)\<lparr>index_mu := index_mu sv\<rparr> = set_index ti c sv" by (simp add: set_index_def)
    then have step: "hstep env ch i (Writing cr r []) sv = answer env 201 (Ok (saved cr r)) ((set_index ti c sv)\<lparr>index_mu := index_mu sv\<rparr>)"
      using 1 p by (simp add: I)
    show ?thesis unfolding step
      by (rule index_change_safe [OF assms(1) _ _ assms(3) p]) (use assms(2) sv_safeD(5) [OF assms(1)] in simp_all)
  next
    case 2
    then show ?thesis using assms(1,2) by (simp add: I safe_step_def)
  next
    case 3
    show ?thesis
    proof (cases "lookup (indexTree (handler sv)) (c_key cr)")
      case None
      then show ?thesis using 3 by (simp add: I safe_answer_same [OF assms(1)])
    next
      case (Some oki)
      then have ne: "ti_revs (indexTree (handler sv)) (c_key cr) \<noteq> {}" using ti_revs_empty [OF sv_safeD(2) [OF assms(1)]] by simp
      show ?thesis
      proof (cases "main (modified oki) = c_assumed cr")
        case True
        then show ?thesis using 3 Some assms(1,2) ne by (simp add: I safe_step_def sv_safe_def)
      next
        case False
        then show ?thesis using 3 Some by (simp add: I safe_answer_same [OF assms(1)])
      qed
    qed
  qed
qed

lemma updating_safe:
  assumes "sv_safe env N content ok ops sv" and "pc_safe N opn (ti_revs (indexTree (handler sv))) (Updating cr r)"
    and "uint (counter sv) + 1 < 2 ^ 63" and "0 < readers (index_mu sv)"
  shows "safe_step env N content ok ops opn (Updating cr r) sv (hstep env ch i (Updating cr r) sv)"
proof -
  obtain oki where l: "lookup (indexTree (handler sv)) (c_key cr) = Some oki"
    using assms(2) ti_revs_empty [OF sv_safeD(2) [OF assms(1)], of "c_key cr"] by auto
  obtain ti c where p: "Put (indexTree (handler sv)) (c_key cr) r (counter sv) = (ti, c)" by force
  have step: "hstep env ch i (Updating cr r) sv = answer env 201 (Ok (saved cr r)) ((set_index ti c sv)\<lparr>index_mu := RUnlock (index_mu sv)\<rparr>)"
    using l p by (auto simp: update_step_def Put_def set_index_def Let_def split: prod.splits)
  show ?thesis unfolding step
    by (rule index_change_safe [OF assms(1) _ _ assms(3) p]) (use assms(2,4) sv_safeD(5) [OF assms(1)] in \<open>simp_all add: RUnlock_def\<close>)
qed

lemma read_safe:
  assumes "sv_safe env N content ok ops sv" and "nodes r = [] \<or> replicas_ok N (nodes r)" and "getValueByRev env ch r sv = (res, sv')"
  obtains w1 where "sv' = sv\<lparr>wd := w1\<rparr>" and "\<forall>n \<in> N. ok n w1" and "\<forall>p. res \<noteq> Panic p"
proof -
  obtain sap where sap: "piping (handler sv) = SyncAsyncP sap"
    and con: "store_contract (conf (handler sv)) (env_api env) (sap_databaseType sap) content ok" by (rule sv_safe_store [OF assms(1)])
  obtain w1 where rd: "sap_Read (conf (handler sv)) (env_api env) sap r (wd sv) = (res, w1)" "sv' = sv\<lparr>wd := w1\<rparr>"
    using assms(3) sap by (cases "sap_Read (conf (handler sv)) (env_api env) sap r (wd sv)") (simp add: getValueByRev_def)
  show thesis
  proof (cases "nodes r = []")
    case True
    then have "res = Err (ErrorString ''no stores in the revision'')" "w1 = wd sv" using rd(1) by (simp_all add: sap_Read_def splitStores_def)
    then show thesis using that [of w1] rd(2) sv_safeD(4) [OF assms(1)] by simp
  next
    case False
    then obtain sns ans where ns: "nodes r = [Join sns '','', Join ans '','']" "names_ok sns" "sns \<noteq> []" "set sns \<union> set ans \<subseteq> N"
      using assms(2) by (auto simp: replicas_ok_def)
    then have "sns ! 0 \<in> N" by (meson UnI1 length_greater_0_conv nth_mem subsetD)
    note L = sap_Read_law [OF con ns(1-3) sv_safeD(4) [OF assms(1) this] rd(1)]
    show thesis using that [of w1] rd(2) L(3,4) sv_safeD(4) [OF assms(1)] by simp
  qed
qed

lemma reading_safe:
  assumes "sv_safe env N content ok ops sv" and "replicas_ok N (nodes r)"
  shows "safe_step env N content ok ops opn (Reading r) sv (hstep env ch i (Reading r) sv)"
proof -
  obtain res sv' where g: "getValueByRev env ch r sv = (res, sv')" by force
  obtain w1 where w: "sv' = sv\<lparr>wd := w1\<rparr>" "\<forall>n \<in> N. ok n w1" and np: "\<forall>p. res \<noteq> Panic p"
    by (rule read_safe [OF assms(1) _ g]) (use assms(2) in simp)
  obtain x where "hstep env ch i (Reading r) sv = answer env 202 x sv'" "\<forall>p. x \<noteq> Panic p"
    using g np by (cases res) (auto simp: read_step_def)
  then show ?thesis using w by (simp add: safe_answer [OF assms(1)])
qed

lemma since_safe:
  assumes "sv_safe env N content ok ops sv" and "pc_safe N opn R (ReadingSince a rs left vs)"
  shows "safe_step env N content ok ops opn (ReadingSince a rs left vs) sv (hstep env ch i (ReadingSince a rs left vs) sv)"
proof (cases left)
  case Nil
  then show ?thesis by (simp add: safe_answer_same [OF assms(1)])
next
  case (Cons r left')
  obtain res sv' where g: "getValueByRev env ch r sv = (res, sv')" by force
  obtain w1 where w: "sv' = sv\<lparr>wd := w1\<rparr>" "\<forall>n \<in> N. ok n w1" and np: "\<forall>p. res \<noteq> Panic p"
    by (rule read_safe [OF assms(1) _ g]) (use assms(2) Cons in simp)
  show ?thesis
  proof (cases res)
    case (Ok v)
    then have "hstep env ch i (ReadingSince a rs left vs) sv = (ReadingSince a rs left' (vs @ [v]), sv')" using g Cons by simp
    then show ?thesis using assms(2) Cons unfolding w(1) by (auto intro!: safe_stores [OF assms(1) w(2)] simp del: since_step.simps)
  next
    case (Err e)
    then have "hstep env ch i (ReadingSince a rs left vs) sv = answer env 202 (Err e) sv'" using g Cons by simp
    then show ?thesis using w by (simp add: safe_answer [OF assms(1)])
  qed (use np in blast)
qed

lemma delete_safe:
  assumes "sv_safe env N content ok ops sv" and "opn = SDelete k"
  shows "safe_step env N content ok ops opn (Arrived (request_of opn)) sv (hstep env ch i (Arrived (request_of opn)) sv)"
proof (cases rule: Get_fit [OF sv_safeD(2) [OF assms(1)], of k])
  case 1
  then show ?thesis using assms(2) sv_safeD(5) [OF assms(1)] by (simp add: delete_arrived_def safe_answer_same [OF assms(1)])
next
  case (2 r cr v)
  obtain sns ans where sp: "splitStores (nodes r) = Ok (sns, ans)" "set (filter (\<lambda>n. n \<noteq> []) sns) \<subseteq> N" "set (filter (\<lambda>n. n \<noteq> []) ans) \<subseteq> N"
    by (rule replicas_split [OF sv_safeD(3) [OF assms(1) 2(2)]])
  obtain sap where sap: "piping (handler sv) = SyncAsyncP sap" by (rule sv_safe_store [OF assms(1)])
  have "hstep env ch i (Arrived (request_of opn)) sv = (Deleting [k] r (filter (\<lambda>n. n \<noteq> []) sns) (Ok ()),
      sv\<lparr>wd := wd sv, pending := pending sv @ map (\<lambda>n. AsyncDelete n (Revision_String r)) (filter (\<lambda>n. n \<noteq> []) ans)\<rparr>)"
    using assms(2) 2(1) sap sp(1) sv_safeD(5) [OF assms(1)] by (simp add: delete_arrived_def)
  moreover have "safe_step env N content ok ops opn (Arrived (request_of opn)) sv \<dots>"
    by (rule safe_local [OF assms(1)]) (use assms(2) sp(2,3) sv_safeD(4) [OF assms(1)] in auto)
  ultimately show ?thesis by simp
qed

lemma deleting_safe:
  assumes "sv_safe env N content ok ops sv" and "pc_safe N opn R (Deleting keys r names dres)" and "uint (counter sv) + 1 < 2 ^ 63"
  shows "safe_step env N content ok ops opn (Deleting keys r names dres) sv (hstep env ch i (Deleting keys r names dres) sv)"
proof (cases names)
  case Nil
  then show ?thesis using assms(1,2) sint_counter_Suc(2) [OF assms(3)] by (auto simp: safe_step_def sv_safe_def)
next
  case (Cons n ns)
  let ?ns = "n # ns" and ?j = "i mod length (n # ns)"
  have j: "?j < length ?ns" by (rule mod_less_divisor) simp
  have nm: "?ns ! ?j \<in> N" using nth_mem [OF j] assms(2) Cons by (auto simp del: nth_mem)
  obtain res w1 where q: "store_delete (conf (handler sv)) (env_api env) (piping_type (piping (handler sv))) (?ns ! ?j) (Revision_String r) (wd sv) = (res, w1)"
    by force
  note P = store_delete_safe [OF assms(1) nm q]
  have step: "hstep env ch i (Deleting keys r ?ns dres) sv = (Deleting keys r (drop_nth ?j ?ns) dres, sv\<lparr>wd := w1\<rparr>)"
    using q P(1) by (auto simp: delete_step_def Let_def)
  have "set (drop_nth ?j ?ns) \<subseteq> N" using set_drop_nth [OF j] assms(2) Cons by auto
  moreover have "length (drop_nth ?j ?ns) < length ?ns" using j by simp
  ultimately show ?thesis unfolding Cons step
    by (intro safe_stores [OF assms(1) P(2)]) (use assms(2) in \<open>auto simp del: drop_Suc_Cons\<close>)
qed

lemma burying_safe:
  assumes "sv_safe env N content ok ops sv" and "pc_safe N opn R (Burying keys r dres rv)" and "uint (counter sv) + 1 < 2 ^ 63" and "opn \<in> set ops"
  shows "safe_step env N content ok ops opn (Burying keys r dres rv) sv (hstep env ch i (Burying keys r dres rv) sv)"
proof -
  obtain k where k: "dres = Ok ()" "opn = SDelete k" "keys = [k]" "rv \<noteq> 0" using assms(2) by auto
  have del: "SDelete k \<in> set ops" using k(2) assms(4) by simp
  obtain res ti c where b: "Tombstone (indexTree (handler sv)) k (NewRevision rv (sub r) []) (counter sv) = (res, ti, c)" by (metis prod_cases3)
  have "main (NewRevision rv (sub r) []) \<noteq> 0" using k(4) by simp
  note F = Tombstone_fit [OF sv_safeD(2) [OF assms(1)] del b this]
  have c: "uint (counter sv) \<le> uint c" "uint c \<le> uint (counter sv) + 1" using Tombstone_counter [OF b assms(3)] by simp_all
  show ?thesis
  proof (cases "readers (index_mu sv) = 0")
    case True
    have "\<forall>p. res \<noteq> Panic p" using F(3) by blast
    then obtain x where step: "hstep env ch i (Burying keys r dres rv) sv = answer env 202 x (set_index ti c sv)" "\<forall>p. x \<noteq> Panic p"
      using True k(1,3) b sv_safeD(5) [OF assms(1)] by (cases res) (auto simp: bury_step_def)
    have "sv_safe env N content ok ops (set_index ti c sv)"
      using assms(1) F(1,2) by (auto simp: sv_safe_def set_index_def service_ok_def)
    then show ?thesis using step F(2) c respond_Response [OF step(2)] by (auto simp: safe_step_def answer_def set_index_def)
  next
    case False
    then show ?thesis using assms(1,2) sv_safeD(5) [OF assms(1)] by (simp add: bury_step_def safe_step_def)
  qed
qed

lemma thread_safe:
  assumes "sv_safe env N content ok ops sv" and "pc_safe N opn (ti_revs (indexTree (handler sv))) p" and "opn \<in> set ops"
    and "uint (counter sv) + 1 < 2 ^ 63" and "held_locks p \<le> readers (index_mu sv)" and "loads p \<longrightarrow> 0 < uint (counter sv)"
    and "\<forall>res. p \<noteq> Done res"
  shows "safe_step env N content ok ops opn p sv (hstep env ch i p sv)"
proof (cases p)
  case (Arrived rq)
  then show ?thesis using assms(2) get_safe [OF assms(1)] create_safe [OF assms(1) _ assms(4)] delete_safe [OF assms(1)]
    by (cases opn) (auto simp del: hstep.simps request_of.simps)
next
  case (Drawing rq rp a)
  then show ?thesis using assms(2,4,6) drawing_safe [OF assms(1)] by (simp del: hstep.simps)
next
  case (Writing cr r names)
  then show ?thesis using assms(2,4) writing_safe [OF assms(1)] index_safe [OF assms(1)] by (cases names) (simp_all del: hstep.simps pc_safe.simps)
next
  case (Updating cr r)
  then show ?thesis using assms(2,4,5) updating_safe [OF assms(1)] by (simp del: hstep.simps pc_safe.simps)
next
  case (Reading r)
  then show ?thesis using assms(2) reading_safe [OF assms(1)] by (simp del: hstep.simps)
next
  case (ReadingSince a rs left vs)
  then show ?thesis using assms(2) since_safe [OF assms(1)] by (simp del: hstep.simps pc_safe.simps)
next
  case (Deleting keys r names dres)
  then show ?thesis using assms(2,4) deleting_safe [OF assms(1)] by (simp del: hstep.simps pc_safe.simps)
next
  case (Removing keys r dres)
  then show ?thesis using assms(1,2,6) by (auto simp: safe_step_def)
next
  case (Burying keys r dres rv)
  then show ?thesis using assms(2,3,4) burying_safe [OF assms(1)] by (simp del: hstep.simps pc_safe.simps)
qed (use assms(2,7) in simp_all)

section \<open>All threads\<close>

definition conc_safe :: "'s env \<Rightarrow> string set \<Rightarrow> ('s world \<Rightarrow> string \<Rightarrow> string \<Rightarrow> string option)
    \<Rightarrow> (string \<Rightarrow> 's world \<Rightarrow> bool) \<Rightarrow> svc_op list \<Rightarrow> 's conc \<Rightarrow> bool" where
  "conc_safe env N content ok ops s \<longleftrightarrow>
     sv_safe env N content ok ops (shared s) \<and> length (threads s) = length ops \<and>
     (\<forall>t < length ops. pc_safe N (ops ! t) (ti_revs (indexTree (handler (shared s)))) (threads s ! t)) \<and>
     readers (index_mu (shared s)) = (\<Sum>p\<leftarrow>threads s. held_locks p) \<and>
     uint (counter (shared s)) + (\<Sum>p\<leftarrow>threads s. draws_left p) \<le> 2 * int (length ops) \<and>
     (0 < uint (counter (shared s)) \<or> (\<forall>p \<in> set (threads s). \<not> loads p))"

lemma sum_list_update_nth:
  fixes f :: "'a \<Rightarrow> 'b :: comm_monoid_add"
  assumes "t < length xs"
  shows "(\<Sum>p\<leftarrow>xs[t := q]. f p) + f (xs ! t) = (\<Sum>p\<leftarrow>xs. f p) + f q"
  using assms by (induction xs arbitrary: t) (auto simp: nth_Cons ac_simps split: nat.splits)

lemma step_conc_safe:
  assumes "conc_safe env N content ok ops s" and "t < length ops" and "2 * int (length ops) < 2 ^ 63 - 1" and "\<forall>res. threads s ! t \<noteq> Done res"
  shows "conc_safe env N content ok ops (thread_step env ch t i s)"
    and "safe_step env N content ok ops (ops ! t) (threads s ! t) (shared s) (hstep env ch i (threads s ! t) (shared s))"
proof -
  let ?p = "threads s ! t" and ?sv = "shared s"
  have len: "t < length (threads s)" using assms(1,2) by (simp add: conc_safe_def)
  have S: "sv_safe env N content ok ops ?sv" "pc_safe N (ops ! t) (ti_revs (indexTree (handler ?sv))) ?p" "ops ! t \<in> set ops"
    using assms(1,2) by (simp_all add: conc_safe_def)
  have "(\<Sum>p\<leftarrow>threads s. held_locks p) \<ge> held_locks ?p" using len by (intro member_le_sum_list) auto
  then have R: "held_locks ?p \<le> readers (index_mu ?sv)" using assms(1) by (simp add: conc_safe_def)
  have "0 \<le> (\<Sum>p\<leftarrow>threads s. draws_left p)" by (rule sum_list_nonneg) auto
  then have C: "uint (counter ?sv) + 1 < 2 ^ 63" using assms(1,3) by (simp add: conc_safe_def)
  have L: "loads ?p \<longrightarrow> 0 < uint (counter ?sv)" using assms(1) len by (auto simp: conc_safe_def)
  show step: "safe_step env N content ok ops (ops ! t) ?p ?sv (hstep env ch i ?p ?sv)"
    by (rule thread_safe [OF S C R L assms(4)])
  obtain p' sv' where h: "hstep env ch i ?p ?sv = (p', sv')" by force
  note A = step [unfolded h safe_step_def prod.case]
  have "pc_safe N (ops ! u) (ti_revs (indexTree (handler sv'))) ((threads s)[t := p'] ! u)" if "u < length ops" for u
    using A pc_safe_mono [of N "ops ! u" "ti_revs (indexTree (handler ?sv))" "threads s ! u"] assms(1) that len
    by (cases "u = t") (auto simp: conc_safe_def)
  moreover have "readers (index_mu sv') = (\<Sum>p\<leftarrow>(threads s)[t := p']. held_locks p)"
    using A assms(1) sum_list_update_nth [OF len, of held_locks p'] by (simp add: conc_safe_def)
  moreover have "uint (counter sv') + (\<Sum>p\<leftarrow>(threads s)[t := p']. draws_left p) \<le> 2 * int (length ops)"
    using A assms(1) sum_list_update_nth [OF len, of draws_left p'] by (simp add: conc_safe_def)
  moreover have "0 < uint (counter sv')" if "q \<in> set ((threads s)[t := p'])" "loads q" for q
    using A assms(1) that set_update_subset_insert [of "threads s" t p'] by (fastforce simp: conc_safe_def)
  ultimately show "conc_safe env N content ok ops (thread_step env ch t i s)" using h len A assms(1) by (auto simp: conc_safe_def)
qed

lemma job_conc_safe:
  assumes "conc_safe env N content ok ops s"
  shows "conc_safe env N content ok ops (conc_exec env (Job i) s)"
proof (cases "i < length (pending (shared s))")
  case True
  let ?sv = "shared s" and ?j = "pending (shared s) ! i"
  have S: "sv_safe env N content ok ops ?sv" using assms by (simp add: conc_safe_def)
  have "job_store ?j \<in> Some ` N" using sv_safeD(6) [OF S] True by simp
  moreover obtain q w1 where q: "run_job (conf (handler ?sv)) (env_api env) (piping_type (piping (handler ?sv))) ?j (wd ?sv) = (q, w1)" by force
  ultimately have "\<forall>n \<in> N. ok n w1"
    using store_put_safe(2) [OF S] store_delete_safe(2) [OF S] by (cases ?j) auto
  moreover have "job_store j \<in> Some ` N" if "j \<in> set (drop_nth i (pending ?sv))" for j
    using that sv_safeD(6) [OF S] by (auto dest: in_set_takeD in_set_dropD)
  ultimately show ?thesis using assms True q by (auto simp: conc_safe_def sv_safe_def)
qed (use assms in simp)

lemma exec_conc_safe:
  assumes "conc_safe env N content ok ops s" and "2 * int (length ops) < 2 ^ 63 - 1"
  shows "conc_safe env N content ok ops (conc_exec env e s)"
proof (cases e)
  case (Step t ch i)
  consider "\<not> t < length (threads s)" | res where "t < length (threads s)" "threads s ! t = Done res" | "t < length ops" "\<forall>res. threads s ! t \<noteq> Done res"
    using assms(1) by (auto simp: conc_safe_def)
  then show ?thesis
  proof cases
    case 2
    then have "conc_exec env e s = s" using Step list_update_id [of "threads s" t] by simp
    then show ?thesis using assms(1) by simp
  qed (use assms Step step_conc_safe(1) [OF assms(1) _ assms(2)] in auto)
qed (use job_conc_safe [OF assms(1)] in simp)

lemma run_conc_safe:
  "conc_safe env N content ok ops s \<Longrightarrow> 2 * int (length ops) < 2 ^ 63 - 1 \<Longrightarrow> conc_safe env N content ok ops (conc_run env es s)"
  unfolding conc_run_def by (induction es arbitrary: s) (simp_all add: exec_conc_safe)

section \<open>Every thread comes to its end\<close>

abbreviation finished :: "pc \<Rightarrow> bool" where
  "finished p \<equiv> \<exists>res. p = Done res"

text \<open>A thread that runs while no other one holds the lock comes to its end: each of its steps lowers its rank, and it gives back
  what it holds.\<close>

lemma finish_one:
  assumes "conc_safe env N content ok ops s" and "t < length ops" and "2 * int (length ops) < 2 ^ 63 - 1"
    and "readers (index_mu (shared s)) = held_locks (threads s ! t)"
  shows "\<exists>es res. threads (conc_run env es s) = (threads s)[t := Done res] \<and> readers (index_mu (shared (conc_run env es s))) = 0"
  using assms
proof (induction "rank (threads s ! t)" arbitrary: s rule: wf_induct_rule [OF wf_lex_prod [OF wf_less_than wf_less_than]])
  case 1
  have len: "t < length (threads s)" using 1(2,3) by (simp add: conc_safe_def)
  show ?case
  proof (cases "finished (threads s ! t)")
    case True
    then obtain res where "threads s ! t = Done res" by blast
    then show ?thesis using 1(5) list_update_id [of "threads s" t] by (intro exI [of _ "[]"] exI [of _ res]) (simp add: conc_run_def)
  next
    case False
    let ?s' = "thread_step env plain_choices t 0 s"
    obtain p' sv' where h: "hstep env plain_choices 0 (threads s ! t) (shared s) = (p', sv')" by force
    note safe = step_conc_safe [OF 1(2,3,4), where ch = plain_choices and i = 0]
    have A: "(rank p', rank (threads s ! t)) \<in> rank_less" "readers (index_mu sv') = held_locks p'"
      using safe(2) False 1(5) by (simp_all add: h safe_step_def)
    have s': "threads ?s' = (threads s)[t := p']" "shared ?s' = sv'" using h len by simp_all
    obtain es res where "threads (conc_run env es ?s') = (threads ?s')[t := Done res]" "readers (index_mu (shared (conc_run env es ?s'))) = 0"
      using 1(1) [of ?s'] A safe(1) False s' len 1(3,4) by auto
    then show ?thesis using s' by (intro exI [of _ "Step t plain_choices 0 # es"] exI [of _ res]) (simp add: conc_run_def)
  qed
qed

text \<open>The step of a thread that holds the lock is always possible, and the last one.\<close>

lemma finish_lock:
  assumes "conc_safe env N content ok ops s" and "t < length ops" and "2 * int (length ops) < 2 ^ 63 - 1" and "threads s ! t = Updating cr r"
  shows "\<exists>res. threads (conc_run env [Step t plain_choices 0] s) = (threads s)[t := Done res]"
proof -
  have len: "t < length (threads s)" using assms(1,2) by (simp add: conc_safe_def)
  have S: "sv_safe env N content ok ops (shared s)" "pc_safe N (ops ! t) (ti_revs (indexTree (handler (shared s)))) (threads s ! t)"
    using assms(1,2) by (simp_all add: conc_safe_def)
  obtain oki where "lookup (indexTree (handler (shared s))) (c_key cr) = Some oki"
    using S(2) assms(4) ti_revs_empty [OF sv_safeD(2) [OF S(1)], of "c_key cr"] by auto
  then have "\<exists>res sv'. hstep env plain_choices 0 (threads s ! t) (shared s) = (Done res, sv')"
    using assms(4) by (auto simp: update_step_def answer_def Let_def split: prod.splits)
  then show ?thesis using len by (auto simp: conc_run_def)
qed

lemma finish_some:
  assumes "conc_safe env N content ok ops s" and "2 * int (length ops) < 2 ^ 63 - 1" and "\<not> list_all finished (threads s)"
  obtains es t res where "t < length (threads s)" and "\<not> finished (threads s ! t)" and "threads (conc_run env es s) = (threads s)[t := Done res]"
proof (cases "\<exists>t < length ops. \<exists>cr r. threads s ! t = Updating cr r")
  case True
  then obtain t cr r where t: "t < length ops" "threads s ! t = Updating cr r" by blast
  have "t < length (threads s)" "\<not> finished (threads s ! t)" using t assms(1) by (simp_all add: conc_safe_def)
  then show thesis using finish_lock [OF assms(1) t(1) assms(2) t(2)] that [of t] by blast
next
  case False
  obtain t where t: "t < length (threads s)" "\<not> finished (threads s ! t)" using assms(3) by (auto simp: list_all_length)
  have len: "length (threads s) = length ops" using assms(1) by (simp add: conc_safe_def)
  have "held_locks p = 0" if "p \<in> set (threads s)" for p
    using False that len by (cases p) (auto simp: in_set_conv_nth)
  then have "(\<Sum>p\<leftarrow>threads s. held_locks p) = 0" "held_locks (threads s ! t) = 0" using t(1) by (auto simp: sum_list_eq_0_iff)
  then have "readers (index_mu (shared s)) = held_locks (threads s ! t)" using assms(1) by (simp add: conc_safe_def)
  from finish_one [OF assms(1) _ assms(2) this] t len that show thesis by metis
qed

lemma finish_all:
  "conc_safe env N content ok ops s \<Longrightarrow> 2 * int (length ops) < 2 ^ 63 - 1 \<Longrightarrow> \<exists>es. list_all finished (threads (conc_run env es s))"
proof (induction "length (filter (\<lambda>p. \<not> finished p) (threads s))" arbitrary: s rule: less_induct)
  case less
  show ?case
  proof (cases "list_all finished (threads s)")
    case True
    then show ?thesis by (intro exI [of _ "[]"]) (simp add: conc_run_def)
  next
    case False
    obtain es t res where t: "t < length (threads s)" "\<not> finished (threads s ! t)" "threads (conc_run env es s) = (threads s)[t := Done res]"
      by (rule finish_some [OF less.prems False])
    have split: "filter (\<lambda>p. \<not> finished p) (threads s) =
        filter (\<lambda>p. \<not> finished p) (take t (threads s) @ threads s ! t # drop (Suc t) (threads s))"
      using t(1) by (simp only: id_take_nth_drop [symmetric])
    have "length (filter (\<lambda>p. \<not> finished p) (threads (conc_run env es s))) < length (filter (\<lambda>p. \<not> finished p) (threads s))"
      unfolding t(3) upd_conv_take_nth_drop [OF t(1)] split using t(2) by simp
    from less.hyps [OF this run_conc_safe [OF less.prems] less.prems(2)]
    obtain es' where "list_all finished (threads (conc_run env es' (conc_run env es s)))" by blast
    then show ?thesis by (intro exI [of _ "es @ es'"]) (simp add: conc_run_def)
  qed
qed

section \<open>Properties\<close>

lemma conc_booted_safe:
  assumes "conc_booted env ops s"
  obtains content ok where "conc_safe env (store_names env) content ok ops s"
proof -
  obtain content ok where i: "conc_inv env (store_names env) content ok ops s" and c: "uint (counter (shared s)) = 0"
    by (rule conc_booted_inv [OF assms])
  obtain h w where s: "s = conc_start ops (booted h w)" using assms by (auto simp: conc_booted_def)
  have "(\<Sum>p\<leftarrow>threads s. held_locks p) = 0" "(\<Sum>p\<leftarrow>threads s. draws_left p) = 2 * int (length ops)" "\<forall>p \<in> set (threads s). \<not> loads p"
    using s by (simp_all add: conc_start_def comp_def sum_list_triv)
  moreover have "\<forall>k. \<forall>r \<in> ti_revs (indexTree (handler (shared s))) k. replicas_ok (store_names env) (nodes r)"
    using conc_invD(7) [OF i] by (fastforce simp: indexed_def held_def replicas_ok_def)
  ultimately have "conc_safe env (store_names env) content ok ops s"
    using conc_invD(1-3,10) [OF i] c s by (auto simp: conc_safe_def sv_safe_def conc_start_def booted_def)
  then show thesis by (rule that)
qed

text \<open>C6: Requests never block each other for good, and each is answered. However many puts, updates, gets and deletes overlap from the moment
  the service has started (with the sync-async hashing manager and piping, at least one local replica, a bucket size that is not 0 and stores that answer, and
  with fewer than \<open>2\<^sup>6\<^sup>2\<close> requests, so that the counter cannot overflow), and however far each of
  them has come in any interleaving, whether or not two of them have drawn the same revision: from there all of them can run to their end, each
  of them with a response and none with a panic, and then the lock of the index is free.\<close>

theorem every_request_finishes:
  assumes "conc_booted env ops s0" and "2 * int (length ops) < 2 ^ 63 - 1"
  shows "\<exists>es'. let s = conc_run env (es @ es') s0 in
    length (threads s) = length ops \<and> (\<forall>p \<in> set (threads s). \<exists>code msg. p = Done (Ok (Response code msg))) \<and> index_mu (shared s) = unlocked"
proof -
  obtain content ok where "conc_safe env (store_names env) content ok ops s0" by (rule conc_booted_safe [OF assms(1)])
  note safe = run_conc_safe [OF this assms(2)]
  obtain es' where f: "list_all finished (threads (conc_run env es' (conc_run env es s0)))" using finish_all [OF safe assms(2)] by blast
  define s where "s = conc_run env (es @ es') s0"
  have c: "conc_safe env (store_names env) content ok ops s" unfolding s_def by (rule safe)
  then have len: "length (threads s) = length ops" by (simp add: conc_safe_def)
  have fin: "finished p" if "p \<in> set (threads s)" for p using f that by (auto simp: s_def conc_run_def list_all_iff)
  have "\<exists>code msg. p = Done (Ok (Response code msg))" if "p \<in> set (threads s)" for p
  proof -
    obtain t where "t < length ops" "p = threads s ! t" using \<open>p \<in> set (threads s)\<close> len by (metis in_set_conv_nth)
    then have "pc_safe (store_names env) (ops ! t) (ti_revs (indexTree (handler (shared s)))) p" using c by (simp add: conc_safe_def)
    with fin [OF \<open>p \<in> set (threads s)\<close>] show ?thesis by auto
  qed
  moreover have "(\<Sum>p\<leftarrow>threads s. held_locks p) = 0" using fin by (fastforce simp: sum_list_eq_0_iff)
  then have "index_mu (shared s) = unlocked" using c by (cases "index_mu (shared s)") (simp add: conc_safe_def sv_safe_def unlocked_def)
  ultimately show ?thesis using len unfolding s_def Let_def by blast
qed

text \<open>A put, a delete and an update of the same key, after an interleaving that leaves two of them with the same revision.\<close>

theorem every_request_finishes_witness:
  "\<exists>s0 es'. conc_booted mem_env [SPut ''a'' ''x'', SPut ''b'' ''y'', SDelete ''a'', SUpdate ''a'' ''z'' 2] s0 \<and>
     (\<forall>p \<in> set (threads (conc_run mem_env (map turn [0, 1, 0, 1, 2] @ es') s0)). \<exists>code msg. p = Done (Ok (Response code msg)))"
proof -
  let ?ops = "[SPut ''a'' ''x'', SPut ''b'' ''y'', SDelete ''a'', SUpdate ''a'' ''z'' 2]"
  have "case NewKeyValueHandler mem_env mem_probe List.rev of Ok h \<Rightarrow> True | _ \<Rightarrow> False" by code_simp
  then obtain s0 where s0: "conc_booted mem_env ?ops s0" by (rule demo_booted)
  have "2 * int (length ?ops) < 2 ^ 63 - 1" by simp
  from every_request_finishes [OF s0 this, of "map turn [0, 1, 0, 1, 2]"] s0 show ?thesis by (auto simp: Let_def)
qed

end
