(* ===== verification/Tracer.thy ===== *)
theory Tracer
  imports Go_Strings
begin

text \<open>
  The sampling of traces (\<^verbatim>\<open>pkg/tracer/tracer.go\<close>). The sampling rate is a \<^verbatim>\<open>float64\<close>, and the sampler
  compares a random number with a boundary that is computed from the rate in floating point, so the
  theory has Go's \<^verbatim>\<open>float64\<close> as far as the code uses it: comparison with 1, multiplication with rounding
  to 53 bits, and truncation to \<^verbatim>\<open>int\<close>. Of the vendored OpenTelemetry SDK it has the samplers that the code
  composes; the exporter and the environment variables of the SDK are arguments.
\<close>

section \<open>Floating point numbers\<close>

text \<open>\<open>Finite m e\<close> is the number \<open>m * 2 ^ e\<close>. The two zeros are one.\<close>

datatype float64 = Finite int int | PosInf | NegInf | NaN

definition is_float64 :: "int \<Rightarrow> int \<Rightarrow> bool" where
  "is_float64 m e \<longleftrightarrow> \<bar>m\<bar> < 2 ^ 53 \<and> - 1074 \<le> e \<and> e \<le> 971"

fun less_than_1 :: "float64 \<Rightarrow> bool" where
  "less_than_1 (Finite m e) = (if 0 \<le> e then m * 2 ^ nat e < 1 else m < 2 ^ nat (- e))"
| "less_than_1 NegInf = True"
| "less_than_1 _ = False"

fun bit_length :: "nat \<Rightarrow> nat" where
  "bit_length n = (if n = 0 then 0 else Suc (bit_length (n div 2)))"

declare bit_length.simps [simp del]

text \<open>To nearest, ties to even.\<close>

definition round_shift :: "nat \<Rightarrow> nat \<Rightarrow> nat" where
  "round_shift k n =
     (let q = n div 2 ^ k; r = n mod 2 ^ k in
      if 2 * r > 2 ^ k \<or> 2 * r = 2 ^ k \<and> odd q then q + 1 else q)"

definition float_round :: "int \<Rightarrow> int \<Rightarrow> float64" where
  "float_round m e =
     (let k = bit_length (nat \<bar>m\<bar>) - 53; q = round_shift k (nat \<bar>m\<bar>) in
      if 1024 < int (bit_length q) + e + int k then (if 0 < m then PosInf else NegInf)
      else Finite (sgn m * int q) (e + int k))"

text \<open>The product with the integer constant \<open>n > 0\<close>, which \<^verbatim>\<open>float64\<close> has exactly.\<close>

fun float_times :: "int \<Rightarrow> float64 \<Rightarrow> float64" where
  "float_times n (Finite m e) = float_round (n * m) e"
| "float_times n x = x"

text \<open>\<^verbatim>\<open>int(x)\<close> truncates towards zero; for what does not fit, the language leaves the value to the
  implementation: \<open>other\<close>.\<close>

fun float_trunc :: "int \<Rightarrow> int \<Rightarrow> int" where
  "float_trunc m e = (if 0 \<le> e then m * 2 ^ nat e else sgn m * (\<bar>m\<bar> div 2 ^ nat (- e)))"

fun float_to_int :: "(float64 \<Rightarrow> int64) \<Rightarrow> float64 \<Rightarrow> int64" where
  "float_to_int other (Finite m e) =
     (if - (2 ^ 63) \<le> float_trunc m e \<and> float_trunc m e < 2 ^ 63 then word_of_int (float_trunc m e) else other (Finite m e))"
| "float_to_int other x = other x"

section \<open>The samplers\<close>

record probabilisticSampler =
  ps_max :: int64
  boundary :: int64

definition MaxInt32 :: int where
  "MaxInt32 = 2147483647"

definition newProbabilisticSampler :: "(float64 \<Rightarrow> int64) \<Rightarrow> float64 \<Rightarrow> probabilisticSampler" where
  "newProbabilisticSampler other probability =
     \<lparr>ps_max = word_of_int MaxInt32, boundary = float_to_int other (float_times MaxInt32 probability)\<rparr>"

definition ps_Description :: string where
  "ps_Description = ''probabilistic sampler''"

datatype Sampler = AlwaysSample | NeverSample | Probabilistic probabilisticSampler | ParentBased Sampler

text \<open>The span context of the parent; one that is not valid is no parent.\<close>

record span_context =
  sc_valid :: bool
  sc_remote :: bool
  sc_sampled :: bool
  TraceState :: string

datatype decision = Drop | RecordAndSample

text \<open>\<open>r\<close> is what \<^verbatim>\<open>rand.Intn(s.max)\<close> returns, which panics when \<^verbatim>\<open>s.max\<close> is not positive.\<close>

definition ps_ShouldSample :: "probabilisticSampler \<Rightarrow> int \<Rightarrow> span_context \<Rightarrow> (decision \<times> string) result" where
  "ps_ShouldSample s r psc =
     (if sint (ps_max s) \<le> 0 then Panic (PanicError ''invalid argument to Intn'')
      else if r \<ge> sint (boundary s) then Ok (Drop, TraceState psc) else Ok (RecordAndSample, TraceState psc))"

text \<open>The composition of samplers of the SDK: a child follows its parent, remote or not.\<close>

fun ShouldSample :: "Sampler \<Rightarrow> int \<Rightarrow> span_context \<Rightarrow> (decision \<times> string) result" where
  "ShouldSample AlwaysSample r psc = Ok (RecordAndSample, TraceState psc)"
| "ShouldSample NeverSample r psc = Ok (Drop, TraceState psc)"
| "ShouldSample (Probabilistic s) r psc = ps_ShouldSample s r psc"
| "ShouldSample (ParentBased root) r psc =
     (if sc_valid psc
      then if sc_sampled psc then Ok (RecordAndSample, TraceState psc) else Ok (Drop, TraceState psc)
      else ShouldSample root r psc)"

section \<open>The provider\<close>

definition TraceName :: string where
  "TraceName = ''regionless-kv-store''"

definition DefaultTraceEnv :: string where
  "DefaultTraceEnv = ''rkv-test''"

record 'x TracerProvider =
  tp_exporter :: 'x
  tp_resource :: "(string \<times> string) list"
  tp_sampler :: Sampler

text \<open>\<^verbatim>\<open>trace.WithSampler(nil)\<close> changes nothing: the sampler is then the one of the environment variables of the
  SDK (\<open>env_sampler\<close>) or its default.\<close>

definition newTracerProvider :: "(string \<Rightarrow> error + 'x) \<Rightarrow> (float64 \<Rightarrow> int64) \<Rightarrow> Sampler option \<Rightarrow> string \<Rightarrow> float64 \<Rightarrow> string
    \<Rightarrow> 'x TracerProvider result" where
  "newTracerProvider jaeger other env_sampler traceEnv samplingRate url =
     (let sampler = (if less_than_1 samplingRate then Some (ParentBased (Probabilistic (newProbabilisticSampler other samplingRate))) else None) in
      case jaeger url of
        Inl err \<Rightarrow> Err err
      | Inr expo \<Rightarrow>
          Ok \<lparr>tp_exporter = expo, tp_resource = [(''service.name'', TraceName), (''environment'', traceEnv)],
              tp_sampler = (case sampler of Some s \<Rightarrow> s
                            | None \<Rightarrow> (case env_sampler of Some s \<Rightarrow> s | None \<Rightarrow> ParentBased AlwaysSample))\<rparr>)"

text \<open>\<^verbatim>\<open>log.Fatal\<close> ends the program; the result is the global provider.\<close>

definition SetupTracer :: "(string \<Rightarrow> error + 'x) \<Rightarrow> (float64 \<Rightarrow> int64) \<Rightarrow> Sampler option \<Rightarrow> string \<Rightarrow> float64 \<Rightarrow> string
    \<Rightarrow> 'x TracerProvider result" where
  "SetupTracer jaeger other env_sampler traceEnv samplingRate jaegerServer =
     newTracerProvider jaeger other env_sampler traceEnv samplingRate (jaegerServer @ ''/api/traces'')"

section \<open>The boundary\<close>

lemma bit_length_bounds: "n \<noteq> 0 \<Longrightarrow> 2 ^ (bit_length n - 1) \<le> n \<and> n < 2 ^ bit_length n \<and> 0 < bit_length n"
proof (induction n rule: bit_length.induct)
  case (1 n)
  then have b: "bit_length n = Suc (bit_length (n div 2))" by (simp add: bit_length.simps)
  show ?case
  proof (cases "n div 2 = 0")
    case True
    then have "n = 1" using 1(2) by simp
    moreover have "bit_length (Suc 0) = 1" by (simp add: bit_length.simps)
    ultimately show ?thesis by simp
  next
    case False
    note IH = 1(1) [OF 1(2) False]
    then obtain l where l: "bit_length (n div 2) = Suc l" by (cases "bit_length (n div 2)") auto
    then show ?thesis using IH b by auto
  qed
qed

lemma round_shift_bounds: "n div 2 ^ k \<le> round_shift k n \<and> round_shift k n \<le> n div 2 ^ k + 1"
  by (simp add: round_shift_def Let_def)

lemma dividend_less_times_div2: "0 < d \<Longrightarrow> x < (x div d + 1) * d" for x d :: int
  using div_mult_mod_eq [of x d] pos_mod_bound [of d x] unfolding distrib_right by linarith

lemma round_shift_close:
  "int (round_shift k n) * 2 ^ k \<le> int n + 2 ^ k" "int n < (int (round_shift k n) + 1) * 2 ^ k"
proof -
  define q r where "q = n div 2 ^ k" and "r = n mod 2 ^ k"
  have n: "n = q * 2 ^ k + r" "r < 2 ^ k" unfolding q_def r_def by (rule div_mult_mod_eq [symmetric]) simp
  have "q \<le> round_shift k n" "round_shift k n \<le> q + 1" using round_shift_bounds [of n k] by (simp_all add: q_def)
  then have "round_shift k n * 2 ^ k \<le> (q + 1) * 2 ^ k" "(q + 1) * 2 ^ k \<le> (round_shift k n + 1) * 2 ^ k"
    by (intro mult_right_mono; simp)+
  moreover have "(q + 1) * 2 ^ k \<le> n + 2 ^ k" "n < (q + 1) * 2 ^ k" using n unfolding add_mult_distrib by simp_all
  ultimately have "round_shift k n * 2 ^ k \<le> n + 2 ^ k" "n < (round_shift k n + 1) * 2 ^ k" by linarith+
  then have "int (round_shift k n * 2 ^ k) \<le> int (n + 2 ^ k)" "int n < int ((round_shift k n + 1) * 2 ^ k)" by (simp_all only: of_nat_le_iff of_nat_less_iff)
  then show "int (round_shift k n) * 2 ^ k \<le> int n + 2 ^ k" "int n < (int (round_shift k n) + 1) * 2 ^ k"
    by (simp_all add: distrib_right)
qed

lemma bit_length_le:
  assumes "n < 2 ^ j"
  shows "bit_length n \<le> j"
proof (cases "n = 0")
  case False
  then have "(2 :: nat) ^ (bit_length n - 1) < 2 ^ j" using bit_length_bounds [OF False] assms by linarith
  then show ?thesis by simp
qed (simp add: bit_length.simps)

lemma round_shift_le: "round_shift (bit_length n - 53) n \<le> 2 ^ 53"
proof -
  have "n < 2 ^ bit_length n" using bit_length_bounds [of n] by (cases "n = 0") auto
  also have "\<dots> \<le> 2 ^ (53 + (bit_length n - 53))" by (rule power_increasing) auto
  finally have "n div 2 ^ (bit_length n - 53) < 2 ^ 53" by (simp add: power_add less_mult_imp_div_less)
  then show ?thesis using round_shift_bounds [of n "bit_length n - 53"] by linarith
qed

text \<open>Truncation after rounding stays within one of the exact number.\<close>

lemma float_trunc_round:
  assumes "n < 2 ^ (31 + d)" and "0 < d" and "0 < n"
  defines "b \<equiv> int (round_shift (bit_length n - 53) n) div 2 ^ (d - (bit_length n - 53))"
  shows "float_to_int other (float_round (int n) (- int d)) = word_of_int b"
    and "0 \<le> b" and "b * 2 ^ d < int n + 2 ^ d" and "int n < (b + 1) * 2 ^ d"
proof -
  define k q where "k = bit_length n - 53" and "q = round_shift k n"
  have b: "b = int q div 2 ^ (d - k)" by (simp add: b_def k_def q_def)
  have k: "k < d" using bit_length_le [OF assms(1)] assms(2) by (simp add: k_def)
  then have dk: "(2 :: int) ^ d = 2 ^ (d - k) * 2 ^ k" by (simp flip: power_add)
  show "0 \<le> b" unfolding b by (rule div_int_pos_iff [THEN iffD2]) simp
  have "b * 2 ^ d \<le> int q * 2 ^ k" unfolding dk b mult.assoc [symmetric] by (intro mult_right_mono) (simp_all add: minus_mod_eq_div_mult [symmetric])
  also have "\<dots> \<le> int n + 2 ^ k" unfolding q_def by (rule round_shift_close)
  also have "\<dots> < int n + 2 ^ d" using k by simp
  finally show "b * 2 ^ d < int n + 2 ^ d" .
  have "int q < (b + 1) * 2 ^ (d - k)" unfolding b by (rule dividend_less_times_div2) simp
  then have "int q + 1 \<le> (b + 1) * 2 ^ (d - k)" by simp
  then have "(int q + 1) * 2 ^ k \<le> (b + 1) * 2 ^ (d - k) * 2 ^ k" by (intro mult_right_mono) simp_all
  then show "int n < (b + 1) * 2 ^ d"
    unfolding dk mult.assoc [symmetric] using round_shift_close(2) [of n k] by (simp only: q_def)
  have q: "q \<le> 2 ^ 53" unfolding q_def k_def by (rule round_shift_le)
  then have "q < 2 ^ 54" by simp
  then have "bit_length q \<le> 54" by (rule bit_length_le)
  then have f: "float_round (int n) (- int d) = Finite (int q) (- int d + int k)"
    using k assms(3) by (simp add: float_round_def Let_def k_def [symmetric] q_def [symmetric])
  have "nat (int d - int k) = d - k" by (simp add: nat_diff_distrib)
  then have t: "float_trunc (int q) (- int d + int k) = b" using k by (cases "q = 0") (simp_all add: b)
  have "b = int (q div 2 ^ (d - k))" unfolding b by (simp add: zdiv_int)
  then have "b \<le> int q" by simp
  moreover have "int q \<le> 2 ^ 53" using q by simp
  ultimately have "b < 2 ^ 63" by simp
  then show "float_to_int other (float_round (int n) (- int d)) = word_of_int b" using \<open>0 \<le> b\<close> unfolding f float_to_int.simps t by simp
qed

lemma boundary_close:
  assumes "is_float64 m e" and "0 \<le> m" and "less_than_1 (Finite m e)"
  obtains b where "float_to_int other (float_times MaxInt32 (Finite m e)) = word_of_int b"
    and "0 \<le> b" and "b \<le> MaxInt32" and "\<bar>b * 2 ^ nat (- e) - MaxInt32 * m\<bar> < 2 ^ nat (- e)"
proof (cases "m = 0")
  case True
  then show thesis using that [of 0] assms(1)
    by (simp add: float_round_def round_shift_def bit_length.simps is_float64_def MaxInt32_def Let_def)
next
  case False
  have "1 \<le> m * 2 ^ nat e" using False assms(2) by (metis int_one_le_iff_zero_less le_less zero_less_mult_iff zero_less_numeral zero_less_power)
  then have e: "e < 0" "m < 2 ^ nat (- e)" using assms(3) by (auto split: if_splits)
  define n where "n = nat (MaxInt32 * m)"
  have n: "int n = MaxInt32 * m" "0 < n" using False assms(2) by (simp_all add: n_def MaxInt32_def)
  have "int n < 2 ^ 31 * 2 ^ nat (- e)" unfolding n(1) MaxInt32_def using e(2) assms(2) by (intro mult_strict_mono) simp_all
  then have "int n < int (2 ^ (31 + nat (- e)))" unfolding power_add by simp
  then have "n < 2 ^ (31 + nat (- e))" by (rule of_nat_less_iff [THEN iffD1])
  note T = float_trunc_round [OF this _ n(2)]
  define b where "b = int (round_shift (bit_length n - 53) n) div 2 ^ (nat (- e) - (bit_length n - 53))"
  have b: "float_to_int other (float_round (int n) e) = word_of_int b" "0 \<le> b" "b * 2 ^ nat (- e) < int n + 2 ^ nat (- e)"
      "int n < (b + 1) * 2 ^ nat (- e)"
    using T e(1) unfolding b_def by simp_all
  have "b * 2 ^ nat (- e) < MaxInt32 * 2 ^ nat (- e) + 2 ^ nat (- e)"
    using b(3) e(2) unfolding n(1) MaxInt32_def by linarith
  then have "b * 2 ^ nat (- e) < (MaxInt32 + 1) * 2 ^ nat (- e)" unfolding distrib_right by simp
  then have "b < MaxInt32 + 1" by (rule mult_right_less_imp_less) simp
  then show thesis using b n(1) by (intro that [of b]) (simp_all add: algebra_simps abs_less_iff)
qed

text \<open>C22: A trace is sampled at the configured rate. With a rate \<open>m * 2 ^ e\<close> below 1 the decision on a span without
  a parent is to sample it for exactly \<open>b\<close> of the \<open>2 ^ 31 - 1\<close> numbers that may be drawn, where \<open>b\<close> differs from
  the exact share by less than 1 in spite of the rounding of the product; with a rate of 1 or more it is always sampled. A span
  with a parent is sampled if and only if its parent is. The trace state is kept.\<close>

theorem traces_sampled_at_rate:
  assumes "SetupTracer jaeger other None traceEnv (Finite m e) server = Ok tp" and "is_float64 m e" and "0 \<le> m"
  shows "\<exists>b. 0 \<le> b \<and> b \<le> MaxInt32 \<and>
    (if less_than_1 (Finite m e) then \<bar>b * 2 ^ nat (- e) - MaxInt32 * m\<bar> < 2 ^ nat (- e) else b = MaxInt32) \<and>
    (\<forall>r psc. 0 \<le> r \<and> r < MaxInt32 \<longrightarrow> ShouldSample (tp_sampler tp) r psc =
       Ok (if (if sc_valid psc then sc_sampled psc else r < b) then RecordAndSample else Drop, TraceState psc))"
proof (cases "less_than_1 (Finite m e)")
  case True
  obtain b where b: "float_to_int other (float_times MaxInt32 (Finite m e)) = word_of_int b"
      "0 \<le> b" "b \<le> MaxInt32" "\<bar>b * 2 ^ nat (- e) - MaxInt32 * m\<bar> < 2 ^ nat (- e)"
    by (rule boundary_close [OF assms(2,3) True])
  have "sint (word_of_int b :: int64) = b" using b(2,3) by (intro sint64_of_int) (simp_all add: MaxInt32_def)
  then have "\<forall>r psc. ps_ShouldSample (newProbabilisticSampler other (Finite m e)) r psc =
      Ok (if r < b then RecordAndSample else Drop, TraceState psc)"
    using b(1) by (simp add: ps_ShouldSample_def newProbabilisticSampler_def MaxInt32_def sint64_of_int del: float_times.simps)
  moreover have "tp_sampler tp = ParentBased (Probabilistic (newProbabilisticSampler other (Finite m e)))"
    using assms(1) True by (auto simp: SetupTracer_def newTracerProvider_def split: sum.splits)
  ultimately show ?thesis using b True by (intro exI [of _ b]) simp
next
  case False
  then have "tp_sampler tp = ParentBased AlwaysSample"
    using assms(1) by (auto simp: SetupTracer_def newTracerProvider_def split: sum.splits)
  then show ?thesis using False by (intro exI [of _ MaxInt32]) (simp add: MaxInt32_def)
qed

text \<open>A rate of one quarter.\<close>

theorem traces_sampled_at_rate_witness:
  "\<exists>tp b. SetupTracer (\<lambda>url. Inr url) (\<lambda>_. 0) None DefaultTraceEnv (Finite 1 (- 2)) ''http://localhost:14268'' = Ok tp \<and>
     \<bar>b * 4 - MaxInt32\<bar> < 4 \<and>
     (\<forall>r psc. 0 \<le> r \<and> r < MaxInt32 \<longrightarrow> ShouldSample (tp_sampler tp) r psc =
        Ok (if (if sc_valid psc then sc_sampled psc else r < b) then RecordAndSample else Drop, TraceState psc))"
proof -
  obtain tp where tp: "SetupTracer (\<lambda>url. Inr url) (\<lambda>_. 0) None DefaultTraceEnv (Finite 1 (- 2)) ''http://localhost:14268'' = Ok tp"
    by (simp add: SetupTracer_def newTracerProvider_def)
  have "is_float64 1 (- 2)" by (simp add: is_float64_def)
  from traces_sampled_at_rate [OF tp this] tp show ?thesis by auto
qed

end
