(* ===== verification/XXHash.thy ===== *)
theory XXHash
  imports Go_Strings
begin

text \<open>
  The hash function of the ring and of the rendezvous hashing, \<^verbatim>\<open>rkvHash\<close> of \<^verbatim>\<open>pkg/partition/consistent/hashing.go\<close>: the
  digest \<^verbatim>\<open>Sum64\<close> of the vendored package \<^verbatim>\<open>github.com/cespare/xxhash\<close> (\<^verbatim>\<open>xxhash_other.go\<close>, the version in Go). The
  components that hash take their hash function as an argument; this is the one the program gives them.
\<close>

unbundle bit_operations_syntax

definition prime1 :: uint64 where
  "prime1 = 11400714785074694791"

definition prime2 :: uint64 where
  "prime2 = 14029467366897019727"

definition prime3 :: uint64 where
  "prime3 = 1609587929392839161"

definition prime4 :: uint64 where
  "prime4 = 9650029242287828579"

definition prime5 :: uint64 where
  "prime5 = 2870177450012600261"

text \<open>\<^verbatim>\<open>u64\<close> and \<^verbatim>\<open>u32\<close> read little-endian numbers.\<close>

primrec le_word :: "bytes \<Rightarrow> uint64" where
  "le_word [] = 0"
| "le_word (c # cs) = of_nat (of_char c) + 256 * le_word cs"

definition u64 :: "bytes \<Rightarrow> uint64" where
  "u64 b = le_word (take 8 b)"

definition u32 :: "bytes \<Rightarrow> uint64" where
  "u32 b = le_word (take 4 b)"

definition xx_round :: "uint64 \<Rightarrow> uint64 \<Rightarrow> uint64" where
  "xx_round acc input = word_rotl 31 (acc + input * prime2) * prime1"

definition mergeRound :: "uint64 \<Rightarrow> uint64 \<Rightarrow> uint64" where
  "mergeRound acc val = (acc XOR xx_round 0 val) * prime1 + prime4"

text \<open>The loop over blocks of 32 bytes, on the four accumulators.\<close>

function block_loop :: "bytes \<Rightarrow> uint64 \<times> uint64 \<times> uint64 \<times> uint64 \<Rightarrow> bytes \<times> uint64 \<times> uint64 \<times> uint64 \<times> uint64" where
  "block_loop b (v1, v2, v3, v4) =
     (if 32 \<le> length b
      then block_loop (drop 32 b) (xx_round v1 (u64 b), xx_round v2 (u64 (drop 8 b)), xx_round v3 (u64 (drop 16 b)), xx_round v4 (u64 (drop 24 b)))
      else (b, v1, v2, v3, v4))"
  by pat_completeness auto
termination
  by (relation "measure (\<lambda>(b, v). length b)") auto

declare block_loop.simps [simp del]

function tail_8 :: "bytes \<Rightarrow> uint64 \<Rightarrow> bytes \<times> uint64" where
  "tail_8 b h = (if 8 \<le> length b then tail_8 (drop 8 b) (word_rotl 27 (h XOR xx_round 0 (u64 b)) * prime1 + prime4) else (b, h))"
  by pat_completeness auto
termination
  by (relation "measure (\<lambda>(b, h). length b)") auto

declare tail_8.simps [simp del]

definition tail_4 :: "bytes \<times> uint64 \<Rightarrow> bytes \<times> uint64" where
  "tail_4 bh = (let (b, h) = bh in if 4 \<le> length b then (drop 4 b, word_rotl 23 (h XOR u32 b * prime1) * prime2 + prime3) else (b, h))"

definition tail_1 :: "bytes \<times> uint64 \<Rightarrow> uint64" where
  "tail_1 bh = (let (b, h) = bh in fold (\<lambda>c h. word_rotl 11 (h XOR of_nat (of_char c) * prime5) * prime1) b h)"

definition avalanche :: "uint64 \<Rightarrow> uint64" where
  "avalanche h0 =
     (let h1 = (h0 XOR drop_bit 33 h0) * prime2;
          h2 = (h1 XOR drop_bit 29 h1) * prime3
      in h2 XOR drop_bit 32 h2)"

definition Sum64 :: "bytes \<Rightarrow> uint64" where
  "Sum64 b =
     (let n = length b;
          (rest, h) = (if 32 \<le> n
             then (case block_loop b (prime1 + prime2, prime2, 0, - prime1) of
                     (rest, v1, v2, v3, v4) \<Rightarrow>
                       (rest, mergeRound (mergeRound (mergeRound (mergeRound
                          (word_rotl 1 v1 + word_rotl 7 v2 + word_rotl 12 v3 + word_rotl 18 v4) v1) v2) v3) v4))
             else (b, prime5))
      in avalanche (tail_1 (tail_4 (tail_8 rest (h + of_nat n)))))"

definition rkvHash_Hash :: "bytes \<Rightarrow> uint64" where
  "rkvHash_Hash key = Sum64 key"

lemma Sum64_empty: "Sum64 [] = 0xef46db3751d8e999"
  by code_simp

lemma Sum64_a: "Sum64 ''a'' = 0xd24ec4f1a98c6e5b"
  by code_simp

lemma le_word_value: "le_word b = of_nat (le_value b)"
  by (induction b) simp_all

lemma Sum64_asdf: "Sum64 ''asdf'' = 0x415872f599cea71e"
  by code_simp

end
