(* ===== verification/Startup.thy ===== *)
theory Startup
  imports Service_Refinement Tracer XXHash
begin

text \<open>
  From the start of the process to the handler that serves (\<^verbatim>\<open>main\<close> of \<^verbatim>\<open>cmd/http/main.go\<close>): the tracer, the
  configuration file (\<^verbatim>\<open>NewKVConfiguration\<close>), the stores, the measured latencies (\<^verbatim>\<open>connectDuration\<close>) and the
  handler. What the operating system and the network answer is collected in the record \<open>machine\<close>; the values of the
  flags are an argument.
\<close>

section \<open>The configuration file\<close>

text \<open>Package \<^verbatim>\<open>path\<close>: the components of a path are put on a stack, the top first.\<close>

fun clean_step :: "bool \<Rightarrow> string \<Rightarrow> string list \<Rightarrow> string list" where
  "clean_step rooted c st =
     (if c = [] \<or> c = ''.'' then st
      else if c = ''..'' then
        (case st of
           [] \<Rightarrow> if rooted then [] else [''..'']
         | d # ds \<Rightarrow> if d = ''..'' then ''..'' # st else ds)
      else c # st)"

definition path_Clean :: "string \<Rightarrow> string" where
  "path_Clean p =
     (let rooted = (take 1 p = ''/'');
          body = Join (rev (fold (clean_step rooted) (Split p ''/'') [])) ''/''
      in if rooted then ''/'' @ body else if body = [] then ''.'' else body)"

definition path_Dir :: "string \<Rightarrow> string" where
  "path_Dir p = path_Clean (Join (butlast (Split p ''/'') @ [[]]) ''/'')"

definition path_Join :: "string list \<Rightarrow> string" where
  "path_Join elems = (if filter (\<lambda>e. e \<noteq> []) elems = [] then [] else path_Clean (Join (filter (\<lambda>e. e \<noteq> []) elems) ''/''))"

definition zero_conf :: KVConfiguration where
  "zero_conf = \<lparr>ConsistentHash = [], conf_StoreType = [], conf_HashingManagerType = [], conf_PipingType = [], Stores = [],
     BucketSize = 0, Concurrent = False, RemoteStoreLatencyThresholdInMilliSec = 0, LocalReplicaNum = 0, RemoteReplicaNum = 0\<rparr>"

text \<open>What \<^verbatim>\<open>os.Open\<close> gives for a path: an error, or a file, known by what the JSON decoder makes of it: the fields it sets in a
  configuration and its error.\<close>

type_synonym config_file = "KVConfiguration \<Rightarrow> KVConfiguration \<times> error option"

text \<open>\<open>caller\<close> is the source file of the calling function, when \<^verbatim>\<open>runtime.Caller\<close> knows it.\<close>

definition NewKVConfiguration :: "string option \<Rightarrow> (string \<Rightarrow> error + config_file) \<Rightarrow> string \<Rightarrow> KVConfiguration \<times> error option" where
  "NewKVConfiguration caller open_file fileName =
     (case caller of
        None \<Rightarrow> (zero_conf, Some (ErrorString (''failed to open the given config file '' @ fileName)))
      | Some runningfile \<Rightarrow>
          (case open_file (path_Join [path_Dir runningfile, fileName]) of
             Inl err \<Rightarrow> (zero_conf, Some err)
           | Inr decode \<Rightarrow> decode zero_conf))"

section \<open>The duration of a connection\<close>

text \<open>Times are nanoseconds; \<^verbatim>\<open>Time.Sub\<close> saturates. A dial is the time before the call, the hooks that were called
  with their times, the time after the call and its error.\<close>

datatype hook = DNSDone int | GotConn int

record dial =
  dl_start :: int
  dl_hooks :: "hook list"
  dl_end :: int
  dl_err :: "error option"

definition time_Sub :: "int \<Rightarrow> int \<Rightarrow> int64" where
  "time_Sub t u = word_of_int (max (- (2 ^ 63)) (min (2 ^ 63 - 1) (t - u)))"

fun call_hook :: "hook \<Rightarrow> int \<times> int \<times> bool \<Rightarrow> int \<times> int \<times> bool" where
  "call_hook (DNSDone t) (start, fin, success) = (t, fin, success)"
| "call_hook (GotConn t) (start, fin, success) = (start, t, True)"

text \<open>The last component says that the connection was closed.\<close>

definition connectDuration :: "dial \<Rightarrow> connect_outcome \<times> bool" where
  "connectDuration d =
     (let (start, fin, success) = fold call_hook (dl_hooks d) (dl_start d, 0, False);
          fin' = (if \<not> success then dl_end d else fin)
      in ((time_Sub fin' start, dl_err d), dl_err d = None))"

section \<open>The main function\<close>

record flags =
  fl_url :: string
  fl_trace_env :: string
  fl_jaeger_server :: string
  fl_trace_sampling_rate :: float64

definition default_flags :: flags where
  "default_flags = \<lparr>fl_url = '':8090'', fl_trace_env = DefaultTraceEnv, fl_jaeger_server = ''http://localhost:14268'',
     fl_trace_sampling_rate = Finite 1 0\<rparr>"

record 'x machine =
  jaeger :: "string \<Rightarrow> error + 'x"
  float_other :: "float64 \<Rightarrow> int64"
  env_sampler :: "Sampler option"
  caller :: "string option"
  open_file :: "string \<Rightarrow> error + config_file"
  dials :: "nat \<Rightarrow> dial list"
  map_order :: "(AvailabilityZone \<times> RkvNode list) list \<Rightarrow> (AvailabilityZone \<times> RkvNode list) list"

definition probe_of :: "'x machine \<Rightarrow> nat \<Rightarrow> connect_outcome list" where
  "probe_of m i = map (fst \<circ> connectDuration) (dials m i)"

text \<open>The program when it listens: the provider of traces, the path and the address it serves, and the state of the service.\<close>

record ('s, 'x) serving =
  sv_tracer :: "'x TracerProvider option"
  sv_path :: string
  sv_address :: string
  sv_env :: "'s env"
  sv_server :: "'s server"

text \<open>\<open>Err\<close> is the end by \<^verbatim>\<open>log.Fatal\<close>, \<open>Panic\<close> the end by a panic. The configuration in \<open>env\<close> is replaced by the one
  that is read.\<close>

definition main_start :: "flags \<Rightarrow> 'x machine \<Rightarrow> 's env \<Rightarrow> 's world \<Rightarrow> ('s, 'x) serving result" where
  "main_start fl m env w =
     result_bind
       (if length (fl_trace_env fl) \<noteq> 0
        then result_bind (SetupTracer (jaeger m) (float_other m) (env_sampler m) (fl_trace_env fl) (fl_trace_sampling_rate fl) (fl_jaeger_server fl))
               (\<lambda>tp. Ok (Some tp))
        else Ok None)
       (\<lambda>tp. case NewKVConfiguration (caller m) (open_file m) ''config.json'' of
          (c, Some err) \<Rightarrow> Panic (PanicError (''error setting gateway agent configuration: '' @ error_text (env_quote env) err))
        | (c, None) \<Rightarrow>
            (let env' = env\<lparr>env_conf := c\<rparr>; w1 = create_storages c (Stores c) w in
             result_bind (NewKeyValueHandler env' (probe_of m) (map_order m))
               (\<lambda>h. Ok \<lparr>sv_tracer = tp, sv_path = ''/kv'', sv_address = fl_url fl, sv_env = env', sv_server = booted h w1\<rparr>)))"

section \<open>Paths\<close>

abbreviation plain_name :: "string \<Rightarrow> bool" where
  "plain_name c \<equiv> c \<noteq> [] \<and> c \<noteq> ''.'' \<and> c \<noteq> ''..'' \<and> CHR ''/'' \<notin> set c"

lemma clean_plain: "list_all plain_name cs \<Longrightarrow> fold (clean_step b) cs st = rev cs @ st"
  by (induction cs arbitrary: st) simp_all

lemma Join_Cons_ne: "xs \<noteq> [] \<Longrightarrow> Join (x # xs) sep = x @ sep @ Join xs sep"
  by (cases xs) simp_all

lemma plain_no_slash: "list_all plain_name cs \<Longrightarrow> \<forall>x \<in> set ([] # cs). CHR ''/'' \<notin> set x"
  by (induction cs) auto

lemma Split_path:
  assumes "list_all plain_name cs" and "cs \<noteq> []"
  shows "Split (''/'' @ Join cs ''/'') ''/'' = [] # cs"
  using Split_Join [of "[] # cs" "CHR ''/''"] plain_no_slash [OF assms(1)] Join_Cons_ne [OF assms(2), of "[]" "''/''"] by simp

lemma Clean_plain: "list_all plain_name cs \<Longrightarrow> cs \<noteq> [] \<Longrightarrow> path_Clean (''/'' @ Join cs ''/'') = ''/'' @ Join cs ''/''"
  using Split_path [of cs] by (simp add: path_Clean_def Let_def clean_plain del: append_Cons)

text \<open>The configuration is read from the directory of the source file that calls.\<close>

lemma Join_snoc: "xs \<noteq> [] \<Longrightarrow> Join (xs @ [y]) sep = Join xs sep @ sep @ y"
  by (induction xs sep rule: Join.induct) simp_all

lemma path_Dir_plain:
  assumes "list_all plain_name cs" and "cs \<noteq> []" and "plain_name base"
  shows "path_Dir (''/'' @ Join (cs @ [base]) ''/'') = ''/'' @ Join cs ''/''"
proof -
  let ?dir = "Join ([] # cs @ [[]]) ''/''"
  have "Split (''/'' @ Join (cs @ [base]) ''/'') ''/'' = [] # cs @ [base]"
    using Split_path [of "cs @ [base]"] assms(1,3) by simp
  then have "path_Dir (''/'' @ Join (cs @ [base]) ''/'') = path_Clean ?dir" by (simp add: path_Dir_def butlast_append)
  moreover have "Split ?dir ''/'' = [] # cs @ [[]]" using Split_Join [of "[] # cs @ [[]]"] plain_no_slash [OF assms(1)] by simp
  moreover have "take 1 ?dir = ''/''" using assms(2) by (simp add: Join_Cons_ne)
  ultimately show ?thesis using assms(1) by (simp add: path_Clean_def Let_def clean_plain)
qed

lemma config_beside_caller:
  assumes "list_all plain_name (cs @ [base, fileName])" and "cs \<noteq> []"
  shows "path_Join [path_Dir (''/'' @ Join (cs @ [base]) ''/''), fileName] = ''/'' @ Join (cs @ [fileName]) ''/''"
proof -
  have "path_Dir (''/'' @ Join (cs @ [base]) ''/'') = ''/'' @ Join cs ''/''" using assms by (intro path_Dir_plain) simp_all
  moreover have "path_Clean (''/'' @ Join (cs @ [fileName]) ''/'') = ''/'' @ Join (cs @ [fileName]) ''/''"
    using assms by (intro Clean_plain) simp_all
  ultimately show ?thesis using assms by (simp add: path_Join_def Join_snoc)
qed

section \<open>Connections\<close>

lemma sint_time_Sub: "\<bar>t - u\<bar> < 2 ^ 63 \<Longrightarrow> sint (time_Sub t u) = t - u"
  unfolding time_Sub_def by (subst sint64_of_int) (auto simp: abs_less_iff)

text \<open>A dialer calls no \<^verbatim>\<open>GotConn\<close>: the duration runs from the end of the name resolution, if there is one, to the
  return of the dial, and is not negative.\<close>

lemma fold_DNSDone:
  "list_all (\<lambda>h. \<exists>t. h = DNSDone t \<and> a \<le> t \<and> t \<le> b) hs \<Longrightarrow> a \<le> start \<Longrightarrow> start \<le> b \<Longrightarrow>
   \<exists>u. fold call_hook hs (start, fin, False) = (u, fin, False) \<and> a \<le> u \<and> u \<le> b"
  by (induction hs arbitrary: start) auto

lemma connectDuration_bounds:
  assumes "list_all (\<lambda>h. \<exists>t. h = DNSDone t \<and> dl_start d \<le> t \<and> t \<le> dl_end d) (dl_hooks d)"
    and "dl_start d \<le> dl_end d" and "dl_end d - dl_start d < 2 ^ 63"
  shows "\<exists>v. connectDuration d = ((v, dl_err d), dl_err d = None) \<and> 0 \<le> sint v \<and> sint v \<le> dl_end d - dl_start d"
proof -
  obtain u where u: "fold call_hook (dl_hooks d) (dl_start d, 0, False) = (u, 0, False)" "dl_start d \<le> u" "u \<le> dl_end d"
    using fold_DNSDone [OF assms(1) order.refl assms(2)] by blast
  then have "sint (time_Sub (dl_end d) u) = dl_end d - u" using assms(3) by (intro sint_time_Sub) simp
  with u show ?thesis by (simp add: connectDuration_def)
qed

section \<open>The stores after the start\<close>

lemma createRedisDatabase_urls:
  assumes "createRedisDatabase c url w = (db, w1)"
  shows "pool_urls c w1 = pool_urls c w" and "redis w1 = redis w"
proof -
  have "pool_urls c w1 = pool_urls c w \<and> redis w1 = redis w"
  proof (cases "pools w")
    case None
    obtain ps where ps: "pools (InitStorageInstancePool (Stores c) w) = Some ps" by (simp add: InitStorageInstancePool_def)
    then have "set ps = store_url ` set (Stores c)" by (rule set_InitStorageInstancePool)
    then show ?thesis using assms None ps
      by (auto simp: createRedisDatabase_def pool_urls_def Let_def) (simp add: InitStorageInstancePool_def)
  qed (use assms in \<open>auto simp: createRedisDatabase_def Let_def\<close>)
  then show "pool_urls c w1 = pool_urls c w" and "redis w1 = redis w" by simp_all
qed

lemma db_Factory_urls:
  assumes "db_Factory c ty store w = (res, w1)"
  shows "pool_urls c w1 = pool_urls c w" and "redis w1 = redis w" and "Storages w1 = Storages w"
  using assms createRedisDatabase_urls [of c "store_url store" w]
  by (auto simp: db_Factory_def NewMemDatabase_def pool_urls_def createRedisDatabase_def InitStorageInstancePool_def Let_def
      split: if_splits prod.splits option.splits)

lemma create_storages_urls:
  "pool_urls c (create_storages c stores w) = pool_urls c w \<and> redis (create_storages c stores w) = redis w"
proof (induction stores arbitrary: w)
  case (Cons store stores)
  obtain res w1 where f: "db_Factory c (conf_StoreType c) store w = (res, w1)" by force
  note F = db_Factory_urls [OF f]
  have "pool_urls c (w1\<lparr>Storages := x\<rparr>) = pool_urls c w1" for x by (simp add: pool_urls_def)
  then show ?case using Cons F by (cases res) (simp_all add: f)
qed simp

text \<open>Every store of a known type has a database under its name.\<close>

definition known_type :: "StoreType \<Rightarrow> bool" where
  "known_type ty \<longleftrightarrow> ty \<in> {Redis, Memory, DummyLatency}"

lemma db_Factory_Ok: "known_type ty \<Longrightarrow> \<exists>db w1. db_Factory c ty store w = (Ok db, w1)"
  by (auto simp: known_type_def db_Factory_def split: prod.splits)

lemma create_storages_dom:
  assumes "known_type (conf_StoreType c)"
  shows "dom (map_of (Storages (create_storages c stores w))) = dom (map_of (Storages w)) \<union> store_Name ` set stores"
proof (induction stores arbitrary: w)
  case (Cons store stores)
  obtain db w1 where f: "db_Factory c (conf_StoreType c) store w = (Ok db, w1)" using db_Factory_Ok [OF assms] by blast
  then show ?case using Cons db_Factory_urls(3) [OF f] by (auto simp: f update_conv')
qed simp

lemma create_storages_unknown:
  assumes "\<not> known_type (conf_StoreType c)"
  shows "create_storages c stores w = w"
  by (induction stores) (use assms in \<open>auto simp: known_type_def db_Factory_def\<close>)

section \<open>Properties\<close>

text \<open>What a start leads to.\<close>

lemma main_startD:
  assumes "main_start fl m env w = Ok s"
  obtains c h where "NewKVConfiguration (caller m) (open_file m) ''config.json'' = (c, None)" and "sv_env s = env\<lparr>env_conf := c\<rparr>"
    and "NewKeyValueHandler (sv_env s) (probe_of m) (map_order m) = Ok h" and "sv_server s = booted h (create_storages c (Stores c) w)"
    and "sv_path s = ''/kv''" and "sv_address s = fl_url fl"
proof -
  obtain c err where c: "NewKVConfiguration (caller m) (open_file m) ''config.json'' = (c, err)" by force
  show thesis using assms c that by (cases err) (auto simp: main_start_def Let_def)
qed

text \<open>C7: The program from its start on. When \<^verbatim>\<open>main\<close> gets to listen, it serves the path \<^verbatim>\<open>/kv\<close> with the configuration that it has read, every
  store of a known type has a database under its name, and every schedule of requests and background jobs is answered as the
  map of versions answers it, as long as the configuration is sensible and the stores are in memory or Redis servers that are up
  and answer as documented.\<close>

theorem started_service_refines_map:
  assumes "main_start fl m env w = Ok s" and "deployment_ok (sv_env s) (probe_of m)" and "\<forall>ls. mset (map_order m ls) = mset ls"
    and "pools w = None" and "conf_StoreType (env_conf (sv_env s)) = Memory \<or> conf_StoreType (env_conf (sv_env s)) = Redis \<and>
      redis_service (env_api env) store up \<and> (\<forall>x \<in> set (Stores (env_conf (sv_env s))). up (redis w) (store_url x))"
    and "\<forall>e \<in> set es. fair_event e" and "2 * int (length es) < 2 ^ 63" and "svc_run (sv_env s) es (sv_server s) = (answers, sv)"
  shows "sv_path s = ''/kv'' \<and> fst (NewKVConfiguration (caller m) (open_file m) ''config.json'') = env_conf (sv_env s) \<and>
    store_Name ` set (Stores (env_conf (sv_env s))) \<subseteq> dom (map_of (Storages (wd (sv_server s)))) \<and>
    map fst answers = requests es \<and> (\<exists>v. explains kv_answer (\<lambda>_. []) answers v)"
proof -
  obtain c h where c: "NewKVConfiguration (caller m) (open_file m) ''config.json'' = (c, None)" "sv_env s = env\<lparr>env_conf := c\<rparr>"
      "NewKeyValueHandler (sv_env s) (probe_of m) (map_order m) = Ok h" "sv_server s = booted h (create_storages c (Stores c) w)" "sv_path s = ''/kv''"
    by (rule main_startD [OF assms(1)])
  let ?w = "create_storages c (Stores c) w"
  have "pool_urls c ?w = store_url ` set (Stores c)" "redis ?w = redis w"
    using create_storages_urls [of c "Stores c" w] assms(4) by (simp_all add: pool_urls_def)
  then have "backend_ok (sv_env s) store up ?w" using assms(5) c(2) by (auto simp: backend_ok_def)
  then have "service_history (sv_env s) es answers sv"
    unfolding service_history_def using assms(2,3,6,7,8) c(3,4) by metis
  moreover have "known_type (conf_StoreType c)" using assms(5) c(2) by (auto simp: known_type_def)
  moreover obtain v where "explains kv_answer (\<lambda>_. []) answers v" using history_inv calculation(1) by blast
  ultimately show ?thesis
    using run_requests [OF assms(8)] create_storages_dom [of c "Stores c" w] c by (auto simp: booted_def)
qed

text \<open>The configuration file of the repository, \<^verbatim>\<open>cmd/http/config.json\<close>, on a machine where the third store is far away.\<close>

definition shipped_store :: "string \<Rightarrow> string \<Rightarrow> string \<Rightarrow> string \<Rightarrow> int64 \<Rightarrow> int64 \<Rightarrow> KVStore" where
  "shipped_store region az nm host port lat = \<lparr>store_Region = region, store_AvailabilityZone = az, store_Name = nm,
     store_Host = host, store_Port = port, ArtificialLatencyInMs = lat\<rparr>"

definition shipped_conf :: KVConfiguration where
  "shipped_conf = \<lparr>ConsistentHash = RendezvousType, conf_StoreType = Memory, conf_HashingManagerType = SyncAsync,
     conf_PipingType = LocalSyncRemoteAsync,
     Stores = [shipped_store ''us-west-1'' ''us-west-1b'' ''store1'' ''127.0.0.1'' 6379 1,
               shipped_store ''us-west-2'' ''us-west-2a'' ''store3'' ''172.31.9.140'' 6379 40,
               shipped_store ''us-west-2'' ''us-west-2b'' ''store4'' ''172.31.12.96'' 6380 100],
     BucketSize = 10, Concurrent = True, RemoteStoreLatencyThresholdInMilliSec = 100,
     LocalReplicaNum = 2, RemoteReplicaNum = 1\<rparr>"

definition shipped_machine :: "string machine" where
  "shipped_machine = \<lparr>jaeger = Inr, float_other = (\<lambda>_. 0), env_sampler = None, caller = Some ''/rkv/cmd/http/main.go'',
     open_file = (\<lambda>p. if p = ''/rkv/cmd/http/config.json'' then Inr (\<lambda>_. (shipped_conf, None)) else Inl (ErrorString ''no such file'')),
     dials = (\<lambda>i. [\<lparr>dl_start = 0, dl_hooks = [DNSDone 5000], dl_end = (if i = 2 then 120005000 else 1005000), dl_err = None\<rparr>]),
     map_order = List.rev\<rparr>"

text \<open>With the hash function of the program.\<close>

definition start_env :: "redis_data env" where
  "start_env = mem_env\<lparr>env_hash := rkvHash_Hash\<rparr>"

lemma shipped_names: "conf_names_ok rkvHash_Hash shipped_conf"
proof -
  have "distinct (map rkvHash_Hash [''store1'', ''store3'', ''store4''])" by code_simp
  moreover have "distinct (map rkvHash_Hash [''us-west-1b'', ''us-west-2a'', ''us-west-2b''])" by code_simp
  then have "inj_on rkvHash_Hash (set [''us-west-1b'', ''us-west-2a'', ''us-west-2b''])" unfolding distinct_map by blast
  ultimately show ?thesis
    by (simp add: shipped_conf_def shipped_store_def conf_names_ok_def node_name_def store_types)
qed

lemma shipped_deployment: "deployment_ok (start_env\<lparr>env_conf := shipped_conf\<rparr>) (probe_of shipped_machine)"
proof -
  let ?e = "start_env\<lparr>env_conf := shipped_conf\<rparr>"
  note conf = shipped_conf_def shipped_store_def
  have "case GetReplications shipped_conf (probe_of shipped_machine) of
      Ok (ls, rs) \<Rightarrow> LocalReplicaNum shipped_conf \<le> int (length ls) \<and> RemoteReplicaNum shipped_conf \<le> int (length rs)
    | _ \<Rightarrow> False" by code_simp
  moreover note shipped_names
  moreover have "names_ok (map (node_name shipped_conf) (Stores shipped_conf))"
    by (simp add: conf names_ok_def node_name_def store_types)
  moreover have "BucketSize shipped_conf \<noteq> 0" "conf_HashingManagerType shipped_conf \<noteq> Sync"
      "conf_PipingType shipped_conf \<noteq> ChainType" "1 \<le> LocalReplicaNum shipped_conf"
    by (simp_all add: conf SyncAsync_def Sync_def LocalSyncRemoteAsync_def ChainType_def)
  moreover have "env_hash ?e = rkvHash_Hash" "env_sort_nodes ?e = sort_Slice" by (simp_all add: start_env_def mem_env_def)
  moreover have "env_conf ?e = shipped_conf" by simp
  ultimately show ?thesis using go_sort_Slice.go_sort_axioms unfolding deployment_ok_def by (simp only: simp_thms)
qed

theorem started_service_refines_map_witness:
  "\<exists>s answers sv v. main_start default_flags shipped_machine start_env empty_world = Ok s \<and> sv_address s = '':8090'' \<and>
     env_conf (sv_env s) = shipped_conf \<and> {''store1'', ''store3'', ''store4''} \<subseteq> dom (map_of (Storages (wd (sv_server s)))) \<and>
     svc_run (sv_env s) demo_events (sv_server s) = (answers, sv) \<and> explains kv_answer (\<lambda>_. []) answers v"
proof -
  have c: "NewKVConfiguration (caller shipped_machine) (open_file shipped_machine) ''config.json'' = (shipped_conf, None)" by code_simp
  have "case GetReplications shipped_conf (probe_of shipped_machine) of Ok _ \<Rightarrow> True | _ \<Rightarrow> False" by code_simp
  then obtain ls rs where "GetReplications shipped_conf (probe_of shipped_machine) = Ok (ls, rs)" by (auto split: result.splits)
  then obtain h where h: "NewKeyValueHandler (start_env\<lparr>env_conf := shipped_conf\<rparr>) (probe_of shipped_machine) (map_order shipped_machine) = Ok h"
    by (simp add: NewKeyValueHandler_def Let_def)
  have "jaeger shipped_machine = Inr" by (simp add: shipped_machine_def)
  then have "\<exists>tp. SetupTracer (jaeger shipped_machine) f es ev rate server = Ok tp" for f es ev rate server
    by (simp add: SetupTracer_def newTracerProvider_def)
  then have "\<exists>s. main_start default_flags shipped_machine start_env empty_world = Ok s"
    using c h unfolding main_start_def by (auto simp: default_flags_def DefaultTraceEnv_def Let_def)
  then obtain s where s: "main_start default_flags shipped_machine start_env empty_world = Ok s" by blast
  from c have e: "sv_env s = start_env\<lparr>env_conf := shipped_conf\<rparr>" "sv_address s = '':8090''"
    using main_startD [OF s] by (auto simp: default_flags_def)
  obtain answers sv where r: "svc_run (sv_env s) demo_events (sv_server s) = (answers, sv)" by force
  have d: "deployment_ok (sv_env s) (probe_of shipped_machine)" unfolding e(1) by (rule shipped_deployment)
  have f: "\<forall>x \<in> set demo_events. fair_event x" by (simp add: demo_events_def demo_choices_def fair_def)
  have o: "\<forall>ls. mset (map_order shipped_machine ls) = mset ls" by (simp add: shipped_machine_def)
  have "conf_StoreType (env_conf (sv_env s)) = Memory" "2 * int (length demo_events) < 2 ^ 63"
    by (simp_all add: e(1) shipped_conf_def demo_events_def)
  from started_service_refines_map [OF s d o _ _ f this(2) r] this(1)
  show ?thesis using s e r by (auto simp: shipped_conf_def shipped_store_def)
qed


section \<open>Starts that fail\<close>

lemma probe_failures: "InsuccessCount (map sample_of (probe_of m i)) = length (filter (\<lambda>d. dl_err d \<noteq> None) (dials m i))"
proof -
  have "Success (sample_of (fst (connectDuration d))) = (dl_err d = None)" for d
    by (simp add: sample_of_def connectDuration_def split: prod.splits)
  then show ?thesis by (simp add: InsuccessCount_filter probe_of_def filter_map comp_def)
qed

lemma measured:
  assumes "conf_StoreType c \<noteq> DummyLatency"
  shows "length (filter (\<lambda>d. dl_err d \<noteq> None) (dials m i)) < 2 \<Longrightarrow> \<exists>x. store_latency c st (probe_of m i) = Ok x"
    and "2 \<le> length (filter (\<lambda>d. dl_err d \<noteq> None) (dials m i)) \<Longrightarrow>
      store_latency c st (probe_of m i) = Err (ErrorString (''failed to get latency from '' @ store_url st))"
  using assms by (simp_all add: store_latency_def GetLatency_eq Summary_def Let_def success_average_def probe_failures)

text \<open>The exporter of the traces, for which a start with a trace environment asks, as the default one does.\<close>

definition exporter_error :: "flags \<Rightarrow> 'x machine \<Rightarrow> error option" where
  "exporter_error fl m =
     (if fl_trace_env fl = [] then None
      else case jaeger m (fl_jaeger_server fl @ ''/api/traces'') of Inl e \<Rightarrow> Some e | Inr _ \<Rightarrow> None)"

lemma main_start_exporter:
  "main_start fl m env w =
     (case exporter_error fl m of
        Some e \<Rightarrow> Err e
      | None \<Rightarrow>
          (case NewKVConfiguration (caller m) (open_file m) ''config.json'' of
             (c, Some err) \<Rightarrow> Panic (PanicError (''error setting gateway agent configuration: '' @ error_text (env_quote env) err))
           | (c, None) \<Rightarrow> result_bind (NewKeyValueHandler (env\<lparr>env_conf := c\<rparr>) (probe_of m) (map_order m))
               (\<lambda>h. Ok \<lparr>sv_tracer = (if fl_trace_env fl = [] then None else Some (case SetupTracer (jaeger m) (float_other m) (env_sampler m)
                    (fl_trace_env fl) (fl_trace_sampling_rate fl) (fl_jaeger_server fl) of Ok tp \<Rightarrow> tp)),
                  sv_path = ''/kv'', sv_address = fl_url fl, sv_env = env\<lparr>env_conf := c\<rparr>, sv_server = booted h (create_storages c (Stores c) w)\<rparr>)))"
  by (simp add: main_start_def exporter_error_def SetupTracer_def newTracerProvider_def Let_def split: sum.splits prod.splits option.splits)

text \<open>C21: A start that fails ends the program before it serves, with any flags, the default ones among them. An exporter that cannot be made
  ends it before the configuration is read; when there is none to be made or it can be made, a configuration that cannot be read ends it with a
  panic that names the reason, and a store to which two connections
  fail ends it with a panic that names the address of the first such store, also when the stores are in memory.\<close>

theorem start_up_failures:
  "(\<forall>e. exporter_error fl m = Some e \<longrightarrow> main_start fl m env w = Err e) \<and>
   (\<forall>c e. exporter_error fl m = None \<and> NewKVConfiguration (caller m) (open_file m) ''config.json'' = (c, Some e) \<longrightarrow>
      main_start fl m env w = Panic (PanicError (''error setting gateway agent configuration: '' @ error_text (env_quote env) e))) \<and>
   (\<forall>c l. exporter_error fl m = None \<and> NewKVConfiguration (caller m) (open_file m) ''config.json'' = (c, None) \<and> conf_StoreType c \<noteq> DummyLatency \<and>
      l < length (Stores c) \<and> (\<forall>j < l. length (filter (\<lambda>d. dl_err d \<noteq> None) (dials m j)) < 2) \<and>
      2 \<le> length (filter (\<lambda>d. dl_err d \<noteq> None) (dials m l)) \<longrightarrow>
      main_start fl m env w = Panic (PanicError (''error in get replications: failed to get latency from '' @ store_url (Stores c ! l))))"
proof (intro conjI allI impI)
  fix c l
  assume a: "exporter_error fl m = None \<and> NewKVConfiguration (caller m) (open_file m) ''config.json'' = (c, None) \<and> conf_StoreType c \<noteq> DummyLatency \<and>
      l < length (Stores c) \<and> (\<forall>j < l. length (filter (\<lambda>d. dl_err d \<noteq> None) (dials m j)) < 2) \<and>
      2 \<le> length (filter (\<lambda>d. dl_err d \<noteq> None) (dials m l))"
  then have "GetReplications c (probe_of m) = Err (ErrorString (''failed to get latency from '' @ store_url (Stores c ! l)))"
    unfolding GetReplications_def
    by (intro GetReplications_loop_Err [of l]) (simp_all add: measured)
  then show "main_start fl m env w = Panic (PanicError (''error in get replications: failed to get latency from '' @ store_url (Stores c ! l)))"
    using a by (simp add: main_start_exporter NewKeyValueHandler_def Let_def)
qed (simp_all add: main_start_exporter)

theorem start_up_failures_witness:
  "main_start default_flags
     (shipped_machine\<lparr>dials := (\<lambda>i. replicate i \<lparr>dl_start = 0, dl_hooks = [], dl_end = 9, dl_err = Some (ErrorString ''refused'')\<rparr>)\<rparr>) start_env empty_world =
   Panic (PanicError (''error in get replications: failed to get latency from '' @ store_url (Stores shipped_conf ! 2)))"
proof -
  let ?m = "shipped_machine\<lparr>dials := (\<lambda>i. replicate i \<lparr>dl_start = 0, dl_hooks = [], dl_end = 9, dl_err = Some (ErrorString ''refused'')\<rparr>)\<rparr>"
  have "NewKVConfiguration (caller ?m) (open_file ?m) ''config.json'' = (shipped_conf, None)" by code_simp
  moreover have "exporter_error default_flags ?m = None" by (simp add: exporter_error_def shipped_machine_def)
  moreover have "conf_StoreType shipped_conf \<noteq> DummyLatency" "2 < length (Stores shipped_conf)"
    by (simp_all add: shipped_conf_def Memory_def DummyLatency_def)
  moreover have "\<forall>j < 2. length (filter (\<lambda>d. dl_err d \<noteq> None) (dials ?m j)) < 2" "2 \<le> length (filter (\<lambda>d. dl_err d \<noteq> None) (dials ?m 2))"
    by simp_all
  ultimately show ?thesis
    using start_up_failures [of default_flags ?m start_env empty_world] by blast
qed

end
