(* ===== verification/Gateway_Mux.thy ===== *)
theory Gateway_Mux
  imports Go_Strings
begin

text \<open>
  The request multiplexer that the generated gateway registers its handlers with: the path patterns
  (\<^verbatim>\<open>vendor/github.com/grpc-ecosystem/grpc-gateway/v2/runtime/pattern.go\<close>) and the dispatch (\<^verbatim>\<open>mux.go\<close>), for a multiplexer
  with the default unescaping mode, in which components are not unescaped. Shown: a pattern that is accepted
  never underflows its stack, and a pattern of literals matches its path only.
\<close>

section \<open>Patterns\<close>

text \<open>The codes of the operations, in the order of their declaration.\<close>

datatype OpCode = OpNop | OpPush | OpLitPush | OpPushM | OpConcatN | OpCapture

definition opcode :: "int \<Rightarrow> OpCode option" where
  "opcode i = (if 0 \<le> i \<and> i < 6 then Some ([OpNop, OpPush, OpLitPush, OpPushM, OpConcatN, OpCapture] ! nat i) else None)"

record Pattern =
  ops :: "(OpCode \<times> nat) list"
  pool :: "string list"
  vars :: "string list"
  tailLen :: nat
  pat_verb :: string

definition ErrInvalidPattern :: error where
  "ErrInvalidPattern = ErrorString ''invalid pattern''"

definition ErrNotMatch :: error where
  "ErrNotMatch = ErrorString ''not match to the path pattern''"

text \<open>The loop of \<^verbatim>\<open>NewPattern\<close> over the pairs of codes and operands; the state is the pattern so far, the height of the stack and
  whether a deep wildcard has been seen. \<open>None\<close> is an invalid pattern.\<close>

definition new_op :: "int \<Rightarrow> int \<Rightarrow> Pattern \<times> int \<times> bool \<Rightarrow> (Pattern \<times> int \<times> bool) option" where
  "new_op code operand st =
     (let (p, stack, pushMSeen) = st;
          tail = (if pushMSeen then tailLen p + 1 else tailLen p)
      in case opcode code of
           None \<Rightarrow> None
         | Some OpNop \<Rightarrow> Some st
         | Some OpPush \<Rightarrow> Some (p\<lparr>ops := ops p @ [(OpPush, nat operand)], tailLen := tail\<rparr>, stack + 1, pushMSeen)
         | Some OpPushM \<Rightarrow>
             if pushMSeen then None else Some (p\<lparr>ops := ops p @ [(OpPushM, nat operand)]\<rparr>, stack + 1, True)
         | Some OpLitPush \<Rightarrow>
             if operand < 0 \<or> int (length (pool p)) \<le> operand then None
             else Some (p\<lparr>ops := ops p @ [(OpLitPush, nat operand)], tailLen := tail\<rparr>, stack + 1, pushMSeen)
         | Some OpConcatN \<Rightarrow>
             if operand \<le> 0 \<or> stack - operand < 0 then None
             else Some (p\<lparr>ops := ops p @ [(OpConcatN, nat operand)]\<rparr>, stack - operand + 1, pushMSeen)
         | Some OpCapture \<Rightarrow>
             if operand < 0 \<or> int (length (pool p)) \<le> operand \<or> stack - 1 < 0 then None
             else Some (p\<lparr>ops := ops p @ [(OpCapture, length (vars p))], vars := vars p @ [pool p ! nat operand]\<rparr>, stack - 1, pushMSeen))"

fun NewPattern_loop :: "int list \<Rightarrow> Pattern \<times> int \<times> bool \<Rightarrow> (Pattern \<times> int \<times> bool) option" where
  "NewPattern_loop (code # operand # rest) st = Option.bind (new_op code operand st) (NewPattern_loop rest)"
| "NewPattern_loop _ st = Some st"

definition NewPattern :: "int \<Rightarrow> int list \<Rightarrow> string list \<Rightarrow> string \<Rightarrow> Pattern result" where
  "NewPattern version codes pl verb =
     (if version \<noteq> 1 \<or> odd (length codes) then Err ErrInvalidPattern
      else case NewPattern_loop codes (\<lparr>ops = [], pool = pl, vars = [], tailLen = 0, pat_verb = verb\<rparr>, 0, False) of
             None \<Rightarrow> Err ErrInvalidPattern
           | Some (p, _, _) \<Rightarrow> Ok p)"

text \<open>\<^verbatim>\<open>MustPattern\<close> ends the process on an error; the patterns of the gateway have none (\<open>gateway_patterns\<close>).\<close>

definition MustPattern :: "Pattern result \<Rightarrow> Pattern" where
  "MustPattern r = (case r of Ok p \<Rightarrow> p | _ \<Rightarrow> \<lparr>ops = [], pool = [], vars = [], tailLen = 0, pat_verb = []\<rparr>)"

text \<open>The loop of \<^verbatim>\<open>MatchAndEscape\<close>; the state is the position, the stack (its top is the last element) and the captured values.\<close>

fun match_op :: "Pattern \<Rightarrow> string list \<Rightarrow> OpCode \<times> nat \<Rightarrow> nat \<times> string list \<times> string list \<Rightarrow> (nat \<times> string list \<times> string list) result" where
  "match_op p cs (OpNop, i) st = Ok st"
| "match_op p cs (OpPush, i) (pos, stack, captured) =
     (if length cs \<le> pos then Err ErrNotMatch else Ok (pos + 1, stack @ [cs ! pos], captured))"
| "match_op p cs (OpLitPush, i) (pos, stack, captured) =
     (if length cs \<le> pos then Err ErrNotMatch
      else if length (pool p) \<le> i then Panic IndexOutOfRange
      else if cs ! pos \<noteq> pool p ! i then Err ErrNotMatch
      else Ok (pos + 1, stack @ [cs ! pos], captured))"
| "match_op p cs (OpPushM, i) (pos, stack, captured) =
     (if length cs < pos + tailLen p then Err ErrNotMatch
      else Ok (length cs - tailLen p, stack @ [Join (take (length cs - tailLen p - pos) (drop pos cs)) ''/''], captured))"
| "match_op p cs (OpConcatN, n) (pos, stack, captured) =
     (if length stack < n then Panic IndexOutOfRange
      else Ok (pos, take (length stack - n) stack @ [Join (drop (length stack - n) stack) ''/''], captured))"
| "match_op p cs (OpCapture, i) (pos, stack, captured) =
     (if stack = [] \<or> length captured \<le> i then Panic IndexOutOfRange
      else Ok (pos, butlast stack, captured[i := last stack]))"

fun match_loop :: "Pattern \<Rightarrow> string list \<Rightarrow> (OpCode \<times> nat) list \<Rightarrow> nat \<times> string list \<times> string list \<Rightarrow> (nat \<times> string list \<times> string list) result" where
  "match_loop p cs [] st = Ok st"
| "match_loop p cs (x # xs) st = result_bind (match_op p cs x st) (match_loop p cs xs)"

definition MatchAndEscape :: "Pattern \<Rightarrow> string list \<Rightarrow> string \<Rightarrow> (string \<times> string) list result" where
  "MatchAndEscape p components verb =
     (if pat_verb p \<noteq> verb \<and> pat_verb p \<noteq> [] then Err ErrNotMatch
      else let cs = (if pat_verb p \<noteq> verb
                     then (if components = [] then [CHR '':'' # verb] else butlast components @ [last components @ '':'' @ verb])
                     else components)
           in result_bind (match_loop p cs (ops p) (0, [], replicate (length (vars p)) []))
                (\<lambda>(pos, stack, captured). if pos < length cs then Err ErrNotMatch
                   else Ok (fold (\<lambda>(v, x) m. AList.update v x m) (zip (vars p) captured) [])))"

section \<open>The multiplexer\<close>

text \<open>What the dispatch looks at: the header \<^verbatim>\<open>X-HTTP-Method-Override\<close> in upper case, the content type and the error of
  \<^verbatim>\<open>ParseForm\<close>; and the body, or the error of reading it.\<close>

record gw_request =
  gw_Method :: string
  gw_Path :: string
  gw_Override :: string
  gw_ContentType :: string
  gw_Form :: "error option"
  gw_Body :: "error + bytes"

record 'h ServeMux =
  mux_handlers :: "(string \<times> (Pattern \<times> 'h) list) list"
  disablePathLengthFallback :: bool

definition NewServeMux :: "'h ServeMux" where
  "NewServeMux = \<lparr>mux_handlers = [], disablePathLengthFallback = False\<rparr>"

definition method_handlers :: "'h ServeMux \<Rightarrow> string \<Rightarrow> (Pattern \<times> 'h) list" where
  "method_handlers mux meth = (case map_of (mux_handlers mux) meth of None \<Rightarrow> [] | Some hs \<Rightarrow> hs)"

definition Handle :: "string \<Rightarrow> Pattern \<Rightarrow> 'h \<Rightarrow> 'h ServeMux \<Rightarrow> 'h ServeMux" where
  "Handle meth pat h mux = mux\<lparr>mux_handlers := AList.update meth ((pat, h) # method_handlers mux meth) (mux_handlers mux)\<rparr>"

datatype 'h route = Handler 'h "(string \<times> string) list" | RoutingError int | ErrorHandler error

definition isPathLengthFallback :: "'h ServeMux \<Rightarrow> string \<Rightarrow> gw_request \<Rightarrow> bool" where
  "isPathLengthFallback mux meth rq \<longleftrightarrow>
     \<not> disablePathLengthFallback mux \<and> meth = ''POST'' \<and> gw_ContentType rq = ''application/x-www-form-urlencoded''"

definition HasSuffix :: "string \<Rightarrow> string \<Rightarrow> bool" where
  "HasSuffix s suffix \<longleftrightarrow> length suffix \<le> length s \<and> drop (length s - length suffix) s = suffix"

text \<open>The loop over the handlers of the method: the route, if there is one, and the components and the verb as the loop leaves
  them. An error of a match other than a mismatch does not occur in this mode.\<close>

fun route_loop :: "(Pattern \<times> 'h) list \<Rightarrow> string list \<Rightarrow> string \<Rightarrow> 'h route option \<times> string list \<times> string" where
  "route_loop [] components verb = (None, components, verb)"
| "route_loop ((pat, h) # hs) components verb =
     (let lastComponent = last components;
          suffix = (pat_verb pat \<noteq> [] \<and> HasSuffix lastComponent ('':'' @ pat_verb pat));
          idx = length lastComponent - length (pat_verb pat) - 1;
          components' = (if suffix then butlast components @ [take idx lastComponent] else components);
          verb' = (if suffix then drop (idx + 1) lastComponent else verb)
      in if suffix \<and> idx = 0 then (Some (RoutingError 404), components, verb)
         else case MatchAndEscape pat components' verb' of
                Ok params \<Rightarrow> (Some (Handler h params), components', verb')
              | _ \<Rightarrow> route_loop hs components' verb')"

text \<open>The loop over the handlers of the other methods.\<close>

fun fallback_loop :: "'h ServeMux \<Rightarrow> string \<Rightarrow> gw_request \<Rightarrow> (Pattern \<times> 'h) list \<Rightarrow> string list \<Rightarrow> string \<Rightarrow> 'h route" where
  "fallback_loop mux meth rq [] components verb = RoutingError 404"
| "fallback_loop mux meth rq ((pat, h) # hs) components verb =
     (case MatchAndEscape pat components verb of
        Ok params \<Rightarrow>
          if isPathLengthFallback mux meth rq
          then (case gw_Form rq of Some e \<Rightarrow> ErrorHandler e | None \<Rightarrow> Handler h params)
          else RoutingError 405
      | _ \<Rightarrow> fallback_loop mux meth rq hs components verb)"

definition mux_route :: "'h ServeMux \<Rightarrow> gw_request \<Rightarrow> 'h route" where
  "mux_route mux rq =
     (if take 1 (gw_Path rq) \<noteq> ''/'' then RoutingError 400
      else let override = (gw_Override rq \<noteq> [] \<and> isPathLengthFallback mux (gw_Method rq) rq);
               meth = (if override then gw_Override rq else gw_Method rq)
           in if override \<and> gw_Form rq \<noteq> None then ErrorHandler (the (gw_Form rq))
              else case route_loop (method_handlers mux meth) (Split (drop 1 (gw_Path rq)) ''/'') [] of
                     (Some r, _, _) \<Rightarrow> r
                   | (None, components, verb) \<Rightarrow>
                       fallback_loop mux meth rq (concat (map snd (filter (\<lambda>(m, _). m \<noteq> meth) (mux_handlers mux)))) components verb)"

section \<open>Patterns do not underflow their stack\<close>

text \<open>How an operation changes the height of the stack, and what it needs.\<close>

fun stack_effect :: "OpCode \<times> nat \<Rightarrow> int \<Rightarrow> int" where
  "stack_effect (OpConcatN, n) h = h - int n + 1"
| "stack_effect (OpCapture, i) h = h - 1"
| "stack_effect (OpNop, i) h = h"
| "stack_effect _ h = h + 1"

fun op_ok :: "nat \<Rightarrow> nat \<Rightarrow> OpCode \<times> nat \<Rightarrow> int \<Rightarrow> bool" where
  "op_ok npool nvars (OpConcatN, n) h = (int n \<le> h)"
| "op_ok npool nvars (OpCapture, i) h = (1 \<le> h \<and> i < nvars)"
| "op_ok npool nvars (OpLitPush, i) h = (i < npool)"
| "op_ok npool nvars _ h = True"

fun ops_ok :: "nat \<Rightarrow> nat \<Rightarrow> (OpCode \<times> nat) list \<Rightarrow> int \<Rightarrow> bool" where
  "ops_ok npool nvars [] h = True"
| "ops_ok npool nvars (x # xs) h = (op_ok npool nvars x h \<and> ops_ok npool nvars xs (stack_effect x h))"

lemma ops_ok_snoc: "ops_ok k n (xs @ [x]) h \<longleftrightarrow> ops_ok k n xs h \<and> op_ok k n x (fold stack_effect xs h)"
  by (induction xs arbitrary: h) simp_all

lemma op_ok_mono: "op_ok k n x h \<Longrightarrow> n \<le> m \<Longrightarrow> op_ok k m x h"
  by (cases x; cases "fst x") auto

lemma ops_ok_mono: "ops_ok k n xs h \<Longrightarrow> n \<le> m \<Longrightarrow> ops_ok k m xs h"
  by (induction xs arbitrary: h) (auto intro: op_ok_mono)

definition pattern_ok :: "Pattern \<times> int \<times> bool \<Rightarrow> bool" where
  "pattern_ok st \<longleftrightarrow> (case st of (p, stack, _) \<Rightarrow>
     ops_ok (length (pool p)) (length (vars p)) (ops p) 0 \<and> fold stack_effect (ops p) 0 = stack)"

lemma new_op_ok:
  assumes "pattern_ok st" and "new_op code operand st = Some st'"
  shows "pattern_ok st'"
proof -
  obtain p stack seen where st: "st = (p, stack, seen)" by (cases st)
  obtain x where x: "opcode code = Some x" using assms(2) st by (cases "opcode code") (auto simp: new_op_def)
  show ?thesis using assms st x ops_ok_mono [of "length (pool p)" "length (vars p)" "ops p" 0 "Suc (length (vars p))"]
    by (cases x) (auto simp: new_op_def pattern_ok_def ops_ok_snoc Let_def split: if_splits)
qed

lemma NewPattern_loop_ok: "pattern_ok st \<Longrightarrow> NewPattern_loop codes st = Some st' \<Longrightarrow> pattern_ok st'"
  by (induction codes st rule: NewPattern_loop.induct) (auto simp: bind_eq_Some_conv dest: new_op_ok)

lemma match_op_stack:
  assumes "op_ok (length (pool p)) (length captured) x (int (length stack))"
  shows "match_op p cs x (pos, stack, captured) \<noteq> Panic q"
    and "match_op p cs x (pos, stack, captured) = Ok (pos', stack', captured') \<Longrightarrow>
      int (length stack') = stack_effect x (int (length stack)) \<and> length captured' = length captured"
  using assms by (cases x; cases "fst x"; auto split: if_splits)+

lemma match_loop_no_panic: "ops_ok (length (pool p)) (length captured) xs (int (length stack)) \<Longrightarrow> match_loop p cs xs (pos, stack, captured) \<noteq> Panic q"
proof (induction xs arbitrary: pos stack captured)
  case (Cons x xs)
  then have x: "op_ok (length (pool p)) (length captured) x (int (length stack))" by simp
  show ?case
  proof (cases "match_op p cs x (pos, stack, captured)")
    case (Ok st)
    obtain pos' stack' captured' where st: "st = (pos', stack', captured')" by (cases st)
    show ?thesis using match_op_stack(2) [OF x Ok [unfolded st]] Cons by (simp add: Ok st)
  qed (use match_op_stack(1) [OF x] in auto)
qed simp

text \<open>C25: A path pattern that is accepted is well typed: whatever the codes and the constants, matching any path against it never
  takes more from the stack than there is and never leaves the constants or the captured variables.\<close>

theorem accepted_pattern_never_panics:
  assumes "NewPattern version codes pl verb = Ok p"
  shows "MatchAndEscape p components verb' \<noteq> Panic q"
proof -
  obtain stack seen where "NewPattern_loop codes (\<lparr>ops = [], pool = pl, vars = [], tailLen = 0, pat_verb = verb\<rparr>, 0, False) = Some (p, stack, seen)"
    using assms by (auto simp: NewPattern_def split: if_splits option.splits)
  then have "pattern_ok (p, stack, seen)" by (rule NewPattern_loop_ok [rotated]) (simp add: pattern_ok_def)
  then have "match_loop p cs (ops p) (0, [], replicate (length (vars p)) []) \<noteq> Panic q" for cs
    by (intro match_loop_no_panic) (simp add: pattern_ok_def)
  then show ?thesis by (auto simp: MatchAndEscape_def Let_def result_bind_eq_Panic)
qed

theorem accepted_pattern_never_panics_witness:
  "\<exists>p. NewPattern 1 [2, 0, 1, 0, 4, 1, 5, 1] [''v1'', ''key''] [] = Ok p \<and> MatchAndEscape p [''v1'', ''a''] [] = Ok [(''key'', ''a'')] \<and>
     (\<forall>q. MatchAndEscape p [''v1''] [] \<noteq> Panic q)"
proof -
  have "case NewPattern 1 [2, 0, 1, 0, 4, 1, 5, 1] [''v1'', ''key''] [] of
      Ok p \<Rightarrow> MatchAndEscape p [''v1'', ''a''] [] = Ok [(''key'', ''a'')] | _ \<Rightarrow> False" by code_simp
  then obtain p where p: "NewPattern 1 [2, 0, 1, 0, 4, 1, 5, 1] [''v1'', ''key''] [] = Ok p" "MatchAndEscape p [''v1'', ''a''] [] = Ok [(''key'', ''a'')]"
    by (auto split: result.splits)
  then show ?thesis using accepted_pattern_never_panics [OF p(1)] by blast
qed

end
