(* ===== verification/Gateway.thy ===== *)
theory Gateway
  imports Gateway_Mux
begin

text \<open>
  The gateway that is generated from the \<^verbatim>\<open>.proto\<close> files (\<^verbatim>\<open>pkg/server/http.pb.gw.go\<close>, \<^verbatim>\<open>pkg/server/keyvalue.pb.gw.go\<close>): it turns HTTP
  requests into calls of a gRPC service, which it reaches through a client or, in the same process, directly. The services
  are arguments, as are the marshalers, the collection of the metadata of a request and the metadata package of gRPC; the state they change is the type \<open>'w\<close>.
  A handler is a function from a request to what it does, in order, to the response.
\<close>

section \<open>Messages\<close>

record KVPutRequest =
  kvp_name :: string
  kvp_value :: string

record KVPutReply =
  kvr_message :: string

record KeyValue =
  kv_key :: bytes
  create_revision :: int64
  mod_revision :: int64
  version :: int64
  kv_value :: bytes

datatype SortOrder = NONE | ASCEND | DESCEND

datatype SortTarget = KEY_TARGET | VERSION | CREATE | MOD | VALUE

record RangeRequest =
  rr_key :: bytes
  rr_range_end :: bytes
  limit :: int64
  rr_revision :: int64
  sort_order :: SortOrder
  sort_target :: SortTarget
  serializable :: bool
  keys_only :: bool
  count_only :: bool

record RangeResponse =
  kvs :: "KeyValue list"

record PutRequest =
  pr_key :: bytes
  pr_value :: bytes

record PutResponse =
  prev_kv :: "KeyValue option"

record DeleteRangeRequest =
  dr_key :: bytes
  dr_range_end :: bytes

record DeleteRangeResponse =
  deleted :: int64

datatype WatchRequest = NoRequest | WatchCreateRequest bytes bytes int64 | WatchCancelRequest int64

datatype proto_message =
  KVPutReplyMsg KVPutReply | RangeResponseMsg RangeResponse | PutResponseMsg PutResponse | DeleteRangeResponseMsg DeleteRangeResponse

text \<open>What a decoder returns beside the message it has filled in.\<close>

datatype decode_error = EOF | DecodeError error

section \<open>The runtime\<close>

text \<open>Errors that a handler passes on: those with a status code, whose text is that of the error they hold, and others.\<close>

datatype gw_error = Status_InvalidArgument error | Status_Unimplemented string | Other error

type_synonym MD = "(string \<times> string list) list"

record ServerMetadata =
  HeaderMD :: MD
  TrailerMD :: MD

definition no_metadata :: ServerMetadata where
  "no_metadata = \<lparr>HeaderMD = [], TrailerMD = []\<rparr>"

definition metadata_Join :: "MD \<Rightarrow> MD \<Rightarrow> MD" where
  "metadata_Join a b = fold (\<lambda>(k, v) out. AList.update k ((case map_of out k of None \<Rightarrow> [] | Some u \<Rightarrow> u) @ v) out) (a @ b) []"

type_synonym 'm decoder = "gw_request \<Rightarrow> bytes \<Rightarrow> 'm \<Rightarrow> 'm \<times> decode_error option"

text \<open>A call gives an error or a reply, and the header and the trailer that the service has set, also with an error.\<close>

type_synonym ('c, 'm, 'r, 'w) call = "'c \<Rightarrow> 'm \<Rightarrow> 'w \<Rightarrow> (gw_error + 'r) \<times> ServerMetadata \<times> 'w"

text \<open>What a handler does: an error response (with the context, unless there is none, and the metadata), a message or a stream that is
  forwarded, the start of the goroutine that sends on a stream, and the cancellation of its context.\<close>

datatype ('c, 'i) action =
    HTTPError "'c option" "ServerMetadata option" gw_error
  | ForwardMessage 'c ServerMetadata proto_message
  | ForwardStream 'c ServerMetadata 'i
  | GoSend 'i "(decode_error + WatchRequest) list"
  | Cancel

type_synonym ('c, 'i, 'w) HandlerFunc = "gw_request \<Rightarrow> 'w \<Rightarrow> ('c, 'i) action list \<times> 'w"

text \<open>The runtime: \<^verbatim>\<open>annotateContext\<close> takes the request, the name of the rpc and the pattern of the path and makes a context
  and the metadata of the call, if there is any; the metadata package of gRPC attaches them to a context for an outgoing call or
  as those of an incoming one.\<close>

record 'c gw_runtime =
  annotateContext :: "gw_request \<Rightarrow> string \<Rightarrow> string \<Rightarrow> gw_error + 'c \<times> MD option"
  NewOutgoingContext :: "'c \<Rightarrow> MD \<Rightarrow> 'c"
  NewIncomingContext :: "'c \<Rightarrow> MD \<Rightarrow> 'c"
  dec_KVPut :: "KVPutRequest decoder"
  dec_Range :: "RangeRequest decoder"
  dec_Put :: "PutRequest decoder"
  dec_DeleteRange :: "DeleteRangeRequest decoder"
  dec_Watch :: "gw_request \<Rightarrow> (decode_error + WatchRequest) list"

definition AnnotateContext :: "'c gw_runtime \<Rightarrow> gw_request \<Rightarrow> string \<Rightarrow> string \<Rightarrow> gw_error + 'c" where
  "AnnotateContext rt req rpc path =
     (case annotateContext rt req rpc path of
        Inl err \<Rightarrow> Inl err
      | Inr (ctx, None) \<Rightarrow> Inr ctx
      | Inr (ctx, Some md) \<Rightarrow> Inr (NewOutgoingContext rt ctx md))"

definition AnnotateIncomingContext :: "'c gw_runtime \<Rightarrow> gw_request \<Rightarrow> string \<Rightarrow> string \<Rightarrow> gw_error + 'c" where
  "AnnotateIncomingContext rt req rpc path =
     (case annotateContext rt req rpc path of
        Inl err \<Rightarrow> Inl err
      | Inr (ctx, None) \<Rightarrow> Inr ctx
      | Inr (ctx, Some md) \<Rightarrow> Inr (NewIncomingContext rt ctx md))"

section \<open>Requests\<close>

text \<open>What the functions for unary calls have in common: an unreadable body and a body that does not decode end the request, an
  empty body is the zero message.\<close>

definition request_unary :: "'m \<Rightarrow> 'm decoder \<Rightarrow> ('c, 'm, 'r, 'w) call \<Rightarrow> 'c \<Rightarrow> gw_request \<Rightarrow> 'w \<Rightarrow> (gw_error + 'r) \<times> ServerMetadata \<times> 'w" where
  "request_unary protoReq dec call ctx req w =
     (case gw_Body req of
        Inl berr \<Rightarrow> (Inl (Status_InvalidArgument berr), no_metadata, w)
      | Inr b \<Rightarrow>
          (case dec req b protoReq of
             (m, Some (DecodeError err)) \<Rightarrow> (Inl (Status_InvalidArgument err), no_metadata, w)
           | (m, _) \<Rightarrow> call ctx m w))"

text \<open>The call in the same process: what the service sets goes to the stream in the context, the metadata of the function stays empty. The
  result is the reply, the metadata, the stream and the state.\<close>

definition local_request_unary :: "'m \<Rightarrow> 'm decoder \<Rightarrow> ('c, 'm, 'r, 'w) call \<Rightarrow> 'c \<Rightarrow> gw_request \<Rightarrow> 'w
    \<Rightarrow> (gw_error + 'r) \<times> ServerMetadata \<times> ServerMetadata \<times> 'w" where
  "local_request_unary protoReq dec srv ctx req w =
     (case gw_Body req of
        Inl berr \<Rightarrow> (Inl (Status_InvalidArgument berr), no_metadata, no_metadata, w)
      | Inr b \<Rightarrow>
          (case dec req b protoReq of
             (m, Some (DecodeError err)) \<Rightarrow> (Inl (Status_InvalidArgument err), no_metadata, no_metadata, w)
           | (m, _) \<Rightarrow> (case srv ctx m w of (res, stream, w1) \<Rightarrow> (res, no_metadata, stream, w1))))"

definition request_KV_Put_0 :: "'c gw_runtime \<Rightarrow> ('c, KVPutRequest, KVPutReply, 'w) call \<Rightarrow> 'c \<Rightarrow> gw_request \<Rightarrow> 'w \<Rightarrow> (gw_error + KVPutReply) \<times> ServerMetadata \<times> 'w" where
  "request_KV_Put_0 rt client_Put = request_unary \<lparr>kvp_name = [], kvp_value = []\<rparr> (dec_KVPut rt) client_Put"

definition local_request_KV_Put_0 :: "'c gw_runtime \<Rightarrow> ('c, KVPutRequest, KVPutReply, 'w) call \<Rightarrow> 'c \<Rightarrow> gw_request \<Rightarrow> 'w
    \<Rightarrow> (gw_error + KVPutReply) \<times> ServerMetadata \<times> ServerMetadata \<times> 'w" where
  "local_request_KV_Put_0 rt server_Put = local_request_unary \<lparr>kvp_name = [], kvp_value = []\<rparr> (dec_KVPut rt) server_Put"

definition zero_RangeRequest :: RangeRequest where
  "zero_RangeRequest = \<lparr>rr_key = [], rr_range_end = [], limit = 0, rr_revision = 0, sort_order = NONE, sort_target = KEY_TARGET,
     serializable = False, keys_only = False, count_only = False\<rparr>"

definition request_KeyValueService_Range_0 :: "'c gw_runtime \<Rightarrow> ('c, RangeRequest, RangeResponse, 'w) call \<Rightarrow> 'c \<Rightarrow> gw_request \<Rightarrow> 'w
    \<Rightarrow> (gw_error + RangeResponse) \<times> ServerMetadata \<times> 'w" where
  "request_KeyValueService_Range_0 rt client_Range = request_unary zero_RangeRequest (dec_Range rt) client_Range"

definition local_request_KeyValueService_Range_0 :: "'c gw_runtime \<Rightarrow> ('c, RangeRequest, RangeResponse, 'w) call \<Rightarrow> 'c \<Rightarrow> gw_request \<Rightarrow> 'w
    \<Rightarrow> (gw_error + RangeResponse) \<times> ServerMetadata \<times> ServerMetadata \<times> 'w" where
  "local_request_KeyValueService_Range_0 rt server_Range = local_request_unary zero_RangeRequest (dec_Range rt) server_Range"

definition request_KeyValueService_Put_0 :: "'c gw_runtime \<Rightarrow> ('c, PutRequest, PutResponse, 'w) call \<Rightarrow> 'c \<Rightarrow> gw_request \<Rightarrow> 'w
    \<Rightarrow> (gw_error + PutResponse) \<times> ServerMetadata \<times> 'w" where
  "request_KeyValueService_Put_0 rt client_Put = request_unary \<lparr>pr_key = [], pr_value = []\<rparr> (dec_Put rt) client_Put"

definition local_request_KeyValueService_Put_0 :: "'c gw_runtime \<Rightarrow> ('c, PutRequest, PutResponse, 'w) call \<Rightarrow> 'c \<Rightarrow> gw_request \<Rightarrow> 'w
    \<Rightarrow> (gw_error + PutResponse) \<times> ServerMetadata \<times> ServerMetadata \<times> 'w" where
  "local_request_KeyValueService_Put_0 rt server_Put = local_request_unary \<lparr>pr_key = [], pr_value = []\<rparr> (dec_Put rt) server_Put"

definition request_KeyValueService_DeleteRange_0 :: "'c gw_runtime \<Rightarrow> ('c, DeleteRangeRequest, DeleteRangeResponse, 'w) call \<Rightarrow> 'c \<Rightarrow> gw_request \<Rightarrow> 'w
    \<Rightarrow> (gw_error + DeleteRangeResponse) \<times> ServerMetadata \<times> 'w" where
  "request_KeyValueService_DeleteRange_0 rt client_DeleteRange =
     request_unary \<lparr>dr_key = [], dr_range_end = []\<rparr> (dec_DeleteRange rt) client_DeleteRange"

definition local_request_KeyValueService_DeleteRange_0 :: "'c gw_runtime \<Rightarrow> ('c, DeleteRangeRequest, DeleteRangeResponse, 'w) call \<Rightarrow> 'c \<Rightarrow> gw_request \<Rightarrow> 'w
    \<Rightarrow> (gw_error + DeleteRangeResponse) \<times> ServerMetadata \<times> ServerMetadata \<times> 'w" where
  "local_request_KeyValueService_DeleteRange_0 rt server_DeleteRange =
     local_request_unary \<lparr>dr_key = [], dr_range_end = []\<rparr> (dec_DeleteRange rt) server_DeleteRange"

subsection \<open>The watch stream\<close>

text \<open>A client of the watch service: a call opens a stream, on which the gateway sends, closes its side and reads the header.\<close>

record ('c, 'i, 'w) WatchServiceClient =
  client_Watch :: "'c \<Rightarrow> 'w \<Rightarrow> (gw_error + 'i) \<times> 'w"
  stream_Send :: "'i \<Rightarrow> WatchRequest \<Rightarrow> 'w \<Rightarrow> error option \<times> 'w"
  stream_CloseSend :: "'i \<Rightarrow> 'w \<Rightarrow> error option \<times> 'w"
  stream_Header :: "'i \<Rightarrow> 'w \<Rightarrow> (gw_error + MD) \<times> 'w"

datatype stream_call = Send WatchRequest | CloseSend

text \<open>\<^verbatim>\<open>handleSend\<close> on the next outcome of the decoder; the result says whether the loop goes on, and what was called on the stream.\<close>

definition handleSend :: "('c, 'i, 'w) WatchServiceClient \<Rightarrow> 'i \<Rightarrow> decode_error + WatchRequest \<Rightarrow> 'w \<Rightarrow> bool \<times> stream_call list \<times> 'w" where
  "handleSend cl stream dec w =
     (case dec of
        Inl EOF \<Rightarrow> (False, [], w)
      | Inl (DecodeError err) \<Rightarrow> (False, [], w)
      | Inr protoReq \<Rightarrow> (case stream_Send cl stream protoReq w of (err, w1) \<Rightarrow> (err = None, [Send protoReq], w1)))"

text \<open>The goroutine: the loop, and then the close. The decoder returns \<^verbatim>\<open>io.EOF\<close> when the outcomes are used up.\<close>

fun send_loop :: "('c, 'i, 'w) WatchServiceClient \<Rightarrow> 'i \<Rightarrow> (decode_error + WatchRequest) list \<Rightarrow> 'w \<Rightarrow> stream_call list \<times> 'w" where
  "send_loop cl stream [] w = ([], w)"
| "send_loop cl stream (d # ds) w =
     (case handleSend cl stream d w of
        (True, cs, w1) \<Rightarrow> (case send_loop cl stream ds w1 of (cs', w2) \<Rightarrow> (cs @ cs', w2))
      | (False, cs, w1) \<Rightarrow> (cs, w1))"

definition watch_sender :: "('c, 'i, 'w) WatchServiceClient \<Rightarrow> 'i \<Rightarrow> (decode_error + WatchRequest) list \<Rightarrow> 'w \<Rightarrow> stream_call list \<times> 'w" where
  "watch_sender cl stream decs w =
     (case send_loop cl stream decs w of (cs, w1) \<Rightarrow> (cs @ [CloseSend], snd (stream_CloseSend cl stream w1)))"

text \<open>The request itself; the third result is the goroutine that it has started: the stream and the outcomes of its decoder. The header
  is read while the goroutine runs.\<close>

definition request_WatchService_Watch_0 :: "'c gw_runtime \<Rightarrow> ('c, 'i, 'w) WatchServiceClient \<Rightarrow> 'c \<Rightarrow> gw_request \<Rightarrow> 'w
    \<Rightarrow> (gw_error + 'i) \<times> ServerMetadata \<times> ('i \<times> (decode_error + WatchRequest) list) option \<times> 'w" where
  "request_WatchService_Watch_0 rt cl ctx req w =
     (case client_Watch cl ctx w of
        (Inl err, w1) \<Rightarrow> (Inl err, no_metadata, None, w1)
      | (Inr stream, w1) \<Rightarrow>
          (case stream_Header cl stream w1 of
             (Inl err, w2) \<Rightarrow> (Inl err, no_metadata, Some (stream, dec_Watch rt req), w2)
           | (Inr header, w2) \<Rightarrow> (Inr stream, no_metadata\<lparr>HeaderMD := header\<rparr>, Some (stream, dec_Watch rt req), w2)))"


section \<open>Handlers\<close>

text \<open>The handlers of unary calls: through a client, and in the same process, where what the service has set on the stream of the context
  is joined with the metadata.\<close>

definition client_handler :: "'c gw_runtime \<Rightarrow> string \<Rightarrow> string \<Rightarrow> ('c \<Rightarrow> gw_request \<Rightarrow> 'w \<Rightarrow> (gw_error + 'r) \<times> ServerMetadata \<times> 'w)
    \<Rightarrow> ('r \<Rightarrow> proto_message) \<Rightarrow> ('c, 'i, 'w) HandlerFunc" where
  "client_handler rt rpc path request_fn msg req w =
     (case AnnotateContext rt req rpc path of
        Inl err \<Rightarrow> ([HTTPError None None err, Cancel], w)
      | Inr ctx \<Rightarrow>
          (case request_fn ctx req w of
             (Inl err, md, w1) \<Rightarrow> ([HTTPError (Some ctx) (Some md) err, Cancel], w1)
           | (Inr resp, md, w1) \<Rightarrow> ([ForwardMessage ctx md (msg resp), Cancel], w1)))"

definition server_handler :: "'c gw_runtime \<Rightarrow> string \<Rightarrow> string \<Rightarrow> ('c \<Rightarrow> gw_request \<Rightarrow> 'w \<Rightarrow> (gw_error + 'r) \<times> ServerMetadata \<times> ServerMetadata \<times> 'w)
    \<Rightarrow> ('r \<Rightarrow> proto_message) \<Rightarrow> ('c, 'i, 'w) HandlerFunc" where
  "server_handler rt rpc path local_request_fn msg req w =
     (case AnnotateIncomingContext rt req rpc path of
        Inl err \<Rightarrow> ([HTTPError None None err, Cancel], w)
      | Inr ctx \<Rightarrow>
          (case local_request_fn ctx req w of
             (res, md, stream, w1) \<Rightarrow>
               (let md' = \<lparr>HeaderMD = metadata_Join (HeaderMD md) (HeaderMD stream), TrailerMD = metadata_Join (TrailerMD md) (TrailerMD stream)\<rparr>
                in case res of
                     Inl err \<Rightarrow> ([HTTPError (Some ctx) (Some md') err, Cancel], w1)
                   | Inr resp \<Rightarrow> ([ForwardMessage ctx md' (msg resp), Cancel], w1))))"

definition watch_handler :: "'c gw_runtime \<Rightarrow> ('c, 'i, 'w) WatchServiceClient \<Rightarrow> ('c, 'i, 'w) HandlerFunc" where
  "watch_handler rt cl req w =
     (case AnnotateContext rt req ''/proto.WatchService/Watch'' ''/watch'' of
        Inl err \<Rightarrow> ([HTTPError None None err, Cancel], w)
      | Inr ctx \<Rightarrow>
          (case request_WatchService_Watch_0 rt cl ctx req w of
             (res, md, go, w1) \<Rightarrow>
               ((case go of None \<Rightarrow> [] | Some (stream, decs) \<Rightarrow> [GoSend stream decs]) @
                (case res of Inl err \<Rightarrow> [HTTPError (Some ctx) (Some md) err] | Inr stream \<Rightarrow> [ForwardStream ctx md stream]) @ [Cancel], w1)))"

section \<open>Registration\<close>

definition pattern_KV_Put_0 :: Pattern where
  "pattern_KV_Put_0 = MustPattern (NewPattern 1 [2, 0, 2, 1] [''v1'', ''kv''] [])"

definition pattern_KeyValueService_Range_0 :: Pattern where
  "pattern_KeyValueService_Range_0 = MustPattern (NewPattern 1 [2, 0] [''range''] [])"

definition pattern_KeyValueService_Put_0 :: Pattern where
  "pattern_KeyValueService_Put_0 = MustPattern (NewPattern 1 [2, 0] [''put''] [])"

definition pattern_KeyValueService_DeleteRange_0 :: Pattern where
  "pattern_KeyValueService_DeleteRange_0 = MustPattern (NewPattern 1 [2, 0] [''deleterange''] [])"

definition pattern_WatchService_Watch_0 :: Pattern where
  "pattern_WatchService_Watch_0 = MustPattern (NewPattern 1 [2, 0] [''watch''] [])"

text \<open>The functions that register return no error.\<close>

type_synonym ('c, 'i, 'w) gw_mux = "('c, 'i, 'w) HandlerFunc ServeMux"

definition RegisterKVHandlerServer :: "'c gw_runtime \<Rightarrow> ('c, KVPutRequest, KVPutReply, 'w) call \<Rightarrow> ('c, 'i, 'w) gw_mux \<Rightarrow> error option \<times> ('c, 'i, 'w) gw_mux" where
  "RegisterKVHandlerServer rt server_Put mux =
     (None, Handle ''POST'' pattern_KV_Put_0 (server_handler rt ''/proto.KV/Put'' ''/v1/kv'' (local_request_KV_Put_0 rt server_Put) KVPutReplyMsg) mux)"

definition RegisterKVHandlerClient :: "'c gw_runtime \<Rightarrow> ('c, KVPutRequest, KVPutReply, 'w) call \<Rightarrow> ('c, 'i, 'w) gw_mux \<Rightarrow> error option \<times> ('c, 'i, 'w) gw_mux" where
  "RegisterKVHandlerClient rt client_Put mux =
     (None, Handle ''POST'' pattern_KV_Put_0 (client_handler rt ''/proto.KV/Put'' ''/v1/kv'' (request_KV_Put_0 rt client_Put) KVPutReplyMsg) mux)"

record ('c, 'w) KeyValueService =
  ks_Range :: "('c, RangeRequest, RangeResponse, 'w) call"
  ks_Put :: "('c, PutRequest, PutResponse, 'w) call"
  ks_DeleteRange :: "('c, DeleteRangeRequest, DeleteRangeResponse, 'w) call"

definition RegisterKeyValueServiceHandlerServer :: "'c gw_runtime \<Rightarrow> ('c, 'w) KeyValueService \<Rightarrow> ('c, 'i, 'w) gw_mux \<Rightarrow> error option \<times> ('c, 'i, 'w) gw_mux" where
  "RegisterKeyValueServiceHandlerServer rt server mux =
     (let mux1 = Handle ''POST'' pattern_KeyValueService_Range_0
            (server_handler rt ''/proto.KeyValueService/Range'' ''/range'' (local_request_KeyValueService_Range_0 rt (ks_Range server)) RangeResponseMsg) mux;
          mux2 = Handle ''POST'' pattern_KeyValueService_Put_0
            (server_handler rt ''/proto.KeyValueService/Put'' ''/put'' (local_request_KeyValueService_Put_0 rt (ks_Put server)) PutResponseMsg) mux1;
          mux3 = Handle ''POST'' pattern_KeyValueService_DeleteRange_0
            (server_handler rt ''/proto.KeyValueService/DeleteRange'' ''/deleterange''
               (local_request_KeyValueService_DeleteRange_0 rt (ks_DeleteRange server)) DeleteRangeResponseMsg) mux2
      in (None, mux3))"

definition RegisterKeyValueServiceHandlerClient :: "'c gw_runtime \<Rightarrow> ('c, 'w) KeyValueService \<Rightarrow> ('c, 'i, 'w) gw_mux \<Rightarrow> error option \<times> ('c, 'i, 'w) gw_mux" where
  "RegisterKeyValueServiceHandlerClient rt client mux =
     (let mux1 = Handle ''POST'' pattern_KeyValueService_Range_0
            (client_handler rt ''/proto.KeyValueService/Range'' ''/range'' (request_KeyValueService_Range_0 rt (ks_Range client)) RangeResponseMsg) mux;
          mux2 = Handle ''POST'' pattern_KeyValueService_Put_0
            (client_handler rt ''/proto.KeyValueService/Put'' ''/put'' (request_KeyValueService_Put_0 rt (ks_Put client)) PutResponseMsg) mux1;
          mux3 = Handle ''POST'' pattern_KeyValueService_DeleteRange_0
            (client_handler rt ''/proto.KeyValueService/DeleteRange'' ''/deleterange''
               (request_KeyValueService_DeleteRange_0 rt (ks_DeleteRange client)) DeleteRangeResponseMsg) mux2
      in (None, mux3))"

text \<open>Streams are refused in the same process; the context is that of the registration.\<close>

definition RegisterWatchServiceHandlerServer :: "'c \<Rightarrow> ('c, 'i, 'w) gw_mux \<Rightarrow> error option \<times> ('c, 'i, 'w) gw_mux" where
  "RegisterWatchServiceHandlerServer ctx mux =
     (None, Handle ''POST'' pattern_WatchService_Watch_0
        (\<lambda>req w. ([HTTPError (Some ctx) None (Status_Unimplemented ''streaming calls are not yet supported in the in-process transport'')], w)) mux)"

definition RegisterWatchServiceHandlerClient :: "'c gw_runtime \<Rightarrow> ('c, 'i, 'w) WatchServiceClient \<Rightarrow> ('c, 'i, 'w) gw_mux \<Rightarrow> error option \<times> ('c, 'i, 'w) gw_mux" where
  "RegisterWatchServiceHandlerClient rt client mux = (None, Handle ''POST'' pattern_WatchService_Watch_0 (watch_handler rt client) mux)"

text \<open>The registrations on a connection make a client of it.\<close>

definition RegisterKVHandler :: "'c gw_runtime \<Rightarrow> ('k \<Rightarrow> ('c, KVPutRequest, KVPutReply, 'w) call) \<Rightarrow> 'k
    \<Rightarrow> ('c, 'i, 'w) gw_mux \<Rightarrow> error option \<times> ('c, 'i, 'w) gw_mux" where
  "RegisterKVHandler rt NewKVClient conn mux = RegisterKVHandlerClient rt (NewKVClient conn) mux"

definition RegisterKeyValueServiceHandler :: "'c gw_runtime \<Rightarrow> ('k \<Rightarrow> ('c, 'w) KeyValueService) \<Rightarrow> 'k
    \<Rightarrow> ('c, 'i, 'w) gw_mux \<Rightarrow> error option \<times> ('c, 'i, 'w) gw_mux" where
  "RegisterKeyValueServiceHandler rt NewKeyValueServiceClient conn mux = RegisterKeyValueServiceHandlerClient rt (NewKeyValueServiceClient conn) mux"

definition RegisterWatchServiceHandler :: "'c gw_runtime \<Rightarrow> ('k \<Rightarrow> ('c, 'i, 'w) WatchServiceClient) \<Rightarrow> 'k
    \<Rightarrow> ('c, 'i, 'w) gw_mux \<Rightarrow> error option \<times> ('c, 'i, 'w) gw_mux" where
  "RegisterWatchServiceHandler rt NewWatchServiceClient conn mux = RegisterWatchServiceHandlerClient rt (NewWatchServiceClient conn) mux"

text \<open>The connections that are open, the goroutines that each wait for a context to be done and then close a connection, and the
  contexts that are done.\<close>

record ('x, 'k) conns =
  open_conns :: "'k list"
  waiting :: "('x \<times> 'k) list"
  done_ctxs :: "'x list"

definition no_conns :: "('x, 'k) conns" where
  "no_conns = \<lparr>open_conns = [], waiting = [], done_ctxs = []\<rparr>"

definition conn_Close :: "'k \<Rightarrow> ('x, 'k) conns \<Rightarrow> ('x, 'k) conns" where
  "conn_Close conn cs = cs\<lparr>open_conns := remove1 conn (open_conns cs)\<rparr>"

text \<open>What the registrations on an endpoint have in common: dial, which opens a connection, register, and then the deferred function:
  when the registration has failed it closes the connection, otherwise it starts the goroutine that closes it when the
  context is done. An error of \<^verbatim>\<open>Close\<close> is only logged.\<close>

definition from_endpoint :: "(string \<Rightarrow> error + 'k) \<Rightarrow> ('k \<Rightarrow> 'm \<Rightarrow> error option \<times> 'm) \<Rightarrow> 'x \<Rightarrow> string
    \<Rightarrow> 'm \<times> ('x, 'k) conns \<Rightarrow> error option \<times> 'm \<times> ('x, 'k) conns" where
  "from_endpoint dial register ctx endpoint st =
     (case dial endpoint of
        Inl err \<Rightarrow> (Some err, st)
      | Inr conn \<Rightarrow>
          (let cs = (snd st)\<lparr>open_conns := conn # open_conns (snd st)\<rparr>
           in case register conn (fst st) of
                (Some err, mux) \<Rightarrow> (Some err, mux, conn_Close conn cs)
              | (None, mux) \<Rightarrow> (None, mux, cs\<lparr>waiting := (ctx, conn) # waiting cs\<rparr>)))"

definition RegisterKVHandlerFromEndpoint where
  "RegisterKVHandlerFromEndpoint rt NewKVClient dial = from_endpoint dial (RegisterKVHandler rt NewKVClient)"

definition RegisterKeyValueServiceHandlerFromEndpoint where
  "RegisterKeyValueServiceHandlerFromEndpoint rt NewKeyValueServiceClient dial =
     from_endpoint dial (RegisterKeyValueServiceHandler rt NewKeyValueServiceClient)"

definition RegisterWatchServiceHandlerFromEndpoint where
  "RegisterWatchServiceHandlerFromEndpoint rt NewWatchServiceClient dial =
     from_endpoint dial (RegisterWatchServiceHandler rt NewWatchServiceClient)"

text \<open>A step of the \<open>i\<close>-th goroutine: it waits, or, when its context is done, closes its connection and ends.\<close>

definition closer_step :: "nat \<Rightarrow> ('x, 'k) conns \<Rightarrow> ('x, 'k) conns" where
  "closer_step i cs =
     (if i < length (waiting cs) \<and> fst (waiting cs ! i) \<in> set (done_ctxs cs)
      then conn_Close (snd (waiting cs ! i)) (cs\<lparr>waiting := take i (waiting cs) @ drop (Suc i) (waiting cs)\<rparr>)
      else cs)"

section \<open>The services of the repository\<close>

text \<open>The only implementations of the services that the repository has: those to embed, which implement nothing.\<close>

definition UnimplementedKVServer_Put :: "('c, KVPutRequest, KVPutReply, 'w) call" where
  "UnimplementedKVServer_Put ctx m w = (Inl (Status_Unimplemented ''method Put not implemented''), no_metadata, w)"

definition UnimplementedKeyValueServiceServer :: "('c, 'w) KeyValueService" where
  "UnimplementedKeyValueServiceServer =
     \<lparr>ks_Range = (\<lambda>ctx m w. (Inl (Status_Unimplemented ''method Range not implemented''), no_metadata, w)),
      ks_Put = (\<lambda>ctx m w. (Inl (Status_Unimplemented ''method Put not implemented''), no_metadata, w)),
      ks_DeleteRange = (\<lambda>ctx m w. (Inl (Status_Unimplemented ''method DeleteRange not implemented''), no_metadata, w))\<rparr>"

text \<open>A runtime for examples: an empty body is the end of the input, a body without a brace does not decode, and a
  context holds the metadata of outgoing and of incoming calls.\<close>

definition demo_decoder :: "'m decoder" where
  "demo_decoder rq b m = (m, if b = [] then Some EOF else if hd b = CHR ''{'' then None else Some (DecodeError (ErrorString ''invalid character'')))"

definition demo_runtime :: "(MD \<times> MD) gw_runtime" where
  "demo_runtime = \<lparr>annotateContext = (\<lambda>rq rpc path. Inr (([], []), Some [(''x-forwarded-host'', [''localhost''])])),
     NewOutgoingContext = (\<lambda>ctx md. (md, snd ctx)), NewIncomingContext = (\<lambda>ctx md. (fst ctx, md)), dec_KVPut = demo_decoder,
     dec_Range = demo_decoder, dec_Put = demo_decoder, dec_DeleteRange = demo_decoder, dec_Watch = (\<lambda>rq. [])\<rparr>"

definition demo_stream :: "(MD \<times> MD, nat, stream_call list) WatchServiceClient" where
  "demo_stream = \<lparr>client_Watch = (\<lambda>ctx w. (Inr 0, w)), stream_Send = (\<lambda>i m w. (None, w @ [Send m])),
     stream_CloseSend = (\<lambda>i w. (None, w @ [CloseSend])), stream_Header = (\<lambda>i w. (Inr [], w))\<rparr>"

text \<open>A stream that takes as many requests as its state says.\<close>

definition short_stream :: "(unit, nat, nat) WatchServiceClient" where
  "short_stream = \<lparr>client_Watch = (\<lambda>ctx w. (Inr 0, w)),
     stream_Send = (\<lambda>i m w. if w = 0 then (Some (ErrorString ''EOF''), w) else (None, w - 1)),
     stream_CloseSend = (\<lambda>i w. (None, w)), stream_Header = (\<lambda>i w. (Inr [], w))\<rparr>"

definition demo_post :: "string \<Rightarrow> bytes \<Rightarrow> gw_request" where
  "demo_post path b = \<lparr>gw_Method = ''POST'', gw_Path = path, gw_Override = [], gw_ContentType = ''application/json'', gw_Form = None, gw_Body = Inr b\<rparr>"

section \<open>Routing\<close>

lemma opcode_2 [simp]: "opcode 2 = Some OpLitPush"
  by (simp add: opcode_def)

lemma gateway_patterns:
  "NewPattern 1 [2, 0] [lit] [] = Ok \<lparr>ops = [(OpLitPush, 0)], pool = [lit], vars = [], tailLen = 0, pat_verb = []\<rparr>"
  "NewPattern 1 [2, 0, 2, 1] [lit, lit'] [] = Ok \<lparr>ops = [(OpLitPush, 0), (OpLitPush, 1)], pool = [lit, lit'], vars = [], tailLen = 0, pat_verb = []\<rparr>"
  by (simp_all add: NewPattern_def new_op_def)

lemma match_literals:
  "MatchAndEscape \<lparr>ops = [(OpLitPush, 0)], pool = [lit], vars = [], tailLen = 0, pat_verb = []\<rparr> cs [] =
     (if cs = [lit] then Ok [] else Err ErrNotMatch)"
  "MatchAndEscape \<lparr>ops = [(OpLitPush, 0), (OpLitPush, Suc 0)], pool = [lit, lit'], vars = [], tailLen = 0, pat_verb = []\<rparr> cs [] =
     (if cs = [lit, lit'] then Ok [] else Err ErrNotMatch)"
proof -
  show "MatchAndEscape \<lparr>ops = [(OpLitPush, 0)], pool = [lit], vars = [], tailLen = 0, pat_verb = []\<rparr> cs [] =
     (if cs = [lit] then Ok [] else Err ErrNotMatch)"
    by (cases cs; cases "tl cs") (auto simp: MatchAndEscape_def Let_def)
  show "MatchAndEscape \<lparr>ops = [(OpLitPush, 0), (OpLitPush, Suc 0)], pool = [lit, lit'], vars = [], tailLen = 0, pat_verb = []\<rparr> cs [] =
     (if cs = [lit, lit'] then Ok [] else Err ErrNotMatch)"
    by (cases cs; cases "tl cs"; cases "tl (tl cs)") (auto simp: MatchAndEscape_def Let_def)
qed

text \<open>A pattern that matches one list of components only.\<close>

definition literal :: "Pattern \<Rightarrow> string list \<Rightarrow> bool" where
  "literal pat segs \<longleftrightarrow> pat_verb pat = [] \<and> (\<forall>cs. MatchAndEscape pat cs [] = (if cs = segs then Ok [] else Err ErrNotMatch))"

lemma gateway_literals:
  "literal pattern_WatchService_Watch_0 [''watch'']" "literal pattern_KeyValueService_DeleteRange_0 [''deleterange'']"
  "literal pattern_KeyValueService_Put_0 [''put'']" "literal pattern_KeyValueService_Range_0 [''range'']" "literal pattern_KV_Put_0 [''v1'', ''kv'']"
  by (simp_all add: literal_def match_literals gateway_patterns MustPattern_def pattern_KV_Put_0_def pattern_KeyValueService_Range_0_def
      pattern_KeyValueService_Put_0_def pattern_KeyValueService_DeleteRange_0_def pattern_WatchService_Watch_0_def)

lemma route_literals:
  assumes "list_all2 (\<lambda>(pat, h) (segs, h'). h = h' \<and> literal pat segs) hs table"
  shows "route_loop hs cs [] = (map_option (\<lambda>h. Handler h []) (map_of table cs), cs, [])"
    and "\<not> isPathLengthFallback mux meth rq \<Longrightarrow> fallback_loop mux meth rq hs cs [] = RoutingError (if map_of table cs = None then 404 else 405)"
  using assms by (induction hs table rule: list_all2_induct) (auto simp: literal_def)

lemma mux_route_literals:
  assumes "mux_handlers mux = [(''POST'', hs)]" and "list_all2 (\<lambda>(pat, h) (segs, h'). h = h' \<and> literal pat segs) hs table"
    and "gw_Override rq = []" and "take 1 (gw_Path rq) = ''/''"
  shows "mux_route mux rq = (case map_of table (Split (drop 1 (gw_Path rq)) ''/'') of
      None \<Rightarrow> RoutingError 404 | Some h \<Rightarrow> if gw_Method rq = ''POST'' then Handler h [] else RoutingError 405)"
proof (cases "gw_Method rq = ''POST''")
  case True
  then show ?thesis using assms(1,3,4) route_literals(1) [OF assms(2)]
    by (simp add: mux_route_def method_handlers_def split: option.splits)
next
  case False
  then have "\<not> isPathLengthFallback mux (gw_Method rq) rq" by (simp add: isPathLengthFallback_def)
  with False show ?thesis using assms(1,3,4) route_literals(2) [OF assms(2)]
    by (simp add: mux_route_def method_handlers_def split: option.splits)
qed

text \<open>All services on one multiplexer, through clients.\<close>

definition gateway :: "'c gw_runtime \<Rightarrow> ('c, KVPutRequest, KVPutReply, 'w) call \<Rightarrow> ('c, 'w) KeyValueService \<Rightarrow> ('c, 'i, 'w) WatchServiceClient \<Rightarrow> ('c, 'i, 'w) gw_mux" where
  "gateway rt kv ks ws = snd (RegisterWatchServiceHandlerClient rt ws
     (snd (RegisterKeyValueServiceHandlerClient rt ks (snd (RegisterKVHandlerClient rt kv NewServeMux)))))"

text \<open>The paths and their handlers.\<close>

definition gateway_table :: "'c gw_runtime \<Rightarrow> ('c, KVPutRequest, KVPutReply, 'w) call \<Rightarrow> ('c, 'w) KeyValueService \<Rightarrow> ('c, 'i, 'w) WatchServiceClient
    \<Rightarrow> (string \<times> ('c, 'i, 'w) HandlerFunc) list" where
  "gateway_table rt kv ks ws =
     [(''/watch'', watch_handler rt ws),
      (''/deleterange'', client_handler rt ''/proto.KeyValueService/DeleteRange'' ''/deleterange''
         (request_KeyValueService_DeleteRange_0 rt (ks_DeleteRange ks)) DeleteRangeResponseMsg),
      (''/put'', client_handler rt ''/proto.KeyValueService/Put'' ''/put'' (request_KeyValueService_Put_0 rt (ks_Put ks)) PutResponseMsg),
      (''/range'', client_handler rt ''/proto.KeyValueService/Range'' ''/range'' (request_KeyValueService_Range_0 rt (ks_Range ks)) RangeResponseMsg),
      (''/v1/kv'', client_handler rt ''/proto.KV/Put'' ''/v1/kv'' (request_KV_Put_0 rt kv) KVPutReplyMsg)]"

lemma Split_eq_iff:
  assumes "cs \<noteq> []" and "\<forall>c \<in> set cs. x \<notin> set c"
  shows "Split s [x] = cs \<longleftrightarrow> s = Join cs [x]"
  using Split_Join [OF assms] Join_Split [of s x] by auto

lemma Split_path_iff:
  assumes "take 1 p = ''/''" and "cs \<noteq> []" and "\<forall>c \<in> set cs. CHR ''/'' \<notin> set c"
  shows "Split (drop 1 p) ''/'' = cs \<longleftrightarrow> p = ''/'' @ Join cs ''/''"
  using Split_eq_iff [OF assms(2,3)] assms(1) by (cases p) auto

lemma path_table:
  assumes "take 1 p = ''/''"
  shows "map_of [([''watch''], a), ([''deleterange''], b), ([''put''], c), ([''range''], d), ([''v1'', ''kv''], e)] (Split (drop 1 p) ''/'') =
    map_of [(''/watch'', a), (''/deleterange'', b), (''/put'', c), (''/range'', d), (''/v1/kv'', e)] p"
  using Split_path_iff [OF assms, of "[''watch'']"] Split_path_iff [OF assms, of "[''deleterange'']"] Split_path_iff [OF assms, of "[''put'']"]
    Split_path_iff [OF assms, of "[''range'']"] Split_path_iff [OF assms, of "[''v1'', ''kv'']"] by simp

lemma gateway_handlers:
  obtains a b c d e where "gateway_table rt kv ks ws = [(''/watch'', a), (''/deleterange'', b), (''/put'', c), (''/range'', d), (''/v1/kv'', e)]"
    and "mux_handlers (gateway rt kv ks ws) = [(''POST'', [(pattern_WatchService_Watch_0, a), (pattern_KeyValueService_DeleteRange_0, b),
      (pattern_KeyValueService_Put_0, c), (pattern_KeyValueService_Range_0, d), (pattern_KV_Put_0, e)])]"
  by (rule that [OF gateway_table_def])
    (simp add: gateway_def RegisterWatchServiceHandlerClient_def RegisterKeyValueServiceHandlerClient_def RegisterKVHandlerClient_def
      Handle_def method_handlers_def NewServeMux_def Let_def)

lemma table_routes:
  assumes "mux_handlers mux = [(''POST'', [(pattern_WatchService_Watch_0, a), (pattern_KeyValueService_DeleteRange_0, b),
      (pattern_KeyValueService_Put_0, c), (pattern_KeyValueService_Range_0, d), (pattern_KV_Put_0, e)])]" and "gw_Override rq = []"
  shows "mux_route mux rq =
    (if take 1 (gw_Path rq) \<noteq> ''/'' then RoutingError 400
     else case map_of [(''/watch'', a), (''/deleterange'', b), (''/put'', c), (''/range'', d), (''/v1/kv'', e)] (gw_Path rq) of
            None \<Rightarrow> RoutingError 404
          | Some h \<Rightarrow> if gw_Method rq = ''POST'' then Handler h [] else RoutingError 405)"
proof (cases "take 1 (gw_Path rq) = ''/''")
  case True
  let ?segs = "[([''watch''], a), ([''deleterange''], b), ([''put''], c), ([''range''], d), ([''v1'', ''kv''], e)]"
  from mux_route_literals [OF assms(1) _ assms(2) True, of ?segs] gateway_literals
  have "mux_route mux rq = (case map_of ?segs (Split (drop 1 (gw_Path rq)) ''/'') of
      None \<Rightarrow> RoutingError 404 | Some h \<Rightarrow> if gw_Method rq = ''POST'' then Handler h [] else RoutingError 405)" by simp
  then show ?thesis unfolding path_table [OF True] using True by simp
qed (simp add: mux_route_def)



section \<open>The service in the same process\<close>

text \<open>An action without its context: the two kinds of context carry the metadata of the request in different places.\<close>

primrec without_ctx :: "('c, 'i) action \<Rightarrow> (unit, 'i) action" where
  "without_ctx (HTTPError c md err) = HTTPError (map_option (\<lambda>_. ()) c) md err"
| "without_ctx (ForwardMessage c md msg) = ForwardMessage () md msg"
| "without_ctx (ForwardStream c md i) = ForwardStream () md i"
| "without_ctx (GoSend i decs) = GoSend i decs"
| "without_ctx Cancel = Cancel"

lemma metadata_Join_append:
  "distinct (map fst (a @ b)) \<Longrightarrow>
   fold (\<lambda>(k, v) out. AList.update k ((case map_of out k of None \<Rightarrow> [] | Some u \<Rightarrow> u) @ v) out) b a = a @ b"
proof (induction b arbitrary: a)
  case (Cons kv b)
  obtain k v where kv: "kv = (k, v)" by force
  have k: "k \<notin> fst ` set a" using Cons.prems kv by auto
  then have "map_of a k = None" by (simp add: map_of_eq_None_iff)
  moreover have "AList.update k v a = a @ [(k, v)]" using k by (induction a) auto
  ultimately show ?case using Cons.IH [of "a @ [(k, v)]"] Cons.prems kv by simp
qed simp

lemma metadata_Join_Nil: "distinct (map fst md) \<Longrightarrow> metadata_Join [] md = md"
  unfolding metadata_Join_def using metadata_Join_append [of "[]" md] by simp

text \<open>A service and a client of it: what the gateway relies on is that the metadata of an outgoing call reach the service as those of
  an incoming call, and that the header and the trailer that a call sets are maps. Then it makes no difference whether they come through
  the client or through the stream of the context.\<close>

locale unary_service =
  fixes rt :: "'c gw_runtime" and client server :: "('c, 'm, 'r, 'w) call"
  assumes delivered: "client (NewOutgoingContext rt ctx md) m w = server (NewIncomingContext rt ctx md) m w"
    and delivered_none: "annotateContext rt req rpc path = Inr (ctx, None) \<Longrightarrow> client ctx m w = server ctx m w"
    and header_map: "server ctx m w = (res, smd, w1) \<Longrightarrow> distinct (map fst (HeaderMD smd))"
    and trailer_map: "server ctx m w = (res, smd, w1) \<Longrightarrow> distinct (map fst (TrailerMD smd))"
begin

lemma joined_metadata:
  assumes "server ctx m w = (res, smd, w1)"
  shows "\<lparr>HeaderMD = metadata_Join [] (HeaderMD smd), TrailerMD = metadata_Join [] (TrailerMD smd)\<rparr> = smd"
  using header_map [OF assms] trailer_map [OF assms] by (cases smd) (simp add: metadata_Join_Nil)

lemma contexts_agree:
  obtains err where "AnnotateContext rt req rpc path = Inl err" "AnnotateIncomingContext rt req rpc path = Inl err"
  | c c' where "AnnotateContext rt req rpc path = Inr c" "AnnotateIncomingContext rt req rpc path = Inr c'" "client c = server c'"
proof (cases "annotateContext rt req rpc path")
  case (Inl err)
  then show thesis using that(1) by (simp add: AnnotateContext_def AnnotateIncomingContext_def)
next
  case (Inr x)
  obtain ctx md where x: "x = (ctx, md)" by force
  have "client (NewOutgoingContext rt ctx d) = server (NewIncomingContext rt ctx d)" for d using delivered by (intro ext)
  moreover have "client ctx = server ctx" if "md = None" using delivered_none [OF Inr [unfolded x that]] by (intro ext)
  ultimately show thesis using that(2) Inr x by (cases md) (auto simp: AnnotateContext_def AnnotateIncomingContext_def)
qed

lemma handlers_agree:
  "map without_ctx (fst (server_handler rt rpc path (local_request_unary z dec server) msg req w)) =
     map without_ctx (fst (client_handler rt rpc path (request_unary z dec client) msg req w)) \<and>
   snd (server_handler rt rpc path (local_request_unary z dec server) msg req w) =
     snd (client_handler rt rpc path (request_unary z dec client) msg req w)"
proof (cases rule: contexts_agree [of req rpc path])
  case (2 c c')
  have "metadata_Join [] [] = []" by (simp add: metadata_Join_def)
  with 2 joined_metadata show ?thesis
    by (auto simp: server_handler_def client_handler_def request_unary_def local_request_unary_def no_metadata_def Let_def
        split: sum.splits prod.splits option.splits decode_error.splits)
qed (simp add: server_handler_def client_handler_def)

end

interpretation kv_Put: unary_service demo_runtime UnimplementedKVServer_Put UnimplementedKVServer_Put
  by unfold_locales (simp_all add: UnimplementedKVServer_Put_def no_metadata_def)

interpretation ks_Range: unary_service demo_runtime "ks_Range UnimplementedKeyValueServiceServer" "ks_Range UnimplementedKeyValueServiceServer"
  by unfold_locales (simp_all add: UnimplementedKeyValueServiceServer_def no_metadata_def)

interpretation ks_Put: unary_service demo_runtime "ks_Put UnimplementedKeyValueServiceServer" "ks_Put UnimplementedKeyValueServiceServer"
  by unfold_locales (simp_all add: UnimplementedKeyValueServiceServer_def no_metadata_def)

interpretation ks_DeleteRange: unary_service demo_runtime "ks_DeleteRange UnimplementedKeyValueServiceServer" "ks_DeleteRange UnimplementedKeyValueServiceServer"
  by unfold_locales (simp_all add: UnimplementedKeyValueServiceServer_def no_metadata_def)

text \<open>The service in the same process and behind a connection give a request to \<^verbatim>\<open>/range\<close> the same answer, apart from the contexts.\<close>

lemma local_Range_is_remote:
  assumes "unary_service rt (ks_Range client) (ks_Range server)"
  shows "map without_ctx (fst (server_handler rt rpc path (local_request_KeyValueService_Range_0 rt (ks_Range server)) RangeResponseMsg req w)) =
    map without_ctx (fst (client_handler rt rpc path (request_KeyValueService_Range_0 rt (ks_Range client)) RangeResponseMsg req w))"
  unfolding local_request_KeyValueService_Range_0_def request_KeyValueService_Range_0_def
  using unary_service.handlers_agree [OF assms] by blast

section \<open>The sender of a watch\<close>

abbreviation decoded :: "(decode_error + WatchRequest) list \<Rightarrow> WatchRequest list" where
  "decoded decs \<equiv> map projr (takeWhile (\<lambda>d. \<not> isl d) decs)"

text \<open>The state after sending some requests, and whether sending the one at position \<open>i\<close>, after those before it, fails.\<close>

definition sent_state :: "('c, 'i, 'w) WatchServiceClient \<Rightarrow> 'i \<Rightarrow> WatchRequest list \<Rightarrow> 'w \<Rightarrow> 'w" where
  "sent_state cl stream ms w = fold (\<lambda>m w. snd (stream_Send cl stream m w)) ms w"

definition send_fails :: "('c, 'i, 'w) WatchServiceClient \<Rightarrow> 'i \<Rightarrow> WatchRequest list \<Rightarrow> 'w \<Rightarrow> nat \<Rightarrow> bool" where
  "send_fails cl stream ms w i \<longleftrightarrow> fst (stream_Send cl stream (ms ! i) (sent_state cl stream (take i ms) w)) \<noteq> None"

lemma sent_state_simps [simp]:
  "sent_state cl stream [] w = w"
  "sent_state cl stream (m # ms) w = sent_state cl stream ms (snd (stream_Send cl stream m w))"
  by (simp_all add: sent_state_def)

lemma send_fails_simps [simp]:
  "send_fails cl stream (m # ms) w 0 \<longleftrightarrow> fst (stream_Send cl stream m w) \<noteq> None"
  "send_fails cl stream (m # ms) w (Suc i) \<longleftrightarrow> send_fails cl stream ms (snd (stream_Send cl stream m w)) i"
  by (simp_all add: send_fails_def)

lemma send_loop_exact:
  "\<exists>n \<le> length (decoded decs).
     send_loop cl stream decs w = (map Send (take n (decoded decs)), sent_state cl stream (take n (decoded decs)) w) \<and>
     (\<forall>i. Suc i < n \<longrightarrow> \<not> send_fails cl stream (decoded decs) w i) \<and>
     (n < length (decoded decs) \<longrightarrow> 0 < n \<and> send_fails cl stream (decoded decs) w (n - 1))"
proof (induction decs arbitrary: w)
  case (Cons d decs)
  show ?case
  proof (cases d)
    case (Inl err)
    then show ?thesis by (intro exI [of _ 0]) (cases err; simp add: handleSend_def)
  next
    case (Inr m)
    obtain err w1 where s: "stream_Send cl stream m w = (err, w1)" by force
    show ?thesis
    proof (cases err)
      case None
      obtain n where n: "n \<le> length (decoded decs)"
          "send_loop cl stream decs w1 = (map Send (take n (decoded decs)), sent_state cl stream (take n (decoded decs)) w1)"
          "\<forall>i. Suc i < n \<longrightarrow> \<not> send_fails cl stream (decoded decs) w1 i"
          "n < length (decoded decs) \<longrightarrow> 0 < n \<and> send_fails cl stream (decoded decs) w1 (n - 1)"
        using Cons by blast
      have "\<not> send_fails cl stream (m # decoded decs) w i" if "Suc i < Suc n" for i
        using that n(3) s None by (cases i) auto
      moreover have "send_fails cl stream (m # decoded decs) w n" if "n < length (decoded decs)"
        using that n(4) s by (cases n) auto
      ultimately show ?thesis using Inr s None n(1,2) by (intro exI [of _ "Suc n"]) (auto simp: handleSend_def)
    next
      case (Some x)
      with Inr s show ?thesis by (intro exI [of _ 1]) (simp add: handleSend_def)
    qed
  qed
qed simp

text \<open>C23: The goroutine of a watch sends the requests of the body that come before the first that does not decode, in their order, up
  to and including the first that cannot be sent: every request before the last one sent went through, and when requests are left, it is
  because the last one sent failed. Then, and in the state the sends have led to, it closes its side of the stream exactly once.\<close>

theorem watch_sends_decoded:
  "\<exists>n \<le> length (decoded decs).
     watch_sender cl stream decs w = (map Send (take n (decoded decs)) @ [CloseSend],
       snd (stream_CloseSend cl stream (sent_state cl stream (take n (decoded decs)) w))) \<and>
     (\<forall>i. Suc i < n \<longrightarrow> \<not> send_fails cl stream (decoded decs) w i) \<and>
     (n < length (decoded decs) \<longrightarrow> 0 < n \<and> send_fails cl stream (decoded decs) w (n - 1))"
  using send_loop_exact [of decs cl stream w] by (auto simp: watch_sender_def)

text \<open>Three requests on a stream that takes only one: sending the second fails, the third is not sent.\<close>

theorem watch_sends_decoded_witness:
  "fst (watch_sender short_stream 0 [Inr (WatchCreateRequest ''a'' ''b'' 1), Inr (WatchCancelRequest 1), Inr (WatchCancelRequest 2), Inl EOF] 1) =
   [Send (WatchCreateRequest ''a'' ''b'' 1), Send (WatchCancelRequest 1), CloseSend]"
proof -
  let ?ms = "[WatchCreateRequest ''a'' ''b'' 1, WatchCancelRequest 1, WatchCancelRequest 2]"
  have f: "\<not> send_fails short_stream 0 ?ms 1 0" "send_fails short_stream 0 ?ms 1 (Suc 0)" by (simp_all add: short_stream_def)
  have d: "decoded (map Inr ?ms @ [Inl EOF]) = ?ms" by simp
  obtain n v where n: "n \<le> length ?ms" "watch_sender short_stream 0 (map Inr ?ms @ [Inl EOF]) 1 = (map Send (take n ?ms) @ [CloseSend], v)"
      "\<forall>i. Suc i < n \<longrightarrow> \<not> send_fails short_stream 0 ?ms 1 i" "n < length ?ms \<longrightarrow> 0 < n \<and> send_fails short_stream 0 ?ms 1 (n - 1)"
    using watch_sends_decoded [of "map Inr ?ms @ [Inl EOF]" short_stream 0 1, unfolded d] by (elim exE conjE) (rule that)
  have "n \<le> Suc (Suc 0)" using n(3) f(2) by (meson leI)
  moreover have "n \<noteq> 0" "n \<noteq> Suc 0" using n(4) f(1) by auto
  ultimately have "n = Suc (Suc 0)" by linarith
  then show ?thesis using n(2) by simp
qed

section \<open>Connections\<close>

text \<open>What happens to the connections of a gateway, in any order: a registration on an endpoint, the end of a context, a step of one of the
  goroutines that close.\<close>

datatype ('m, 'x, 'k) conn_event =
    Endpoint "string \<Rightarrow> error + 'k" "'k \<Rightarrow> 'm \<Rightarrow> error option \<times> 'm" 'x string
  | CtxDone 'x
  | Closer nat

primrec conn_step :: "('m, 'x, 'k) conn_event \<Rightarrow> 'm \<times> ('x, 'k) conns \<Rightarrow> 'm \<times> ('x, 'k) conns" where
  "conn_step (Endpoint dial register ctx endpoint) st = snd (from_endpoint dial register ctx endpoint st)"
| "conn_step (CtxDone ctx) st = (fst st, (snd st)\<lparr>done_ctxs := ctx # done_ctxs (snd st)\<rparr>)"
| "conn_step (Closer i) st = (fst st, closer_step i (snd st))"

definition conn_run :: "('m, 'x, 'k) conn_event list \<Rightarrow> 'm \<times> ('x, 'k) conns \<Rightarrow> 'm \<times> ('x, 'k) conns" where
  "conn_run es st = fold conn_step es st"

text \<open>The registrations that succeed: their contexts and connections.\<close>

fun registered :: "('m, 'x, 'k) conn_event list \<Rightarrow> 'm \<Rightarrow> ('x \<times> 'k) list" where
  "registered [] mux = []"
| "registered (Endpoint dial register ctx endpoint # es) mux =
     (case dial endpoint of
        Inl err \<Rightarrow> registered es mux
      | Inr conn \<Rightarrow> (case register conn mux of (None, mux') \<Rightarrow> (ctx, conn) # registered es mux' | (Some err, mux') \<Rightarrow> registered es mux'))"
| "registered (_ # es) mux = registered es mux"

text \<open>The invariant: a connection is open as long as a goroutine waits to close it, and a goroutine waits for every registration whose
  context is not done; \<open>R\<close> are the registrations so far.\<close>

definition conns_inv :: "('x, 'k) conns \<Rightarrow> ('x \<times> 'k) multiset \<Rightarrow> bool" where
  "conns_inv cs R \<longleftrightarrow> mset (open_conns cs) = image_mset snd (mset (waiting cs)) \<and>
     filter_mset (\<lambda>x. fst x \<notin> set (done_ctxs cs)) (mset (waiting cs)) = filter_mset (\<lambda>x. fst x \<notin> set (done_ctxs cs)) R"

lemma mset_remove_nth: "i < length xs \<Longrightarrow> mset xs = add_mset (xs ! i) (mset (take i xs @ drop (Suc i) xs))"
  by (metis id_take_nth_drop mset_append mset.simps(2) union_mset_add_mset_right)

lemma closer_step_inv:
  assumes "conns_inv cs R"
  shows "conns_inv (closer_step i cs) R"
proof (cases "i < length (waiting cs) \<and> fst (waiting cs ! i) \<in> set (done_ctxs cs)")
  case True
  then have "mset (waiting cs) = add_mset (waiting cs ! i) (mset (take i (waiting cs) @ drop (Suc i) (waiting cs)))"
    by (intro mset_remove_nth) simp
  then show ?thesis using True assms by (simp add: conns_inv_def closer_step_def conn_Close_def)
next
  case False
  then have "closer_step i cs = cs" by (auto simp: closer_step_def)
  then show ?thesis using assms by simp
qed

lemma filter_mset_stronger:
  assumes "filter_mset P A = filter_mset P B" and "\<And>x. Q x \<Longrightarrow> P x"
  shows "filter_mset Q A = filter_mset Q B"
proof -
  have "filter_mset Q X = filter_mset Q (filter_mset P X)" for X using assms(2) by (auto simp: filter_filter_mset intro: filter_mset_cong)
  then show ?thesis using assms(1) by metis
qed

lemma conn_step_inv:
  assumes "conns_inv (snd st) R"
  shows "conns_inv (snd (conn_step e st)) (R + mset (registered [e] (fst st)))"
proof (cases e)
  case (Endpoint dial register ctx endpoint)
  then show ?thesis using assms
    by (auto simp: from_endpoint_def conns_inv_def conn_Close_def Let_def split: sum.splits prod.splits option.splits)
next
  case (CtxDone ctx)
  then show ?thesis using assms unfolding conns_inv_def by (auto elim: filter_mset_stronger)
next
  case (Closer i)
  then show ?thesis using assms closer_step_inv by simp
qed

lemma registered_Cons: "registered (e # es) (fst st) = registered [e] (fst st) @ registered es (fst (conn_step e st))"
  by (cases e) (auto simp: from_endpoint_def Let_def split: sum.splits prod.splits option.splits)

lemma conn_run_inv:
  "conns_inv (snd st) R \<Longrightarrow> conns_inv (snd (conn_run es st)) (R + mset (registered es (fst st)))"
proof (induction es arbitrary: st R)
  case (Cons e es)
  show ?case using Cons.IH [OF conn_step_inv [OF Cons.prems, of e]] registered_Cons [of e es st]
    by (simp add: conn_run_def ac_simps del: registered.simps)
qed (simp add: conn_run_def)

lemma conn_run_done:
  "set (done_ctxs (snd (conn_run es st))) = set (done_ctxs (snd st)) \<union> {ctx. CtxDone ctx \<in> set es}"
proof (induction es arbitrary: st)
  case (Cons e es)
  have "set (done_ctxs (snd (conn_step e st))) = set (done_ctxs (snd st)) \<union> {ctx. CtxDone ctx \<in> set [e]}"
    by (cases e) (auto simp: from_endpoint_def conn_Close_def closer_step_def Let_def split: sum.splits prod.splits option.splits)
  then show ?case using Cons by (auto simp: conn_run_def)
qed (simp add: conn_run_def)

text \<open>The goroutines come to rest.\<close>

lemma closers_rest: "\<exists>is. \<forall>i. closer_step i (fold closer_step is cs) = fold closer_step is cs"
proof (induction "length (waiting cs)" arbitrary: cs rule: less_induct)
  case less
  show ?case
  proof (cases "\<forall>i. closer_step i cs = cs")
    case True
    then show ?thesis by (intro exI [of _ "[]"]) simp
  next
    case False
    then obtain i where "closer_step i cs \<noteq> cs" by blast
    then have "length (waiting (closer_step i cs)) < length (waiting cs)"
      by (auto simp: closer_step_def conn_Close_def split: if_splits)
    from less [OF this] obtain "is" where "\<forall>j. closer_step j (fold closer_step is (closer_step i cs)) = fold closer_step is (closer_step i cs)"
      by blast
    then show ?thesis by (intro exI [of _ "i # is"]) simp
  qed
qed

lemma resting_waiting:
  assumes "\<forall>i. closer_step i cs = cs"
  shows "\<forall>x \<in> set (waiting cs). fst x \<notin> set (done_ctxs cs)"
proof (rule ccontr)
  assume "\<not> ?thesis"
  then obtain i where "i < length (waiting cs)" "fst (waiting cs ! i) \<in> set (done_ctxs cs)" by (metis in_set_conv_nth)
  then have "length (waiting (closer_step i cs)) < length (waiting cs)" by (simp add: closer_step_def conn_Close_def)
  then show False using assms by simp
qed

text \<open>C24: The gateway leaks no connection and closes none too early. Whatever registrations, ends of contexts and steps of the goroutines
  happen in whatever order, and whichever dials and registrations fail: at every moment exactly those connections are open that a goroutine
  waits to close; the goroutines can come to rest, and once they rest, the open connections are exactly those of the successful
  registrations whose contexts are not done.\<close>

theorem endpoint_connections_closed:
  assumes "conn_run es (mux, no_conns) = (mux', cs)"
  shows "mset (open_conns cs) = mset (map snd (waiting cs)) \<and>
    (\<exists>is. \<forall>i. closer_step i (fold closer_step is cs) = fold closer_step is cs) \<and>
    ((\<forall>i. closer_step i cs = cs) \<longrightarrow>
       mset (open_conns cs) = mset (map snd (filter (\<lambda>x. CtxDone (fst x) \<notin> set es) (registered es mux))))"
proof (intro conjI impI)
  have "conns_inv (snd (mux, no_conns)) {#}" by (simp add: conns_inv_def no_conns_def)
  from conn_run_inv [OF this, of es] have inv: "conns_inv cs (mset (registered es mux))" using assms by simp
  then show "mset (open_conns cs) = mset (map snd (waiting cs))" by (simp add: conns_inv_def)
  show "\<exists>is. \<forall>i. closer_step i (fold closer_step is cs) = fold closer_step is cs" by (rule closers_rest)
  have d: "set (done_ctxs cs) = {ctx. CtxDone ctx \<in> set es}" using conn_run_done [of es "(mux, no_conns)"] assms by (simp add: no_conns_def)
  assume "\<forall>i. closer_step i cs = cs"
  note w = resting_waiting [OF this]
  then have "mset (waiting cs) = filter_mset (\<lambda>x. fst x \<notin> set (done_ctxs cs)) (mset (waiting cs))"
    by (metis filter_True mset_filter)
  then show "mset (open_conns cs) = mset (map snd (filter (\<lambda>x. CtxDone (fst x) \<notin> set es) (registered es mux)))"
    using inv d by (simp add: conns_inv_def)
qed

text \<open>Four endpoints: one cannot be dialled, on one the registration fails, one has a context that is done, the last stays open.\<close>

theorem endpoint_connections_closed_witness:
  "\<exists>mux' cs. conn_run
     [Endpoint (\<lambda>_. Inl (ErrorString ''refused'')) (RegisterKVHandler demo_runtime (\<lambda>_. UnimplementedKVServer_Put)) (1 :: nat) ''a:1'',
      Endpoint Inr (\<lambda>conn mux. (Some (ErrorString ''failed''), mux)) 1 ''b:1'',
      Endpoint Inr (RegisterKVHandler demo_runtime (\<lambda>_. UnimplementedKVServer_Put)) 1 ''c:1'',
      Endpoint Inr (RegisterKVHandler demo_runtime (\<lambda>_. UnimplementedKVServer_Put)) 2 ''d:1'',
      CtxDone 1, Closer 1]
     (NewServeMux :: (MD \<times> MD, nat, unit) gw_mux, no_conns) = (mux', cs) \<and> mset (open_conns cs) = {#''d:1''#}"
proof -
  let ?es = "[Endpoint (\<lambda>_. Inl (ErrorString ''refused'')) (RegisterKVHandler demo_runtime (\<lambda>_. UnimplementedKVServer_Put)) (1 :: nat) ''a:1'',
      Endpoint Inr (\<lambda>conn mux. (Some (ErrorString ''failed''), mux)) 1 ''b:1'',
      Endpoint Inr (RegisterKVHandler demo_runtime (\<lambda>_. UnimplementedKVServer_Put)) 1 ''c:1'',
      Endpoint Inr (RegisterKVHandler demo_runtime (\<lambda>_. UnimplementedKVServer_Put)) 2 ''d:1'', CtxDone 1, Closer 1]"
  note simps = RegisterKVHandler_def RegisterKVHandlerClient_def
  obtain mux' cs where r: "conn_run ?es (NewServeMux :: (MD \<times> MD, nat, unit) gw_mux, no_conns) = (mux', cs)" by force
  then have "waiting cs = [(2, ''d:1'')]" "done_ctxs cs = [1]"
    by (auto simp: simps conn_run_def from_endpoint_def closer_step_def conn_Close_def no_conns_def)
  then have "\<forall>i. closer_step i cs = cs" by (simp add: closer_step_def less_Suc_eq)
  moreover have "registered ?es (NewServeMux :: (MD \<times> MD, nat, unit) gw_mux) = [(1, ''c:1''), (2, ''d:1'')]"
    by (simp add: simps)
  ultimately show ?thesis using r endpoint_connections_closed [OF r] by simp
qed

end
