(* ===== verification/Go_URL.thy ===== *)
theory Go_URL
  imports Go_Strings
begin

text \<open>
  What the programs of the repository use of \<^verbatim>\<open>net/url\<close> and \<^verbatim>\<open>net/http\<close> when a client asks for a URL: where the fragment and the query
  begin, and how the query string becomes the map of values that a handler sees (the version of Go that \<^verbatim>\<open>go.mod\<close>
  names, where a semicolon separates like an ampersand). Shown: a value of unreserved characters arrives as it is.
\<close>

section \<open>Escapes\<close>

definition unhex :: "char \<Rightarrow> nat option" where
  "unhex c = (let n = of_char c in
     if 48 \<le> n \<and> n \<le> 57 then Some (n - 48) else if 97 \<le> n \<and> n \<le> 102 then Some (n - 87)
     else if 65 \<le> n \<and> n \<le> 70 then Some (n - 55) else None)"

text \<open>\<^verbatim>\<open>url.QueryUnescape\<close>; \<open>None\<close> is an invalid escape.\<close>

fun QueryUnescape :: "string \<Rightarrow> string option" where
  "QueryUnescape [] = Some []"
| "QueryUnescape (c # s) =
     (if c = CHR ''%'' then
        (case s of
           a # b # r \<Rightarrow>
             (case (unhex a, unhex b) of
                (Some x, Some y) \<Rightarrow> map_option (Cons (char_of (16 * x + y))) (QueryUnescape r)
              | _ \<Rightarrow> None)
         | _ \<Rightarrow> None)
      else map_option (Cons (if c = CHR ''+'' then CHR '' '' else c)) (QueryUnescape s))"

section \<open>The query\<close>

text \<open>The text before and after the first character of a kind; the text after is empty when there is none.\<close>

definition cut_on :: "(char \<Rightarrow> bool) \<Rightarrow> string \<Rightarrow> string \<times> string" where
  "cut_on P s = (takeWhile (\<lambda>c. \<not> P c) s, drop 1 (dropWhile (\<lambda>c. \<not> P c) s))"

type_synonym url_values = "(string \<times> string list) list"

definition values_Add :: "string \<Rightarrow> string \<Rightarrow> url_values \<Rightarrow> url_values" where
  "values_Add k v m = AList.update k ((case map_of m k of None \<Rightarrow> [] | Some vs \<Rightarrow> vs) @ [v]) m"

text \<open>One setting of the query: an empty one and one with an invalid escape are left out.\<close>

definition parse_setting :: "string \<Rightarrow> url_values \<Rightarrow> url_values" where
  "parse_setting piece m =
     (if piece = [] then m
      else let (key, val) = cut_on (\<lambda>c. c = CHR ''='') piece
           in case (QueryUnescape key, QueryUnescape val) of (Some k, Some v) \<Rightarrow> values_Add k v m | _ \<Rightarrow> m)"

lemma cut_on_shorter: "cut_on P (c # s) = (piece, rest) \<Longrightarrow> length rest \<le> length s"
  using length_dropWhile_le [of "\<lambda>c. \<not> P c" s] by (auto simp: cut_on_def)

function ParseQuery_loop :: "string \<Rightarrow> url_values \<Rightarrow> url_values" where
  "ParseQuery_loop [] m = m"
| "ParseQuery_loop (c # s) m =
     (let (piece, rest) = cut_on (\<lambda>c. c = CHR ''&'' \<or> c = CHR '';'') (c # s) in ParseQuery_loop rest (parse_setting piece m))"
  by pat_completeness auto
termination
  by (relation "measure (\<lambda>(s, m). length s)") (auto dest!: sym [of "(_, _)" "cut_on _ _"] cut_on_shorter)

definition ParseQuery :: "string \<Rightarrow> url_values" where
  "ParseQuery q = ParseQuery_loop q []"

section \<open>Asking for a URL\<close>

text \<open>The path and the values of the query that a handler sees when a client asks for the URL with \<^verbatim>\<open>http.Get\<close>. \<open>None\<close> when no handler sees the
  request: a control character or an invalid escape in the fragment is an error in the client, and a space in the query breaks the
  request line, which the server refuses by itself. The fragment stays with the client.\<close>

definition is_ctl :: "char \<Rightarrow> bool" where
  "is_ctl c \<longleftrightarrow> (let n = of_char c :: nat in n < 32 \<or> n = 127)"

definition requested :: "string \<Rightarrow> (string \<times> url_values) option" where
  "requested url =
     (let (rest, frag) = cut_on (\<lambda>c. c = CHR ''#'') url;
          (loc, query) = cut_on (\<lambda>c. c = CHR ''?'') rest
      in if list_ex is_ctl url \<or> QueryUnescape frag = None \<or> list_ex (\<lambda>c. c = CHR '' '') query then None
         else Some (dropWhile (\<lambda>c. c \<noteq> CHR ''/'') (drop (length ''http://'') loc), ParseQuery query))"

section \<open>Unreserved characters\<close>

text \<open>The characters that need no escape anywhere in a URL.\<close>

definition unreserved :: "char \<Rightarrow> bool" where
  "unreserved c \<longleftrightarrow> (let n = of_char c :: nat in
     48 \<le> n \<and> n \<le> 57 \<or> 65 \<le> n \<and> n \<le> 90 \<or> 97 \<le> n \<and> n \<le> 122 \<or> c \<in> set ''-_.~'')"

lemma unreserved_not:
  assumes "unreserved c"
  shows "c \<notin> {CHR ''%'', CHR ''+'', CHR ''&'', CHR '';'', CHR ''#'', CHR ''?'', CHR '' '', CHR '','', CHR '')''}" and "\<not> is_ctl c"
  using assms by (auto simp: unreserved_def is_ctl_def Let_def)

lemma QueryUnescape_unreserved: "list_all unreserved s \<Longrightarrow> QueryUnescape s = Some s"
  by (induction s) (use unreserved_not in auto)

lemma cut_on_none: "list_all (\<lambda>c. \<not> P c) s \<Longrightarrow> cut_on P s = (s, [])"
  by (induction s) (simp_all add: cut_on_def)

lemma cut_on_at: "list_all (\<lambda>c. \<not> P c) s \<Longrightarrow> P x \<Longrightarrow> cut_on P (s @ x # t) = (s, t)"
  by (simp add: cut_on_def list_all_iff takeWhile_append2 dropWhile_append2)

lemma ParseQuery_unreserved:
  assumes "list_all unreserved k" and "list_all unreserved v" and "list_all (\<lambda>c. c \<noteq> CHR ''='') k"
  shows "ParseQuery (k @ ''='' @ v) = [(k, [v])]"
proof -
  let ?sep = "\<lambda>c. c = CHR ''&'' \<or> c = CHR '';''" and ?q = "k @ ''='' @ v"
  have "list_all (\<lambda>c. \<not> ?sep c) ?q" using assms(1,2) unreserved_not(1) by (fastforce simp: list_all_iff)
  then have "cut_on ?sep ?q = (?q, [])" by (rule cut_on_none)
  moreover obtain c s where "?q = c # s" by (cases ?q) auto
  ultimately have "ParseQuery ?q = parse_setting ?q []" by (simp add: ParseQuery_def)
  moreover have "cut_on (\<lambda>c. c = CHR ''='') ?q = (k, v)" using cut_on_at [of "\<lambda>c. c = CHR ''=''" k "CHR ''=''" v] assms(3) by simp
  ultimately show ?thesis using assms(1,2) QueryUnescape_unreserved by (simp add: parse_setting_def values_Add_def)
qed

end
