(* ===== verification/Validation.thy ===== *)
theory Validation
  imports Service Go_URL
begin

text \<open>
  The client that records a history for the consistency check (\<^verbatim>\<open>validation/consistency_log.go\<close>). It
  finds the value and the revision in the texts the service answers with by splitting them at
  fixed words. The responses of the service, the clock and the random choices are arguments;
  \<^verbatim>\<open>log.Fatal\<close>, which ends the program, is the result \<open>Err\<close>.
\<close>

section \<open>The program\<close>

record client =
  CLIENT_ID :: string
  KEY :: string

text \<open>What one request of the client meets: the time before the loop's test, the result of
  \<^verbatim>\<open>rand.Intn(2)\<close>, the times around the request, and the error or the body of the response.\<close>

record tick =
  tk_now :: int64
  tk_coin :: nat
  tk_start :: int64
  tk_end :: int64
  tk_resp :: "error + string"

text \<open>The requests of the client as the handler of the service sees them: that of \<^verbatim>\<open>Read\<close> (\<open>None\<close> when no handler sees it), whose URL has the key as it
  is, and that of \<^verbatim>\<open>Write\<close> with the random number \<open>i\<close>. The payload is an object of two strings, which the handler decodes to
  the same two strings.\<close>

definition URL :: string where
  "URL = ''http://localhost:8090/kv''"

definition Read_request :: "client \<Rightarrow> request option" where
  "Read_request cl = map_option (\<lambda>(path, query). \<lparr>Path = path, Method = ''GET'', Query = query, Body = Payload []\<rparr>)
     (requested (URL @ ''?key='' @ KEY cl))"

definition Write_request :: "client \<Rightarrow> int \<Rightarrow> request option" where
  "Write_request cl i = map_option (\<lambda>(path, query). \<lparr>Path = path, Method = ''PUT'', Query = query,
     Body = Payload [(''key'', KEY cl), (''value'', FormatInt i)]\<rparr>) (requested URL)"

definition log_line :: "string \<Rightarrow> string \<Rightarrow> client \<Rightarrow> int64 \<Rightarrow> tick \<Rightarrow> string \<Rightarrow> string" where
  "log_line kind val cl ev t revision = kind @ '','' @ val @ '','' @ FormatInt (sint (tk_start t)) @ '','' @ FormatInt (sint (tk_end t)) @ '','' @
     CLIENT_ID cl @ '','' @ FormatInt (sint ev) @ '','' @ revision"

definition split_at :: "string \<Rightarrow> string \<Rightarrow> int \<Rightarrow> string result" where
  "split_at s sep i = slice_get (Split s sep) i"

definition client_Read :: "client \<Rightarrow> int64 \<Rightarrow> tick \<Rightarrow> string result" where
  "client_Read cl ev t =
     (case tk_resp t of
        Inl e \<Rightarrow> Err e
      | Inr body \<Rightarrow>
          result_bind (split_at body ''is '' 1) (\<lambda>p. result_bind (split_at p '' with'' 0) (\<lambda>val.
          result_bind (split_at body ''revision '' 1) (\<lambda>q. result_bind (split_at q newline 0) (\<lambda>revision.
            Ok (log_line ''read'' val cl ev t revision))))))"

definition client_Write :: "client \<Rightarrow> int64 \<Rightarrow> tick \<Rightarrow> string result" where
  "client_Write cl ev t =
     (case tk_resp t of
        Inl e \<Rightarrow> Err e
      | Inr body \<Rightarrow>
          result_bind (split_at body '')'' 0) (\<lambda>p. result_bind (split_at p '','' 1) (\<lambda>val.
          result_bind (split_at body ''revision '' 1) (\<lambda>q. result_bind (split_at q '' at'' 0) (\<lambda>revision.
            Ok (log_line ''write'' val cl ev t revision))))))"

text \<open>The loop of \<^verbatim>\<open>main\<close>; the last argument is the log file. The first event is a write.\<close>

definition client_event :: "client \<Rightarrow> int64 \<Rightarrow> tick \<Rightarrow> string result" where
  "client_event cl ev t =
     (if ev = 1 then client_Write cl ev t
      else if tk_coin t = 0 then client_Read cl ev t else client_Write cl ev t)"

fun client_loop :: "client \<Rightarrow> int64 \<Rightarrow> int64 \<Rightarrow> int64 \<Rightarrow> tick list \<Rightarrow> string list \<Rightarrow> unit result \<times> string list" where
  "client_loop cl duration start ev [] log = (Ok (), log)"
| "client_loop cl duration start ev (t # ts) log =
     (if sint (tk_now t - start) < sint duration
      then (case client_event cl (ev + 1) t of
              Ok output \<Rightarrow> client_loop cl duration start (ev + 1) ts (log @ [output @ newline])
            | Err e \<Rightarrow> (Err e, log)
            | Panic p \<Rightarrow> (Panic p, log))
      else (Ok (), log))"

text \<open>The value that \<^verbatim>\<open>strconv.ParseInt\<close> returns beside its error, which \<^verbatim>\<open>main\<close> does not look at: 0 for what is no number, the
  nearest number for one out of range.\<close>

definition ParseInt_value :: "string \<Rightarrow> int64" where
  "ParseInt_value s =
     (case ParseInt s of
        Ok v \<Rightarrow> v
      | Err (NumError fn num msg) \<Rightarrow>
          if msg = parse_error_msg ErrRange
          then (if take 1 s = ''-'' then word_of_int (- (2 ^ 63)) else word_of_int (2 ^ 63 - 1)) else 0
      | _ \<Rightarrow> 0)"

text \<open>\<open>args\<close> is \<^verbatim>\<open>os.Args\<close>, \<open>create\<close> the error of \<^verbatim>\<open>os.Create\<close> for a path, \<open>start\<close> the time before the loop; the
  second result is what the log file holds at the end.\<close>

definition client_main :: "string list \<Rightarrow> (string \<Rightarrow> error option) \<Rightarrow> int64 \<Rightarrow> tick list \<Rightarrow> unit result \<times> string list" where
  "client_main args create start ts =
     (case args of
        prog # client_id # duration # key # _ \<Rightarrow>
          (case create (''./events_client_'' @ client_id @ ''.log'') of
             Some e \<Rightarrow> (Err e, [])
           | None \<Rightarrow> client_loop \<lparr>CLIENT_ID = client_id, KEY = key\<rparr> (ParseInt_value duration * 1000000000) start 0 ts [])
      | _ \<Rightarrow> (Panic IndexOutOfRange, []))"

section \<open>The requests\<close>

lemma Write_request_op: "Write_request cl i = Some (request_of (SPut (KEY cl) (FormatInt i)))"
proof -
  have "requested URL = Some (''/kv'', [])" unfolding URL_def by code_simp
  then show ?thesis by (simp add: Write_request_def)
qed

lemma requested_query:
  assumes "list_all unreserved k" and "list_all unreserved v" and "list_all (\<lambda>c. c \<noteq> CHR ''='') k"
    and "list_all (\<lambda>c. c \<notin> {CHR ''#'', CHR ''?''} \<and> \<not> is_ctl c) loc"
  shows "requested (loc @ ''?'' @ k @ ''='' @ v) =
    Some (dropWhile (\<lambda>c. c \<noteq> CHR ''/'') (drop (length ''http://'') loc), [(k, [v])])"
proof -
  let ?u = "loc @ ''?'' @ k @ ''='' @ v"
  have "list_all (\<lambda>c. c \<noteq> CHR ''#'') ?u" using assms unreserved_not(1) by (fastforce simp: list_all_iff)
  then have "cut_on (\<lambda>c. c = CHR ''#'') ?u = (?u, [])" by (rule cut_on_none)
  moreover have "cut_on (\<lambda>c. c = CHR ''?'') ?u = (loc, k @ ''='' @ v)"
    using cut_on_at [of "\<lambda>c. c = CHR ''?''" loc "CHR ''?''" "k @ ''='' @ v"] assms(4) by (simp add: list_all_iff)
  moreover have "\<not> list_ex is_ctl ?u" using assms unreserved_not(2) by (auto simp: list_all_iff list_ex_iff is_ctl_def)
  moreover have "\<not> list_ex (\<lambda>c. c = CHR '' '') (k @ ''='' @ v)" using assms(1,2) unreserved_not(1) by (fastforce simp: list_all_iff list_ex_iff)
  ultimately show ?thesis using ParseQuery_unreserved [OF assms(1-3)] by (simp add: requested_def)
qed

lemma Read_request_op: "list_all unreserved (KEY cl) \<Longrightarrow> Read_request cl = Some (request_of (SGet (KEY cl)))"
proof -
  assume "list_all unreserved (KEY cl)"
  moreover have "list_all unreserved ''key''" "list_all (\<lambda>c. c \<noteq> CHR ''='') ''key''"
      "list_all (\<lambda>c. c \<notin> {CHR ''#'', CHR ''?''} \<and> \<not> is_ctl c) URL"
      "dropWhile (\<lambda>c. c \<noteq> CHR ''/'') (drop (length ''http://'') URL) = ''/kv''"
    by (simp_all add: unreserved_def is_ctl_def URL_def)
  ultimately show ?thesis using requested_query [of "''key''" "KEY cl" URL] by (simp add: Read_request_def)
qed

lemma request_of_plain:
  "request_of (SPut k v) = request_of x \<longleftrightarrow> x = SPut k v" "request_of (SGet k) = request_of x \<longleftrightarrow> x = SGet k"
proof -
  show "request_of (SPut k v) = request_of x \<longleftrightarrow> x = SPut k v" by (cases x) auto
  show "request_of (SGet k) = request_of x \<longleftrightarrow> x = SGet k" by (cases x) auto
qed

text \<open>\<^verbatim>\<open>Read\<close> does not escape the key: with an ampersand it asks for another key than \<^verbatim>\<open>Write\<close> writes, and what follows a \<^verbatim>\<open>#\<close> is not sent at all.\<close>

theorem Read_asks_for_other_key:
  "Read_request \<lparr>CLIENT_ID = c, KEY = ''a#b''\<rparr> = Some (request_of (SGet ''a''))"
  "Read_request \<lparr>CLIENT_ID = c, KEY = ''a+b''\<rparr> = Some (request_of (SGet ''a b''))"
  "Read_request \<lparr>CLIENT_ID = c, KEY = ''a&b''\<rparr> = Some ((request_of (SGet ''a''))\<lparr>Query := [(''key'', [''a'']), (''b'', [[]])]\<rparr>)"
  by (simp_all add: Read_request_def URL_def) code_simp+

section \<open>Splitting at words\<close>

lemma cut_first_step:
  "take (length sep) (d # s) \<noteq> sep \<Longrightarrow> cut_first sep (d # s) = map_option (\<lambda>(a, b). (d # a, b)) (cut_first sep s)"
  by (simp add: cut_first.simps [of sep "d # s"])

lemma cut_first_skip:
  assumes "c \<notin> set u"
  shows "cut_first (c # sep) (u @ t) = map_option (\<lambda>(a, b). (u @ a, b)) (cut_first (c # sep) t)"
  using assms
proof (induction u)
  case Nil
  show ?case by (cases "cut_first (c # sep) t") auto
next
  case (Cons d u)
  then have "take (length (c # sep)) (d # u @ t) \<noteq> c # sep" by auto
  from cut_first_step [OF this] Cons show ?case by (simp add: option.map_comp comp_def case_prod_unfold)
qed

lemma cut_first_here: "cut_first sep (sep @ t) = Some ([], t)"
  by (simp add: cut_first.simps [of sep "sep @ t"])

text \<open>A word cannot end in \<open>u\<close> or at the character behind it.\<close>

lemma cut_first_blocked:
  assumes "x \<notin> set sep" and "\<not> set sep \<subseteq> set u"
  shows "cut_first sep (u @ x # t) = map_option (\<lambda>(a, b). (u @ x # a, b)) (cut_first sep t)"
  using assms
proof (induction u)
  case Nil
  have "take (length sep) (x # t) \<noteq> sep" using Nil by (cases sep) auto
  from cut_first_step [OF this] show ?case by simp
next
  case (Cons d u)
  have "take (length sep) (d # u @ x # t) \<noteq> sep"
  proof
    assume e: "take (length sep) (d # u @ x # t) = sep"
    show False
    proof (cases "length sep \<le> length (d # u)")
      case True
      then have "take (length sep) (d # u) = sep" using e by (cases sep) auto
      then show False using Cons.prems(2) set_take_subset by metis
    next
      case False
      then obtain k where "length sep = length (d # u) + Suc k" by (metis less_imp_Suc_add not_le add_Suc_right)
      then have "x \<in> set (take (length sep) ((d # u) @ x # t))" by simp
      then show False using e Cons.prems(1) by simp
    qed
  qed
  moreover have "\<not> set sep \<subseteq> set u" using Cons.prems(2) by auto
  ultimately show ?case using cut_first_step [of sep d "u @ x # t"] Cons by (simp add: option.map_comp comp_def case_prod_unfold)
qed

lemma Split_cut: "sep \<noteq> [] \<Longrightarrow> Split s sep = (case cut_first sep s of None \<Rightarrow> [s] | Some (a, b) \<Rightarrow> a # Split b sep)"
  by (subst Split.simps) simp

lemma split_at_0: "sep \<noteq> [] \<Longrightarrow> split_at s sep 0 = Ok (case cut_first sep s of None \<Rightarrow> s | Some (a, b) \<Rightarrow> a)"
  using slice_get_nat [of 0 "Split s sep"] Split_nonempty [of sep s]
  by (simp add: split_at_def Split_cut [of sep s] split: option.splits)

lemma split_at_1: "sep \<noteq> [] \<Longrightarrow> cut_first sep s = Some (a, b) \<Longrightarrow> split_at s sep 1 = split_at b sep 0"
  using slice_get_nat [of 0 "Split b sep"] slice_get_nat [of 1 "Split s sep"] Split_nonempty [of sep b]
  by (simp add: split_at_def Split_cut [of sep s])

section \<open>The client reads what the service answers\<close>

lemma FormatInt_chars:
  assumes "0 \<le> n" and "c \<in> {CHR ''i'', CHR ''r'', CHR '' '', CHR '','', CHR '')'', CHR 0x0A}"
  shows "c \<notin> set (FormatInt n)"
  using FormatNat_digits [of c "nat n"] assms by (auto simp: FormatInt_def)

lemma cut_first_Nil [simp]: "sep \<noteq> [] \<Longrightarrow> cut_first sep [] = None"
  by (simp add: cut_first.simps [of sep "[]"])

lemma read_value:
  assumes "CHR ''i'' \<notin> set v" and "CHR '' '' \<notin> set v" and "0 \<le> n"
  shows "split_at (value_text v n) ''is '' 1 = Ok (v @ '' with the revision '' @ FormatInt n @ newline)"
    and "split_at (v @ '' with the revision '' @ FormatInt n @ newline) '' with'' 0 = Ok v"
proof -
  have n: "CHR ''i'' \<notin> set (FormatInt n @ newline)" using FormatInt_chars [OF assms(3), of "CHR ''i''"] by (auto simp: newline_def)
  have "cut_first ''is '' (value_text v n) = Some (''The value '', v @ '' with the revision '' @ FormatInt n @ newline)"
    by (simp add: value_text_def cut_first_step cut_first.simps [of "''is ''" "CHR ''i'' # CHR ''s'' # CHR '' '' # s" for s])
  moreover have "cut_first ''is '' (FormatInt n @ newline) = None"
    using cut_first_skip [OF n, of "''s ''" "[]"] by simp
  then have "cut_first ''is '' (v @ '' with the revision '' @ FormatInt n @ newline) = None"
    using cut_first_skip [OF assms(1)] by (simp add: cut_first_step)
  ultimately show "split_at (value_text v n) ''is '' 1 = Ok (v @ '' with the revision '' @ FormatInt n @ newline)"
    by (simp add: split_at_1 split_at_0)
  have "cut_first '' with'' (v @ '' with'' @ t) = Some (v, t)" for t
    using cut_first_skip [OF assms(2), of "''with''" "'' with'' @ t"] cut_first_here [of "'' with''" t] by simp
  from this [of "'' the revision '' @ FormatInt n @ newline"]
  show "split_at (v @ '' with the revision '' @ FormatInt n @ newline) '' with'' 0 = Ok v" by (simp add: split_at_0)
qed

lemma cut_revision_here: "cut_first ''revision '' (''revision '' @ t) = Some ([], t)"
  by (rule cut_first_here)

lemma read_revision:
  assumes "CHR ''r'' \<notin> set v" and "0 \<le> n"
  shows "split_at (value_text v n) ''revision '' 1 = Ok (FormatInt n @ newline)"
    and "split_at (FormatInt n @ newline) newline 0 = Ok (FormatInt n)"
proof -
  have r: "CHR ''r'' \<notin> set (FormatInt n @ newline)" using FormatInt_chars [OF assms(2), of "CHR ''r''"] by (auto simp: newline_def)
  let ?u = "''The value is '' @ v @ '' with the ''"
  have "CHR ''r'' \<notin> set ?u" using assms(1) by simp
  from cut_first_skip [OF this, of "''evision ''" "''revision '' @ FormatInt n @ newline"]
  have "cut_first ''revision '' (value_text v n) = Some (?u, FormatInt n @ newline)"
    using cut_revision_here [of "FormatInt n @ newline"] by (simp add: value_text_def)
  moreover have "cut_first ''revision '' (FormatInt n @ newline) = None"
    using cut_first_skip [OF r, of "''evision ''" "[]"] by simp
  ultimately show "split_at (value_text v n) ''revision '' 1 = Ok (FormatInt n @ newline)"
    by (simp add: split_at_1 split_at_0)
  have "CHR 0x0A \<notin> set (FormatInt n)" using FormatInt_chars [OF assms(2), of "CHR 0x0A"] by simp
  then show "split_at (FormatInt n @ newline) newline 0 = Ok (FormatInt n)"
    using cut_first_char [of "CHR 0x0A" "FormatInt n" "[]"] by (simp add: split_at_0 newline_def)
qed

lemma write_value:
  assumes "CHR '')'' \<notin> set k" and "CHR '','' \<notin> set k" and "CHR '')'' \<notin> set v" and "CHR '','' \<notin> set v"
  shows "split_at (saved_text k v n at) '')'' 0 = Ok (''The key value pair ('' @ k @ '','' @ v)"
    and "split_at (''The key value pair ('' @ k @ '','' @ v) '','' 1 = Ok v"
proof -
  let ?u = "''The key value pair ('' @ k @ '','' @ v" and ?w = "''The key value pair ('' @ k"
  have "CHR '')'' \<notin> set ?u" using assms by simp
  from cut_first_char [OF this] have "cut_first '')'' (?u @ '')'' @ t) = Some (?u, t)" for t by simp
  from this [of "'' has been saved as revision '' @ FormatInt n @ '' at '' @ at @ newline"]
  show "split_at (saved_text k v n at) '')'' 0 = Ok ?u" by (simp add: split_at_0 saved_text_def)
  have "CHR '','' \<notin> set ?w" using assms by simp
  from cut_first_char [OF this, of v] have "cut_first '','' ?u = Some (?w, v)" by simp
  then show "split_at ?u '','' 1 = Ok v"
    using assms(4) by (simp add: split_at_1 split_at_0 cut_first_char_None)
qed

lemma write_revision:
  assumes "CHR '' '' \<notin> set k" and "CHR ''r'' \<notin> set v" and "0 \<le> n"
  shows "\<exists>q. split_at (saved_text k v n at) ''revision '' 1 = Ok q \<and> split_at q '' at'' 0 = Ok (FormatInt n)"
proof -
  let ?rest = "FormatInt n @ '' at '' @ at @ newline" and ?tail = "v @ '') has been saved as ''"
  have n: "CHR ''r'' \<notin> set (FormatInt n @ '' at '')" "CHR '' '' \<notin> set (FormatInt n)"
    using FormatInt_chars [OF assms(3), of "CHR ''r''"] FormatInt_chars [OF assms(3), of "CHR '' ''"] by auto
  have "CHR ''r'' \<notin> set ?tail" using assms(2) by simp
  from cut_first_skip [OF this, of "''evision ''" "''revision '' @ ?rest"]
  have t: "cut_first ''revision '' (?tail @ ''revision '' @ ?rest) = Some (?tail, ?rest)"
    using cut_revision_here [of ?rest] by simp
  have "cut_first ''revision '' (k @ CHR '','' # t) = map_option (\<lambda>(a, b). (k @ CHR '','' # a, b)) (cut_first ''revision '' t)" for t
    by (rule cut_first_blocked) (use assms(1) in auto)
  from this [of "?tail @ ''revision '' @ ?rest"] t
  have "cut_first ''revision '' (saved_text k v n at) = Some (''The key value pair ('' @ k @ '','' @ ?tail, ?rest)"
    by (simp add: saved_text_def cut_first_step)
  then have q: "split_at (saved_text k v n at) ''revision '' 1 = split_at ?rest ''revision '' 0" by (simp add: split_at_1)
  define z where "z = (case cut_first ''revision '' (at @ newline) of None \<Rightarrow> at @ newline | Some (a, b) \<Rightarrow> a)"
  have "split_at ?rest ''revision '' 0 = Ok (FormatInt n @ '' at '' @ z)"
    using cut_first_skip [OF n(1), of "''evision ''" "at @ newline"] by (simp add: split_at_0 z_def split: option.splits)
  moreover have "split_at (FormatInt n @ '' at'' @ t) '' at'' 0 = Ok (FormatInt n)" for t
    using cut_first_skip [OF n(2), of "''at''" "'' at'' @ t"] cut_first_here [of "'' at''" t] by (simp add: split_at_0)
  from this [of "'' '' @ z"] have "split_at (FormatInt n @ '' at '' @ z) '' at'' 0 = Ok (FormatInt n)" by simp
  ultimately show ?thesis using q by auto
qed

lemma client_Read_answer:
  assumes "0 \<le> i" and "0 \<le> n" and "tk_resp t = Inr (value_text (FormatInt i) n)"
  shows "client_Read cl ev t = Ok (log_line ''read'' (FormatInt i) cl ev t (FormatInt n))"
proof -
  note c = FormatInt_chars [OF assms(1)]
  show ?thesis using assms(3) read_value [OF c c assms(2)] read_revision [OF c assms(2)] by (simp add: client_Read_def)
qed

lemma client_Write_answer:
  assumes "0 \<le> i" and "0 \<le> n" and "\<forall>c \<in> {CHR '' '', CHR '','', CHR '')''}. c \<notin> set (KEY cl)"
    and "tk_resp t = Inr (saved_text (KEY cl) (FormatInt i) n at)"
  shows "client_Write cl ev t = Ok (log_line ''write'' (FormatInt i) cl ev t (FormatInt n))"
proof -
  note c = FormatInt_chars [OF assms(1)]
  obtain q where q: "split_at (saved_text (KEY cl) (FormatInt i) n at) ''revision '' 1 = Ok q" "split_at q '' at'' 0 = Ok (FormatInt n)"
    using write_revision [of "KEY cl" "FormatInt i" n at] c assms(2,3) by auto
  show ?thesis
    using assms(3,4) q write_value(1) [of "KEY cl" "FormatInt i" n at] write_value(2) [of "KEY cl" "FormatInt i"] c
    by (simp add: client_Write_def)
qed

text \<open>The client reads back what the service answered: from the answer to a get it takes the value
  and the revision, from the answer to a put the value and the revision, for the decimal values
  that it writes and for a key without spaces, commas and closing parentheses. So the line it
  logs describes the operation that took place.\<close>

theorem client_reads_answers:
  assumes "0 \<le> i" and "0 \<le> n" and "\<forall>c \<in> {CHR '' '', CHR '','', CHR '')''}. c \<notin> set (KEY cl)"
  shows "(tk_resp t = Inr (value_text (FormatInt i) n) \<longrightarrow>
       client_Read cl ev t = Ok (log_line ''read'' (FormatInt i) cl ev t (FormatInt n))) \<and>
    (tk_resp t = Inr (saved_text (KEY cl) (FormatInt i) n at) \<longrightarrow>
       client_Write cl ev t = Ok (log_line ''write'' (FormatInt i) cl ev t (FormatInt n)))"
  using client_Read_answer [OF assms(1,2)] client_Write_answer [OF assms] by blast

definition demo_client :: client where
  "demo_client = \<lparr>CLIENT_ID = ''3'', KEY = ''color''\<rparr>"

definition demo_tick :: tick where
  "demo_tick = \<lparr>tk_now = 5, tk_coin = 0, tk_start = 6, tk_end = 9, tk_resp = Inr (value_text (FormatInt 417) 12)\<rparr>"

theorem client_reads_answers_witness:
  "client_Read demo_client 2 demo_tick = Ok ''read,417,6,9,3,2,12''"
proof -
  have "\<forall>c \<in> {CHR '' '', CHR '','', CHR '')''}. c \<notin> set (KEY demo_client)" by (simp add: demo_client_def)
  from client_reads_answers [OF _ _ this, of 417 12 demo_tick 2]
  have "client_Read demo_client 2 demo_tick = Ok (log_line ''read'' (FormatInt 417) demo_client 2 demo_tick (FormatInt 12))"
    by (simp add: demo_tick_def)
  then show ?thesis by (simp add: log_line_def demo_client_def demo_tick_def decimal)
qed

section \<open>The log of a run\<close>

text \<open>The response of the tick is the service's answer to the operation the client chooses for event \<open>j\<close>.\<close>

definition wants_write :: "nat \<Rightarrow> tick \<Rightarrow> bool" where
  "wants_write j t \<longleftrightarrow> j = 1 \<or> tk_coin t \<noteq> 0"

definition answered :: "client \<Rightarrow> nat \<Rightarrow> tick \<Rightarrow> int \<Rightarrow> int \<Rightarrow> bool" where
  "answered cl j t i n \<longleftrightarrow> 0 \<le> i \<and> 0 \<le> n \<and>
     (if wants_write j t then \<exists>at. tk_resp t = Inr (saved_text (KEY cl) (FormatInt i) n at)
      else tk_resp t = Inr (value_text (FormatInt i) n))"

definition logged :: "client \<Rightarrow> nat \<Rightarrow> tick \<Rightarrow> string \<Rightarrow> bool" where
  "logged cl j t l \<longleftrightarrow> (\<exists>i n. answered cl j t i n \<and>
     l = log_line (if wants_write j t then ''write'' else ''read'') (FormatInt i) cl (of_nat j) t (FormatInt n) @ newline)"

lemma client_event_logged:
  assumes "\<forall>c \<in> {CHR '' '', CHR '','', CHR '')''}. c \<notin> set (KEY cl)" and "answered cl j t i n" and "0 < j" and "j < 2 ^ 63"
  shows "client_event cl (of_nat j) t =
    Ok (log_line (if wants_write j t then ''write'' else ''read'') (FormatInt i) cl (of_nat j) t (FormatInt n))"
proof -
  have one: "(of_nat j = (1 :: int64)) \<longleftrightarrow> j = 1"
    using word_of_nat_eq_iff [of j 1, where 'a = 64] assms(4) by (simp add: take_bit_nat_eq_self)
  show ?thesis
    using assms(2) client_Read_answer [of i n t cl "of_nat j"] client_Write_answer [OF _ _ assms(1), of i n t _ "of_nat j"]
    by (auto simp: answered_def wants_write_def client_event_def one)
qed

lemma client_loop_logs:
  assumes "\<forall>c \<in> {CHR '' '', CHR '','', CHR '')''}. c \<notin> set (KEY cl)"
    and "\<forall>p < length ts. \<exists>i n. answered cl (j + p + 1) (ts ! p) i n" and "j + length ts < 2 ^ 63"
  shows "\<exists>new. client_loop cl duration start (of_nat j) ts log = (Ok (), log @ new) \<and>
    length new = length (takeWhile (\<lambda>t. sint (tk_now t - start) < sint duration) ts) \<and>
    (\<forall>p < length new. logged cl (j + p + 1) (ts ! p) (new ! p))"
  using assms(2,3)
proof (induction ts arbitrary: j log)
  case (Cons t ts)
  show ?case
  proof (cases "sint (tk_now t - start) < sint duration")
    case True
    obtain i n where a: "answered cl (Suc j) t i n" using Cons.prems(1) by force
    let ?l = "log_line (if wants_write (Suc j) t then ''write'' else ''read'') (FormatInt i) cl (of_nat (Suc j)) t (FormatInt n) @ newline"
    have e: "client_event cl (of_nat (Suc j)) t = Ok (log_line (if wants_write (Suc j) t then ''write'' else ''read'')
        (FormatInt i) cl (of_nat (Suc j)) t (FormatInt n))"
      by (rule client_event_logged [OF assms(1) a]) (use Cons.prems(2) in simp_all)
    have "\<forall>p < length ts. \<exists>i n. answered cl (Suc j + p + 1) (ts ! p) i n" using Cons.prems(1) by force
    then obtain new where new: "client_loop cl duration start (of_nat (Suc j)) ts (log @ [?l]) = (Ok (), (log @ [?l]) @ new)"
        "length new = length (takeWhile (\<lambda>t. sint (tk_now t - start) < sint duration) ts)"
        "\<forall>p < length new. logged cl (Suc j + p + 1) (ts ! p) (new ! p)"
      using Cons.IH [of "Suc j" "log @ [?l]"] Cons.prems(2) by auto
    have "client_loop cl duration start (of_nat j) (t # ts) log = (Ok (), log @ ?l # new)"
      using True e new(1) by (simp add: add.commute)
    moreover have "logged cl (j + p + 1) ((t # ts) ! p) ((?l # new) ! p)" if "p < length (?l # new)" for p
      using that new(3) a by (cases p) (auto simp: logged_def)
    ultimately show ?thesis using new(2) True by (intro exI [of _ "?l # new"]) auto
  qed simp
qed simp

text \<open>The log of the client is complete: as long as the service answers its requests, the loop of
  the client does not fail, runs until the duration is over, and writes one line per request,
  the first a write, numbered from 1, with the value and the revision of the answer.\<close>

theorem client_log_complete:
  assumes "\<forall>c \<in> {CHR '' '', CHR '','', CHR '')''}. c \<notin> set (KEY cl)"
    and "\<forall>p < length ts. \<exists>i n. answered cl (p + 1) (ts ! p) i n" and "length ts < 2 ^ 63"
  shows "\<exists>log. client_loop cl duration start 0 ts [] = (Ok (), log) \<and>
    length log = length (takeWhile (\<lambda>t. sint (tk_now t - start) < sint duration) ts) \<and>
    (\<forall>p < length log. logged cl (p + 1) (ts ! p) (log ! p))"
  using client_loop_logs [of cl ts 0 duration start "[]"] assms by simp

theorem client_log_complete_witness:
  "\<exists>log. client_loop demo_client 10 0 0 [demo_tick\<lparr>tk_resp := Inr (saved_text ''color'' (FormatInt 7) 1 ''a'')\<rparr>, demo_tick] [] = (Ok (), log) \<and>
     length log = 2"
proof -
  let ?ts = "[demo_tick\<lparr>tk_resp := Inr (saved_text ''color'' (FormatInt 7) 1 ''a'')\<rparr>, demo_tick]"
  have k: "\<forall>c \<in> {CHR '' '', CHR '','', CHR '')''}. c \<notin> set (KEY demo_client)" by (simp add: demo_client_def)
  have "answered demo_client 1 (?ts ! 0) 7 1" by (auto simp: answered_def wants_write_def demo_client_def demo_tick_def)
  moreover have "answered demo_client 2 (?ts ! 1) 417 12" by (simp add: answered_def wants_write_def demo_tick_def)
  ultimately have "\<forall>p < length ?ts. \<exists>i n. answered demo_client (p + 1) (?ts ! p) i n"
    by (auto simp: less_Suc_eq numeral_2_eq_2)
  from client_log_complete [OF k this, of 10 0] show ?thesis by (auto simp: demo_tick_def)
qed


section \<open>The command line\<close>

lemma client_main_call:
  assumes "- (2 ^ 63) \<le> secs * 1000000000" and "secs * 1000000000 < 2 ^ 63" and "create (''./events_client_'' @ CLIENT_ID cl @ ''.log'') = None"
  shows "client_main (prog # CLIENT_ID cl # FormatInt secs # KEY cl # rest) create start ts =
    client_loop cl (word_of_int (secs * 1000000000)) start 0 ts []"
proof -
  have "sint (word_of_int secs :: int64) = secs" using assms(1,2) by (intro sint64_of_int) auto
  then have "ParseInt (FormatInt secs) = Ok (word_of_int secs)" using ParseInt_as_FormatInt [of "''ParseInt''" "word_of_int secs"] by (simp add: ParseInt_def)
  then have "ParseInt_value (FormatInt secs) * 1000000000 = word_of_int (secs * 1000000000)" by (simp add: ParseInt_value_def)
  then show ?thesis using assms(3) by (cases cl) (simp add: client_main_def)
qed

text \<open>The error of the duration is overwritten by that of the log file: with a duration that is no number, such as \<^verbatim>\<open>30s\<close>, the client
  ends at once and leaves an empty log.\<close>

lemma client_bad_duration:
  assumes "ParseInt duration = Err (NumError ''ParseInt'' duration (parse_error_msg ErrSyntax))" and "create (''./events_client_'' @ client_id @ ''.log'') = None"
    and "\<forall>t \<in> set ts. 0 \<le> sint (tk_now t - start)"
  shows "client_main (prog # client_id # duration # key # rest) create start ts = (Ok (), [])"
proof -
  have "ParseInt_value duration = 0" using assms(1) by (simp add: ParseInt_value_def)
  then show ?thesis using assms(2,3) by (cases ts) (simp_all add: client_main_def)
qed

lemma duration_30s: "ParseInt ''30s'' = Err (NumError ''ParseInt'' ''30s'' (parse_error_msg ErrSyntax))"
  by (simp add: ParseInt_def ParseInt_as_def ParseUint_def)

end
