(* ===== verification/Spec2Isabelle.thy ===== *)
theory Spec2Isabelle
  imports Index_B_Tree Linearizability Progress Startup Gateway Validation
begin

text \<open>
  \<^bold>\<open>A verification library for the regionless key-value service\<close>

  \<^bold>\<open>The program.\<close> The service (\<^verbatim>\<open>src/cmd/http/main.go\<close>) stores versions of key-value pairs on a
  set of stores that are spread over availability zones. A put draws a revision from a global counter
  (\<^verbatim>\<open>pkg/revision\<close>), asks a hashing manager (\<^verbatim>\<open>pkg/partition/consistent\<close>) for the replicas of the
  bucket of the revision, writes the value under the revision to the replicas through a piping
  (\<^verbatim>\<open>pkg/piping\<close>), which either writes local replicas synchronously and remote ones in goroutines
  or builds a chain (\<^verbatim>\<open>pkg/consistent/chain\<close>), and records the revision with its replicas in an
  index of all keys (\<^verbatim>\<open>pkg/index\<close>). A get finds the revision in the index and reads the value
  through the piping; a delete removes the value and puts a tombstone into the index. The zones and
  the remote stores come from the configuration (\<^verbatim>\<open>pkg/config\<close>) and from measured latencies
  (\<^verbatim>\<open>pkg/network/latency\<close>); a store is an in-memory map or a Redis server (\<^verbatim>\<open>pkg/database\<close>). A client
  (\<^verbatim>\<open>validation/consistency_log.go\<close>) sends reads and writes and logs what it is answered.

  \<^bold>\<open>The theories, in the order of their imports.\<close>
  \<^item> \<open>Go_Prelude\<close>, \<open>Go_Strings\<close>, \<open>Go_URL\<close>: Go's integers as 64-bit words, slices and strings as lists, errors and
    panics as the values \<open>Err\<close> and \<open>Panic\<close> of \<open>result\<close>, the contract of \<^verbatim>\<open>sort.Slice\<close>, and the functions of
    \<^verbatim>\<open>strings\<close>, \<^verbatim>\<open>strconv\<close> and \<^verbatim>\<open>encoding/binary\<close> with their round trips; how a handler
    sees the query of a URL (\<^verbatim>\<open>net/url\<close>), with the keys that arrive as they were sent.
  \<^item> \<open>Revision\<close>: \<^verbatim>\<open>Revision\<close>, its order and its 17-byte coding, and the counter
    \<^verbatim>\<open>GetGlobalIncreasingRevision\<close>, both as a function and as a step relation \<open>rev_step\<close> of concurrent callers. Shown:
    the coding is invertible and keeps the order; calls that do not overlap get increasing
    revisions; calls that overlap may get the same one.
  \<^item> \<open>Key_Index\<close>, \<open>Key_History\<close>: \<^verbatim>\<open>keyIndex\<close> and \<^verbatim>\<open>generation\<close> as records, one definition per method. Shown:
    for revisions that arrive in order the generations implement the list of the key's revisions with
    tombstones; for any order \<open>put\<close> keeps the weaker invariant; \<open>update\<close> is a compare-and-set.
  \<^item> \<open>Tree_Index\<close>: \<^verbatim>\<open>treeIndex\<close> over the list of the items of its B-tree in key order. Shown: the index
    implements a map from keys to histories, \<open>Range\<close> and \<open>RangeSince\<close> return exactly the revisions asked for,
    the operations that change the index, \<open>Get\<close> and \<open>Range\<close> never panic, and \<open>RangeSince\<close> does not from a revision above 0 on (\<open>RangeSince_zero_panics\<close> and
    \<open>Equal_missing_key_panics\<close> show the calls that do); two updates under the read lock (\<open>upd_step\<close>) may lose one.
  \<^item> \<open>B_Tree\<close>, \<open>B_Tree_List\<close>, \<open>Index_B_Tree\<close>: the vendored B-tree, node by node with its bounds checks, and the index written over it. Shown: the tree
    implements the sorted list, so that the index on the tree answers as \<open>Tree_Index\<close> does, without an access out of bounds; it stays balanced, with 31 to 63 keys in a node.
  \<^item> \<open>Consistent_Hashing\<close>, \<open>Rendezvous\<close>, \<open>Ring\<close>, \<open>Hashing_Manager\<close>: nodes, the two hashing schemes, and the
    managers \<^verbatim>\<open>SyncHashingManager\<close> and \<^verbatim>\<open>SyncAsyncHashingManager\<close>. Shown: rendezvous chooses the largest weight and
    moves keys only to a node that is added, the ring does not depend on the order of addition, the synchronous
    replicas lie in different zones in the order of their latency, the asynchronous ones are distinct remote stores.
  \<^item> \<open>Constants\<close>, \<open>Latency\<close>, \<open>Config\<close>: the named constants, the statistics of latencies and the workers that
    collect them, and \<^verbatim>\<open>GetReplications\<close>, which divides the stores. Shown: the division is a partition of
    the stores, the average lies between the smallest and the largest sample, the order of the workers does not matter.
  \<^item> \<open>Database\<close>, \<open>Chain\<close>, \<open>Piping\<close>: the back ends as operations on a \<open>world\<close> of handles, in-memory maps,
    Redis pools and the state of the Redis servers; the chain as a recursive datatype with background jobs; the two
    pipings. Shown: what is written is read, for each back end and each piping; what a failed write leaves behind;
    the retry loop of the pool stops at the first success and after five retries.
  \<^item> \<open>Handler\<close>: \<^verbatim>\<open>NewKeyValueHandler\<close>, \<^verbatim>\<open>ServeHTTP\<close> and the handlers of the requests, on the state \<open>server\<close> (the
    handler with its index, the counter, the world, the pending goroutines, the lock of the index). Shown: a request that is refused
    before it reaches the stores changes nothing.
  \<^item> \<open>Service\<close>, \<open>Service_Requests\<close>, \<open>Service_Refinement\<close>: the abstract specification \<open>kv_step\<close>, a map from keys to
    versions that knows no replicas, the invariant \<open>svc_inv\<close> that connects it with the state of the server,
    the simulation of each request and of each background job, and from these the refinement of whole
    schedules from the start of the program on, and its consequences for clients.
  \<^item> \<open>Threads\<close>, \<open>Concurrent\<close>, \<open>Linearizability\<close>, \<open>Progress\<close>: requests that overlap. A handler is a thread (\<open>pc\<close> says where it stands, \<open>hstep\<close>
    is its next access to the counter, the index or a store; the calls of the index take its lock and release it), and \<open>conc_exec\<close> interleaves any number of them with the
    background jobs. Shown: a thread that runs alone is \<open>ServeHTTP\<close>; as long as no revision is drawn twice, requests that overlap, deletes among them,
    do not panic and answer with saved versions, and behave like an atomic register for each key that is not deleted (\<open>conc_inv\<close> is the invariant); when a revision is drawn twice, a get
    may return the value of another key; whatever overlaps, and also when a revision is drawn twice, every request can run
    to its end, with a response, and leaves the lock free (\<open>conc_safe\<close> is the invariant).
  \<^item> \<open>Tracer\<close>, \<open>XXHash\<close>, \<open>Startup\<close>: the sampler of traces with Go's \<^verbatim>\<open>float64\<close>, the hash function, and \<^verbatim>\<open>main\<close> with the configuration file, the
    stores, the measured connections and the handler. Shown: the share of sampled traces is the configured rate up to one draw in \<open>2 ^ 31\<close>; a
    program that has started serves as the specification says, for the configuration of the repository and its hash function
    too; a start that fails ends before it serves.
  \<^item> \<open>Gateway_Mux\<close>, \<open>Gateway\<close>: the gateway that is generated from the \<^verbatim>\<open>.proto\<close> files, and the patterns and the dispatch of the vendored
    multiplexer it registers with. Shown: accepted patterns never underflow their stack, the gateway serves exactly its five
    paths, a watch sends what it decodes, stops at the first failure and closes
    once, no connection leaks and none is closed while it is in use; given that metadata are delivered (\<open>unary_service\<close>), a service
    in the process and one behind a connection do the same to a response.
  \<^item> \<open>Validation\<close>: the client, its command line, the URLs it asks for, its parsing of the answers and its loop. The last section below composes it with the service.

  \<^bold>\<open>Interfaces.\<close> A locale states what a component relies on, and is interpreted on the definitions of
  the component that provides it: \<open>go_sort\<close> (by insertion into a sorted list), \<open>revision_index\<close> (by \<open>Key_Index\<close>,
  used by the tree), \<open>strict_weak_order\<close> (by the order of key indexes, used by the B-tree), \<open>ordered_tree\<close> (by the list of items and by the B-tree), \<open>consistent_hashing\<close> (by rendezvous, by the
  ring and by their sum, used by the managers), \<open>kv_backend\<close> (by the handles of the in-memory
  databases, by the stores as the piping reaches them and, under the hypothesis \<open>redis_service\<close>,
  by Redis; used by the chain and the pipings), \<open>unary_service\<close> (a gRPC client and its service, which see the same metadata; by the services of the
  repository, which implement nothing, used by the gateway) and \<open>simulation\<close> (by the events of the service).

  \<^bold>\<open>Bounds.\<close> The revisions of the index are signed and the counter is unsigned, so the theorems
  on histories ask for a counter below \<open>2 ^ 63\<close>; a request draws at most two revisions, which gives fewer than
  \<open>2 ^ 62\<close> events of a schedule or overlapping requests; where only the steps are counted, a step of a thread adds at most one to the counter, which gives fewer than \<open>2 ^ 63 - 1\<close> steps. No definition takes fuel: the loops of the sources run over lists, and the
  loop of the Redis pool is bounded by its five retries. \<open>service_history\<close> collects what the theorems
  on the service assume: a configuration with the zone manager and the
  synchronous/asynchronous piping, store names without commas and with different hashes, enough zones and
  remote stores for the replica counts, and stores in memory or Redis servers that answer as documented.

  \<^bold>\<open>Arguments of the model.\<close> \<^verbatim>\<open>sort.Slice\<close> and \<^verbatim>\<open>sort.Sort\<close>, \<^verbatim>\<open>strconv.Quote\<close>, the Redis
  client with its servers, the files and what the JSON decoder makes of them, the times and the errors of connections, the order in which Go iterates
  over a map and in which goroutines run; for the gateway the services, the marshalers, the metadata that the runtime collects from a request and the
  metadata package of gRPC; for the tracer the exporter and the
  conversion of numbers out of range; for the client the clock, the random choices and the responses. The hash function is an argument of
  the hashing schemes, too: the theorems ask for different hashes of different names, and the start shows this of the digest
  that the program uses for the configuration of the repository.

  \<^bold>\<open>Concurrency.\<close> In \<open>Service_Refinement\<close> handlers run one after the other and the goroutines they leave behind run at any
  time between them. In \<open>Threads\<close> the handlers themselves interleave, down to the add and the load of the counter, the call of the index
  under its lock, which is part of the state, the test and the change of an update under the read lock, and the access to one store; within one such
  step nothing else happens: the two atomic calls inside \<open>put\<close> that fill in \<^verbatim>\<open>created\<close> belong to the step of the index, a call on a chain
  is one step, and so is the read of an index that an update under the read lock is changing. A thread that cannot take the lock stays where it is; that
  a Go \<^verbatim>\<open>RWMutex\<close> lets no new reader in while a writer waits is not modelled. What a background job returns is not looked at, as in the code. The theorem on atomic registers is about the keys that no
  request deletes: a get that overlaps with a delete of its key may find the value gone, and a put that was drawn before a delete
  and indexed after it makes the key visible again. What overlapping calls can do to
  each other is also shown where the code leaves a gap: in the counter (\<open>rev_counter_duplicate\<close>, \<open>overlapping_puts_mix_values\<close>), in
  \<open>Update\<close> (\<open>Update_lost_under_read_lock\<close>, \<open>overlapping_updates_both_saved\<close>) and between an asynchronous put and delete (\<open>async_put_may_overtake_delete\<close>).

  \<^bold>\<open>Not modelled.\<close> The parsing of the command line of the service (the values of its flags are an argument) and its listening socket;
  the generated marshalling of messages (\<^verbatim>\<open>pkg/server/*.pb.go\<close>) and the client stubs; of the vendored packages all but the digest, the samplers, the patterns, the
  dispatch and the attachment of metadata to contexts, and what the index calls of the B-tree (nothing deletes from a tree or clones one); the texts that the \<^verbatim>\<open>String\<close> methods of the key index print; the interfaces of \<^verbatim>\<open>src/hashing\<close>, which
  nothing implements.
\<close>

section \<open>The service and its validation client\<close>

text \<open>The request of the client for its event \<open>j\<close>, and the body of the response to it.\<close>

definition client_request :: "client \<Rightarrow> nat \<Rightarrow> tick \<Rightarrow> int \<Rightarrow> request option" where
  "client_request cl j t i = (if wants_write j t then Write_request cl i else Read_request cl)"

fun body_of :: "response result \<Rightarrow> error + string" where
  "body_of (Ok (Response code text)) = Inr text"
| "body_of (Err e) = Inl e"
| "body_of (Panic p) = Inl (ErrorString ''connection closed'')"

definition served :: "client \<Rightarrow> nat \<Rightarrow> tick \<Rightarrow> svc_op \<times> response result \<Rightarrow> bool" where
  "served cl j t a \<longleftrightarrow> (\<exists>i. 0 \<le> i \<and> client_request cl j t i = Some (request_of (fst a))) \<and> tk_resp t = body_of (snd a)"

text \<open>The versions of the client's key hold what the client wrote.\<close>

definition decimal_versions :: "versions \<Rightarrow> bool" where
  "decimal_versions es \<longleftrightarrow> (\<forall>e \<in> set es. 0 < fst e \<and> (\<exists>i. 0 \<le> i \<and> snd e = Some (FormatInt i)))"

lemma client_request_op:
  "list_all unreserved (KEY cl) \<Longrightarrow> client_request cl j t i = Some (request_of x) \<longleftrightarrow>
     x = (if wants_write j t then SPut (KEY cl) (FormatInt i) else SGet (KEY cl))"
  by (simp add: client_request_def Write_request_op Read_request_op request_of_plain del: request_of.simps)

lemma served_step:
  assumes "kv_answer m a m'" and "list_all unreserved (KEY cl)" and "served cl j t a" and "decimal_versions (m (KEY cl))" and "j \<noteq> 1 \<longrightarrow> m (KEY cl) \<noteq> []"
  shows "(\<exists>i n. answered cl j t i n) \<and> decimal_versions (m' (KEY cl)) \<and> m' (KEY cl) \<noteq> []"
proof -
  obtain i where i: "0 \<le> i" "fst a = (if wants_write j t then SPut (KEY cl) (FormatInt i) else SGet (KEY cl))" and r: "tk_resp t = body_of (snd a)"
    using assms(3) client_request_op [OF assms(2)] by (auto simp: served_def)
  obtain rsp where s: "snd a = Ok rsp" "kv_step m (fst a) rsp m'" using assms(1) by (cases a) auto
  show ?thesis
  proof (cases "wants_write j t")
    case True
    then have "kv_step m (SPut (KEY cl) (FormatInt i)) rsp m'" using s(2) i(2) by simp
    then obtain n at where n: "newer m n" "rsp = Response 201 (saved_text (KEY cl) (FormatInt i) n at)"
        "m' (KEY cl) = m (KEY cl) @ [(n, Some (FormatInt i))]"
      by (auto elim: kv_put_cases)
    then have "0 < n" by (simp add: newer_def)
    moreover have "answered cl j t i n" using True i(1) r s(1) n(2) \<open>0 < n\<close> by (auto simp: answered_def)
    ultimately show ?thesis using n(3) i(1) assms(4) by (auto simp: decimal_versions_def)
  next
    case False
    then have ne: "m (KEY cl) \<noteq> []" using assms(5) by (auto simp: wants_write_def)
    then have "last (m (KEY cl)) \<in> set (m (KEY cl))" by simp
    then have "0 < fst (last (m (KEY cl)))" "\<exists>i. 0 \<le> i \<and> snd (last (m (KEY cl))) = Some (FormatInt i)"
      using assms(4) by (auto simp: decimal_versions_def)
    then obtain n i' where l: "last (m (KEY cl)) = (n, Some (FormatInt i'))" "0 < n" "0 \<le> i'" by (metis prod.collapse)
    have "kv_step m (SGet (KEY cl)) rsp m'" using s(2) i(2) False by simp
    then have "rsp = Response 202 (value_text (FormatInt i') n)" "m' = m" using l ne by (auto elim!: kv_get_cases)
    then have "answered cl j t i' n" using False l r s(1) by (simp add: answered_def)
    with \<open>m' = m\<close> ne assms(4) show ?thesis by blast
  qed
qed

lemma served_run:
  assumes "explains kv_answer m answers m'" and "list_all unreserved (KEY cl)" and "length answers = length ts"
    and "\<forall>p < length ts. served cl (j + p + 1) (ts ! p) (answers ! p)"
    and "decimal_versions (m (KEY cl))" and "j \<noteq> 0 \<longrightarrow> m (KEY cl) \<noteq> []"
  shows "\<forall>p < length ts. \<exists>i n. answered cl (j + p + 1) (ts ! p) i n"
  using assms
proof (induction ts arbitrary: answers m j)
  case (Cons t ts)
  then obtain a as where as: "answers = a # as" by (cases answers) auto
  then obtain m1 where m1: "kv_answer m a m1" "explains kv_answer m1 as m'" using Cons.prems(1) by auto
  have "served cl (Suc j) t a" using Cons.prems(4) as by force
  from served_step [OF m1(1) Cons.prems(2) this Cons.prems(5)] Cons.prems(6)
  have one: "\<exists>i n. answered cl (Suc j) t i n" "decimal_versions (m1 (KEY cl))" "m1 (KEY cl) \<noteq> []" by auto
  have "\<forall>p < length ts. served cl (Suc j + p + 1) (ts ! p) (as ! p)" using Cons.prems(4) as by force
  from Cons.IH [OF m1(2) Cons.prems(2) _ this] one(2,3) Cons.prems(3) as
  have "\<forall>p < length ts. \<exists>i n. answered cl (Suc j + p + 1) (ts ! p) i n" by auto
  then show ?case using one(1) by (auto simp: less_Suc_eq_0_disj)
qed simp

text \<open>C8: The log of the validation client is a true record of the service. The client is called with a duration in
  seconds and a key of unreserved URL characters (letters, digits and \<^verbatim>\<open>-_.~\<close>; it puts the key into the URL as it is), and is alone with the
  service: the requests that the service answers are the ones that the client makes, as the handler sees them. Then it runs
  without failing until the duration is over, whatever the background jobs do, and every line it
  writes has the value and the revision that the service answered for that request.\<close>

theorem client_log_of_service:
  assumes "service_history env es answers sv" and "length answers = length ts" and "length ts < 2 ^ 63"
    and "\<forall>p < length ts. served cl (p + 1) (ts ! p) (answers ! p)"
    and "list_all unreserved (KEY cl)"
    and "0 \<le> secs" and "secs * 1000000000 < 2 ^ 63" and "create (''./events_client_'' @ CLIENT_ID cl @ ''.log'') = None"
  shows "\<exists>log. client_main [prog, CLIENT_ID cl, FormatInt secs, KEY cl] create start ts = (Ok (), log) \<and>
    length log = length (takeWhile (\<lambda>t. sint (tk_now t - start) < secs * 1000000000) ts) \<and>
    (\<forall>p < length log. logged cl (p + 1) (ts ! p) (log ! p))"
proof -
  obtain m where "explains kv_answer (\<lambda>_. []) answers m" using history_inv [OF assms(1)] by blast
  then have "\<forall>p < length ts. \<exists>i n. answered cl (p + 1) (ts ! p) i n"
    using served_run [of "\<lambda>_. []" answers m cl ts 0] assms(2,4,5) by (simp add: decimal_versions_def)
  moreover have "sint (word_of_int (secs * 1000000000) :: int64) = secs * 1000000000" using assms(6,7) by (intro sint64_of_int) auto
  moreover have "\<forall>c \<in> {CHR '' '', CHR '','', CHR '')''}. c \<notin> set (KEY cl)"
    using assms(5) unreserved_not(1) by (fastforce simp: list_all_iff)
  ultimately show ?thesis
    using client_loop_logs [of cl, of ts 0 "word_of_int (secs * 1000000000)" start "[]"] assms(3,6)
      client_main_call [of secs create cl prog "[]" start ts, OF _ assms(7,8)] by simp
qed

definition client_events :: "event list" where
  "client_events = [Request (SPut ''color'' (FormatInt 7)) demo_choices, RunJob 0, Request (SGet ''color'') demo_choices]"

theorem client_log_of_service_witness:
  "\<exists>answers sv ts log. service_history mem_env client_events answers sv \<and>
     client_main [''consistency_log'', CLIENT_ID demo_client, FormatInt 30, KEY demo_client] (\<lambda>_. None) 0 ts = (Ok (), log) \<and> length log = 2 \<and>
     (\<forall>p < length log. logged demo_client (p + 1) (ts ! p) (log ! p))"
proof -
  have "\<forall>e \<in> set client_events. fair_event e" by (simp add: client_events_def demo_choices_def fair_def)
  then obtain answers sv where h: "service_history mem_env client_events answers sv"
    using mem_history [of client_events] by (auto simp: client_events_def)
  then have "map fst answers = requests client_events" using run_requests unfolding service_history_def by blast
  then obtain res1 res2 where a: "answers = [(SPut ''color'' (FormatInt 7), res1), (SGet ''color'', res2)]"
    by (auto simp: client_events_def)
  let ?ts = "[demo_tick\<lparr>tk_resp := body_of res1\<rparr>, demo_tick\<lparr>tk_resp := body_of res2\<rparr>]"
  have key: "list_all unreserved (KEY demo_client)" by (simp add: demo_client_def unreserved_def)
  have "client_request demo_client 1 (?ts ! 0) 7 = Some (request_of (fst (answers ! 0)))"
    unfolding client_request_op [OF key] by (simp add: a wants_write_def demo_client_def)
  then have "served demo_client 1 (?ts ! 0) (answers ! 0)" unfolding served_def by (intro conjI exI [of _ 7]) (simp_all add: a)
  moreover have "client_request demo_client 2 (?ts ! 1) 0 = Some (request_of (fst (answers ! 1)))"
    unfolding client_request_op [OF key] by (simp add: a wants_write_def demo_client_def demo_tick_def)
  then have "served demo_client 2 (?ts ! 1) (answers ! 1)" unfolding served_def by (intro conjI exI [of _ 0]) (simp_all add: a)
  ultimately have "\<forall>p < length ?ts. served demo_client (p + 1) (?ts ! p) (answers ! p)"
    by (auto simp: less_Suc_eq numeral_2_eq_2)
  moreover have "list_all unreserved (KEY demo_client)" by (rule key)
  moreover have "length answers = length ?ts" "length ?ts < 2 ^ 63" by (simp_all add: a)
  moreover have "0 \<le> (30 :: int)" "(30 :: int) * 1000000000 < 2 ^ 63" by simp_all
  ultimately obtain log where "client_main [''consistency_log'', CLIENT_ID demo_client, FormatInt 30, KEY demo_client] (\<lambda>_. None) 0 ?ts = (Ok (), log)"
      "length log = length (takeWhile (\<lambda>t. sint (tk_now t - 0) < 30 * 1000000000) ?ts)"
      "\<forall>p < length log. logged demo_client (p + 1) (?ts ! p) (log ! p)"
    using client_log_of_service [OF h, of ?ts demo_client 30 "\<lambda>_. None" "''consistency_log''" 0] by blast
  moreover have "length (takeWhile (\<lambda>t. sint (tk_now t - 0) < 30 * 1000000000) ?ts) = 2" by (simp add: demo_tick_def)
  ultimately show ?thesis using h by (intro exI [of _ answers] exI [of _ sv] exI [of _ ?ts] exI [of _ log]) simp
qed

end
